(* ===== verification/RW_Prelude.thy ===== *)
theory RW_Prelude
  imports Main "HOL-Library.Word"
begin

text \<open>
  Shared vocabulary of the development: thread identifiers, the outcome of one atomic step
  (blocked, an exception, or a result), counting the threads that satisfy a predicate, and
  reachability of a transition system with its invariant rule.  Nothing here models code of the
  repository; every component theory imports it.
\<close>

named_theorems outcome_simps "rewriting the outcome of a step"
named_theorems count_simps "how updating one thread changes the number of threads with a property"

section \<open>Outcomes of an atomic step\<close>

type_synonym tid = nat

text \<open>
  A step of a C++ function either cannot be taken now (the thread sleeps in a system call), throws
  (a \<open>std::system_error\<close> with its \<open>errno\<close>), or completes.
\<close>

datatype ('e, 'a) outcome = Blocked | Threw 'e | Done 'a

fun bind_outcome :: "('e, 'a) outcome \<Rightarrow> ('a \<Rightarrow> ('e, 'b) outcome) \<Rightarrow> ('e, 'b) outcome" where
  "bind_outcome Blocked f = Blocked"
| "bind_outcome (Threw e) f = Threw e"
| "bind_outcome (Done a) f = f a"

lemma bind_outcome_Done_iff [outcome_simps]:
  "bind_outcome r f = Done b \<longleftrightarrow> (\<exists>a. r = Done a \<and> f a = Done b)"
  by (cases r) auto

lemma bind_outcome_Threw_iff [outcome_simps]:
  "bind_outcome r f = Threw e \<longleftrightarrow> r = Threw e \<or> (\<exists>a. r = Done a \<and> f a = Threw e)"
  by (cases r) auto

lemma bind_outcome_Blocked_iff [outcome_simps]:
  "bind_outcome r f = Blocked \<longleftrightarrow> r = Blocked \<or> (\<exists>a. r = Done a \<and> f a = Blocked)"
  by (cases r) auto

section \<open>Counting threads\<close>

text \<open>
  \<open>count P f\<close> is the number of threads whose local state \<open>f t\<close> satisfies \<open>P\<close>.  All but finitely
  many threads are in a default state \<open>z\<close>; the predicates counted are false there.
\<close>

definition tcount :: "('p \<Rightarrow> bool) \<Rightarrow> (tid \<Rightarrow> 'p) \<Rightarrow> nat" where
  "tcount P f = card {t. P (f t)}"

definition fin_support :: "'p \<Rightarrow> (tid \<Rightarrow> 'p) \<Rightarrow> bool" where
  "fin_support z f \<longleftrightarrow> finite {t. f t \<noteq> z}"

lemma fin_support_const [simp]: "fin_support z (\<lambda>_. z)"
  by (simp add: fin_support_def)

lemma fin_support_upd [simp]: "fin_support z (f(t := x)) \<longleftrightarrow> fin_support z f"
proof -
  have "{u. (f(t := x)) u \<noteq> z} \<subseteq> insert t {u. f u \<noteq> z}"
    and "{u. f u \<noteq> z} \<subseteq> insert t {u. (f(t := x)) u \<noteq> z}" by auto
  then show ?thesis
    unfolding fin_support_def by (meson finite_insert finite_subset)
qed

lemma finite_sat: "fin_support z f \<Longrightarrow> \<not> P z \<Longrightarrow> finite {t. P (f t)}"
  unfolding fin_support_def by (erule finite_subset [rotated]) auto

lemma tcount_const [simp]: "\<not> P z \<Longrightarrow> tcount P (\<lambda>_. z) = 0"
  by (simp add: tcount_def)

lemma tcount_upd_nat:
  assumes "fin_support z f" and "\<not> P z"
  shows "tcount P (f(t := x)) + of_bool (P (f t)) = tcount P f + of_bool (P x)"
proof -
  define A where "A = {u. P (f u)} - {t}"
  have fin: "finite A"
    using finite_sat [of z f P] assms by (simp add: A_def)
  have old: "{u. P (f u)} = (if P (f t) then insert t A else A)"
    and new: "{u. P ((f(t := x)) u)} = (if P x then insert t A else A)"
    by (auto simp: A_def)
  have "t \<notin> A" by (simp add: A_def)
  with fin show ?thesis
    unfolding tcount_def old new by simp
qed

text \<open>
  The rewrite rule used by every invariant proof, over \<open>int\<close> so that linear arithmetic has no
  truncated subtraction.
\<close>

lemma tcount_upd [count_simps]:
  assumes "fin_support z f" and "\<not> P z"
  shows "int (tcount P (f(t := x))) = int (tcount P f) - of_bool (P (f t)) + of_bool (P x)"
  using tcount_upd_nat [of z f P t x] assms
  by (cases "P (f t)"; cases "P x") simp_all

lemma tcount_pos:
  assumes "fin_support z f" and "\<not> P z" and "P (f t)"
  shows "1 \<le> tcount P f"
proof -
  have "{u. P (f u)} \<noteq> {}" using assms(3) by blast
  with finite_sat [of z f P] assms(1,2) show ?thesis
    by (simp add: tcount_def card_gt_0_iff Suc_le_eq)
qed

lemma tcount_two:
  assumes "fin_support z f" and "\<not> P z" and "P (f t)" and "P (f u)" and "t \<noteq> u"
  shows "2 \<le> tcount P f"
proof -
  have "card {t, u} \<le> card {v. P (f v)}"
    using assms finite_sat [of z f P] by (intro card_mono) auto
  with assms(5) show ?thesis by (simp add: tcount_def)
qed

lemma tcount_unique:
  assumes "fin_support z f" and "\<not> P z" and "tcount P f \<le> 1" and "P (f t)" and "P (f u)"
  shows "t = u"
  using tcount_two [of z f P t u] assms by linarith

lemma tcount_mono:
  assumes "fin_support z f" and "\<not> Q z" and "\<And>x. P x \<Longrightarrow> Q x"
  shows "tcount P f \<le> tcount Q f"
  unfolding tcount_def using assms finite_sat [of z f Q] by (intro card_mono) auto

lemma tcount_eq_0:
  assumes "fin_support z f" and "\<not> P z"
  shows "tcount P f = 0 \<longleftrightarrow> (\<forall>t. \<not> P (f t))"
  using finite_sat [of z f P] assms by (auto simp: tcount_def)

lemma tcount_obtain:
  assumes "1 \<le> tcount P f"
  obtains t where "P (f t)"
proof -
  have "{u. P (f u)} \<noteq> {}"
    using assms by (auto simp: tcount_def simp del: Collect_empty_eq)
  then show thesis using that by blast
qed

section \<open>Summing over threads\<close>

definition tsum :: "('p \<Rightarrow> nat) \<Rightarrow> 'p \<Rightarrow> (tid \<Rightarrow> 'p) \<Rightarrow> nat" where
  "tsum w z f = (\<Sum>t\<in>{t. f t \<noteq> z}. w (f t))"

lemma tsum_superset:
  assumes "finite A" and "{t. f t \<noteq> z} \<subseteq> A" and "w z = 0"
  shows "tsum w z f = (\<Sum>t\<in>A. w (f t))"
  unfolding tsum_def using assms by (intro sum.mono_neutral_left) auto

lemma tsum_upd [count_simps]:
  assumes "fin_support z f" and "w z = 0"
  shows "tsum w z (f(t := x)) + w (f t) = tsum w z f + w x"
proof -
  define A where "A = {u. f u \<noteq> z} - {t}"
  have fin: "finite A" "t \<notin> A" using assms(1) by (simp_all add: A_def fin_support_def)
  have sub: "{u. f u \<noteq> z} \<subseteq> insert t A" "{u. (f(t := x)) u \<noteq> z} \<subseteq> insert t A"
    by (auto simp: A_def)
  have "(\<Sum>u\<in>A. w ((f(t := x)) u)) = (\<Sum>u\<in>A. w (f u))" using fin by (intro sum.cong) auto
  with fin show ?thesis
    using tsum_superset [OF _ sub(1), of w] tsum_superset [OF _ sub(2), of w] assms(2)
    by (simp add: fun_upd_def)
qed

lemma tsum_le:
  assumes "\<And>t. w (f t) \<le> n"
  shows "tsum w z f \<le> n * card {t. f t \<noteq> z}"
  unfolding tsum_def using sum_bounded_above [of "{t. f t \<noteq> z}" "\<lambda>t. w (f t)" n] assms
  by (simp add: mult.commute)

section \<open>Reachable states\<close>

inductive reachable :: "'s \<Rightarrow> ('s \<Rightarrow> 's \<Rightarrow> bool) \<Rightarrow> 's \<Rightarrow> bool" for s0 R where
  reachable_init: "reachable s0 R s0"
| reachable_step: "reachable s0 R s \<Longrightarrow> R s s' \<Longrightarrow> reachable s0 R s'"

text \<open>The contract of an inductive invariant: it holds at the start and every step keeps it.\<close>

locale inductive_invariant =
  fixes s0 :: 's and R :: "'s \<Rightarrow> 's \<Rightarrow> bool" and I :: "'s \<Rightarrow> bool"
  assumes inv_start: "I s0"
    and inv_step: "I s \<Longrightarrow> R s s' \<Longrightarrow> I s'"
begin

lemma inv_reachable: "reachable s0 R s \<Longrightarrow> I s"
  by (induction rule: reachable.induct) (auto intro: inv_start inv_step)

end

lemma reachable_trans:
  "reachable s1 R s2 \<Longrightarrow> reachable s0 R s1 \<Longrightarrow> reachable s0 R s2"
  by (induction rule: reachable.induct) (auto intro: reachable_step)

section \<open>Machine integers\<close>

text \<open>A C++ \<open>int\<close> that stays in range.\<close>

lemma sint_word_of_int_32:
  "- (2 ^ 31) \<le> k \<Longrightarrow> k < 2 ^ 31 \<Longrightarrow> sint (word_of_int k :: 32 word) = k"
  by (simp add: sint_sbintrunc' signed_take_bit_int_eq_self)

end
