(* ===== verification/Config.thy ===== *)
theory Config
  imports RW_Prelude
begin

text \<open>
  \<open>include/config.hpp\<close>: the compile-time constants, the enumerations that select the algorithm,
  the log verbosity and the load profile, and the run-time configuration \<open>SimConfig\<close> with
  \<open>applyLoadProfile\<close>.  C++ \<open>int\<close> fields are \<open>int\<close>; where their width matters (the shared operation
  counter) the component that uses them converts to \<open>32 word\<close>.
\<close>

section \<open>Constants\<close>

definition STARVE_MS :: int where "STARVE_MS = 500"

definition WATCHDOG_POLL_MS :: int where "WATCHDOG_POLL_MS = 50"

definition BENCHMARK_RUNS :: nat where "BENCHMARK_RUNS = 5"

definition READ_WORK_MS :: int where "READ_WORK_MS = 100"

definition WRITE_WORK_MS :: int where "WRITE_WORK_MS = 150"

definition MAX_THREADS :: int where "MAX_THREADS = 64"

section \<open>Algorithms\<close>

datatype AlgoType = READER_PRIORITY | WRITER_PRIORITY | FAIR_MORRIS

fun algoShortName :: "AlgoType \<Rightarrow> string" where
  "algoShortName READER_PRIORITY = ''RP''"
| "algoShortName WRITER_PRIORITY = ''WP''"
| "algoShortName FAIR_MORRIS = ''FA''"

fun algoLongName :: "AlgoType \<Rightarrow> string" where
  "algoLongName READER_PRIORITY = ''Reader-Priority''"
| "algoLongName WRITER_PRIORITY = ''Writer-Priority''"
| "algoLongName FAIR_MORRIS = ''Fair (Morris)''"

section \<open>Log levels\<close>

datatype LogLevel = VERBOSE | STANDARD | SUMMARY

text \<open>
  The enumerators carry the values 0, 1, 2 of the underlying \<open>uint8_t\<close>; the order they induce
  (more verbose is smaller) is the one the logger's filter is antitone in.
\<close>

fun level_code :: "LogLevel \<Rightarrow> nat" where
  "level_code VERBOSE = 0"
| "level_code STANDARD = 1"
| "level_code SUMMARY = 2"

lemma level_code_inj: "level_code a = level_code b \<longleftrightarrow> a = b"
  by (cases a; cases b) simp_all

instantiation LogLevel :: linorder
begin

definition less_eq_LogLevel :: "LogLevel \<Rightarrow> LogLevel \<Rightarrow> bool" where
  "less_eq_LogLevel a b \<longleftrightarrow> level_code a \<le> level_code b"

definition less_LogLevel :: "LogLevel \<Rightarrow> LogLevel \<Rightarrow> bool" where
  "less_LogLevel a b \<longleftrightarrow> level_code a < level_code b"

instance
  by standard (auto simp: less_eq_LogLevel_def less_LogLevel_def level_code_inj)

end

section \<open>Load profiles and the run-time configuration\<close>

datatype LoadProfile = LIGHT | BALANCED | HEAVY | CUSTOM

record SimConfig =
  cfg_algo :: AlgoType
  cfg_numReaders :: int
  cfg_numWriters :: int
  cfg_totalOps :: int
  cfg_logLevel :: LogLevel
  cfg_logFile :: string
  cfg_benchmarkMode :: bool
  cfg_csvOutput :: string
  cfg_starveThresholdMs :: int
  cfg_readWorkMs :: int
  cfg_writeWorkMs :: int
  cfg_enableAbortTest :: bool

text \<open>The member initialisers of \<open>struct SimConfig\<close>.\<close>

definition default_SimConfig :: SimConfig where
  "default_SimConfig =
     \<lparr> cfg_algo = READER_PRIORITY, cfg_numReaders = 5, cfg_numWriters = 3, cfg_totalOps = 100,
       cfg_logLevel = VERBOSE, cfg_logFile = '''', cfg_benchmarkMode = False,
       cfg_csvOutput = '''', cfg_starveThresholdMs = STARVE_MS, cfg_readWorkMs = READ_WORK_MS,
       cfg_writeWorkMs = WRITE_WORK_MS, cfg_enableAbortTest = False \<rparr>"

fun applyLoadProfile :: "SimConfig \<Rightarrow> LoadProfile \<Rightarrow> SimConfig" where
  "applyLoadProfile cfg LIGHT =
     cfg\<lparr>cfg_numReaders := 3, cfg_numWriters := 1, cfg_totalOps := 100\<rparr>"
| "applyLoadProfile cfg BALANCED =
     cfg\<lparr>cfg_numReaders := 5, cfg_numWriters := 5, cfg_totalOps := 500\<rparr>"
| "applyLoadProfile cfg HEAVY =
     cfg\<lparr>cfg_numReaders := 10, cfg_numWriters := 10, cfg_totalOps := 1000\<rparr>"
| "applyLoadProfile cfg CUSTOM = cfg"

text \<open>A profile only ever changes the three load fields, and the last profile applied wins.\<close>

lemma applyLoadProfile_frame [simp]:
  "cfg_algo (applyLoadProfile cfg p) = cfg_algo cfg"
  "cfg_logLevel (applyLoadProfile cfg p) = cfg_logLevel cfg"
  "cfg_logFile (applyLoadProfile cfg p) = cfg_logFile cfg"
  "cfg_csvOutput (applyLoadProfile cfg p) = cfg_csvOutput cfg"
  "cfg_starveThresholdMs (applyLoadProfile cfg p) = cfg_starveThresholdMs cfg"
  "cfg_enableAbortTest (applyLoadProfile cfg p) = cfg_enableAbortTest cfg"
  by (cases p; simp)+

lemma applyLoadProfile_last_wins:
  "q \<noteq> CUSTOM \<Longrightarrow> applyLoadProfile (applyLoadProfile cfg p) q = applyLoadProfile cfg q"
  by (cases p; cases q) simp_all

end
