(* ===== verification/Thread_State.thy ===== *)
theory Thread_State
  imports Config Text_Format
begin

text \<open>
  \<open>include/thread_state.hpp\<close>: the six thread states, the thread types and \<open>struct ThreadInfo\<close>
  with its helpers.  \<open>std::chrono::steady_clock\<close> readings are \<open>int\<close> nanoseconds, passed in as an
  argument wherever the code calls \<open>Clock::now()\<close>; \<open>long\<close> and \<open>int\<close> accumulators are \<open>int\<close>.
\<close>

datatype ThreadState = INIT | WAITING | ACTIVE | BLOCKED | RELEASING | DONE

fun stateName :: "ThreadState \<Rightarrow> string" where
  "stateName INIT = ''INIT''"
| "stateName WAITING = ''WAITING''"
| "stateName ACTIVE = ''ACTIVE''"
| "stateName BLOCKED = ''BLOCKED''"
| "stateName RELEASING = ''RELEASING''"
| "stateName DONE = ''DONE''"

datatype ThreadType = READER | WRITER

fun threadTypeName :: "ThreadType \<Rightarrow> string" where
  "threadTypeName ty = (if ty = READER then ''R'' else ''W'')"

type_synonym TimePoint = int

record ThreadInfo =
  ti_tid :: int
  ti_type :: ThreadType
  ti_algo :: AlgoType
  ti_state :: ThreadState
  ti_waitStart :: TimePoint
  ti_activeStart :: TimePoint
  ti_doneTime :: TimePoint
  ti_totalWaitMs :: int
  ti_opsCompleted :: int
  ti_starveCount :: int
  ti_abortRequested :: bool

text \<open>The member initialisers; a default-constructed \<open>time_point\<close> is the clock's epoch.\<close>

definition default_ThreadInfo :: ThreadInfo where
  "default_ThreadInfo =
     \<lparr> ti_tid = 0, ti_type = READER, ti_algo = READER_PRIORITY, ti_state = INIT,
       ti_waitStart = 0, ti_activeStart = 0, ti_doneTime = 0,
       ti_totalWaitMs = 0, ti_opsCompleted = 0, ti_starveCount = 0, ti_abortRequested = False \<rparr>"

text \<open>\<open>duration_cast<milliseconds>\<close> of a nanosecond count truncates towards zero.\<close>

definition duration_cast_ms :: "int \<Rightarrow> int" where
  "duration_cast_ms d = sgn d * (\<bar>d\<bar> div 1000000)"

definition enterWaiting :: "TimePoint \<Rightarrow> ThreadInfo \<Rightarrow> ThreadInfo" where
  "enterWaiting now i = i\<lparr>ti_waitStart := now, ti_state := WAITING\<rparr>"

definition enterActive :: "TimePoint \<Rightarrow> ThreadInfo \<Rightarrow> ThreadInfo" where
  "enterActive now i =
     (let waited = duration_cast_ms (now - ti_waitStart i)
      in i\<lparr>ti_activeStart := now, ti_totalWaitMs := ti_totalWaitMs i + waited,
           ti_state := ACTIVE\<rparr>)"

definition currentWaitMs :: "TimePoint \<Rightarrow> ThreadInfo \<Rightarrow> int" where
  "currentWaitMs now i =
     (if ti_state i = WAITING then duration_cast_ms (now - ti_waitStart i) else 0)"

definition lastWaitMs :: "TimePoint \<Rightarrow> ThreadInfo \<Rightarrow> int" where
  "lastWaitMs now i =
     (let ref = (if ti_state i = WAITING then ti_waitStart i else ti_activeStart i)
      in duration_cast_ms (now - ref))"

section \<open>Durations\<close>

lemma duration_cast_nonneg: "0 \<le> d \<Longrightarrow> duration_cast_ms d = d div 1000000"
  by (cases "d = 0") (simp_all add: duration_cast_ms_def)

lemma duration_cast_bounds:
  assumes "0 \<le> d"
  shows "1000000 * duration_cast_ms d \<le> d" and "d < 1000000 * duration_cast_ms d + 1000000"
  using assms by (simp_all add: duration_cast_nonneg)

lemma duration_cast_mono: "d \<le> e \<Longrightarrow> 0 \<le> d \<Longrightarrow> duration_cast_ms d \<le> duration_cast_ms e"
  by (simp add: duration_cast_nonneg zdiv_mono1)

lemma duration_cast_neg: "duration_cast_ms (- d) = - duration_cast_ms d"
  by (simp add: duration_cast_ms_def)

section \<open>Accumulated waiting time\<close>

text \<open>
  A thread's successive lock acquisitions: each pair is the reading taken by \<open>enterWaiting\<close> and
  the one taken by \<open>enterActive\<close>.
\<close>

fun acquisitions :: "(TimePoint \<times> TimePoint) list \<Rightarrow> ThreadInfo \<Rightarrow> ThreadInfo" where
  "acquisitions [] i = i"
| "acquisitions ((w, a) # eps) i = acquisitions eps (enterActive a (enterWaiting w i))"

lemma enterActive_enterWaiting [simp]:
  "ti_totalWaitMs (enterActive a (enterWaiting w i)) = ti_totalWaitMs i + duration_cast_ms (a - w)"
  "ti_state (enterActive a j) = ACTIVE"
  "ti_state (enterWaiting w i) = WAITING"
  by (simp_all add: enterActive_def enterWaiting_def Let_def)

lemma acquisitions_total:
  "ti_totalWaitMs (acquisitions eps i) =
     ti_totalWaitMs i + (\<Sum>(w, a) \<leftarrow> eps. duration_cast_ms (a - w))"
  by (induction eps i rule: acquisitions.induct) simp_all

text \<open>
  Truncation loses less than a millisecond per acquisition, never more.
\<close>

lemma acquisitions_bounds:
  assumes "\<forall>(w, a) \<in> set eps. w \<le> a"
  shows "1000000 * (\<Sum>(w, a) \<leftarrow> eps. duration_cast_ms (a - w)) \<le> (\<Sum>(w, a) \<leftarrow> eps. a - w)"
    and "(\<Sum>(w, a) \<leftarrow> eps. a - w)
           \<le> 1000000 * (\<Sum>(w, a) \<leftarrow> eps. duration_cast_ms (a - w)) + 999999 * int (length eps)"
  using assms
proof (induction eps)
  case Nil
  { case 1 show ?case by simp }
  { case 2 show ?case by simp }
next
  case (Cons e eps)
  obtain w a where e: "e = (w, a)" by (cases e)
  { case 1
    then show ?case using Cons.IH(1) duration_cast_bounds(1) [of "a - w"]
      by (auto simp: e distrib_left) }
  { case 2
    then show ?case using Cons.IH(2) duration_cast_bounds(2) [of "a - w"]
      by (auto simp: e distrib_left) }
qed

text \<open>
  \<open>totalWaitMs\<close> after any number of acquisitions is the sum of the waits in whole milliseconds; it
  never exceeds the true total and falls short of it by less than one millisecond per acquisition.
\<close>

lemma totalWaitMs_bounds:
  assumes "\<forall>(w, a) \<in> set eps. w \<le> a" and "ti_totalWaitMs i = 0"
  shows "1000000 * ti_totalWaitMs (acquisitions eps i) \<le> (\<Sum>(w, a) \<leftarrow> eps. a - w)
       \<and> (\<Sum>(w, a) \<leftarrow> eps. a - w)
           \<le> 1000000 * ti_totalWaitMs (acquisitions eps i) + 999999 * int (length eps)"
  using acquisitions_bounds [OF assms(1)] assms(2) by (simp add: acquisitions_total)

lemma totalWaitMs_bounds_witness:
  "ti_totalWaitMs (acquisitions [(0, 1999999), (5, 3000004)] default_ThreadInfo) = 3
     \<and> (4999998::int) \<le> 1000000 * 3 + 999999 * 2"
  using totalWaitMs_bounds [of "[(0, 1999999), (5, 3000004)]" default_ThreadInfo]
  by (simp add: acquisitions_total default_ThreadInfo_def duration_cast_nonneg)

end
