(* ===== verification/Semaphores.thy ===== *)
theory Semaphores
  imports RW_Prelude
begin

text \<open>
  \<open>include/semaphore.hpp\<close> and \<open>src/semaphore.cpp\<close>: the \<open>Semaphore\<close> class over POSIX \<open>sem_t\<close>.

  The system calls are modelled as POSIX documents them: a call sleeps (\<open>Blocked\<close>), fails with an
  \<open>errno\<close> (\<open>Threw\<close>), or completes.  Whether a signal interrupts a sleeping call is the environment's
  choice, so each retry loop takes a script that says which of its successive attempts a signal
  interrupts; when the script is used up no further signal arrives.
\<close>

datatype errno = EINTR | EAGAIN | ETIMEDOUT | EINVAL | EOVERFLOW | ENOSYS

text \<open>\<open>sem_t\<close> is live between \<open>sem_init\<close> and \<open>sem_destroy\<close>; \<open>sem_name\<close> is the label \<open>name_\<close>.\<close>

record Semaphore =
  sem_live :: bool
  sem_count :: nat
  sem_name :: string

definition SEM_VALUE_MAX :: nat where "SEM_VALUE_MAX = 2147483647"

section \<open>The system calls\<close>

definition sem_init_call :: "nat \<Rightarrow> (errno, Semaphore) outcome" where
  "sem_init_call v =
     (if SEM_VALUE_MAX < v then Threw EINVAL
      else Done \<lparr>sem_live = True, sem_count = v, sem_name = ''''\<rparr>)"

definition sem_wait_call :: "bool \<Rightarrow> Semaphore \<Rightarrow> (errno, Semaphore) outcome" where
  "sem_wait_call intr s =
     (if \<not> sem_live s then Threw EINVAL
      else if intr then Threw EINTR
      else if 0 < sem_count s then Done (s\<lparr>sem_count := sem_count s - 1\<rparr>)
      else Blocked)"

definition sem_trywait_call :: "bool \<Rightarrow> Semaphore \<Rightarrow> (errno, Semaphore) outcome" where
  "sem_trywait_call intr s =
     (if \<not> sem_live s then Threw EINVAL
      else if intr then Threw EINTR
      else if 0 < sem_count s then Done (s\<lparr>sem_count := sem_count s - 1\<rparr>)
      else Threw EAGAIN)"

definition sem_post_call :: "Semaphore \<Rightarrow> (errno, Semaphore) outcome" where
  "sem_post_call s =
     (if \<not> sem_live s then Threw EINVAL
      else if sem_count s = SEM_VALUE_MAX then Threw EOVERFLOW
      else Done (s\<lparr>sem_count := Suc (sem_count s)\<rparr>))"

section \<open>Construction, destruction, accessors\<close>

text \<open>\<open>throwErrno\<close> turns a failed call into \<open>std::system_error(errno)\<close>, the value \<open>Threw errno\<close>.\<close>

definition throwErrno :: "errno \<Rightarrow> (errno, 'a) outcome" where
  "throwErrno e = Threw e"

definition Semaphore_ctor :: "nat \<Rightarrow> (errno, Semaphore) outcome" where
  "Semaphore_ctor initialValue =
     (case sem_init_call initialValue of Threw e \<Rightarrow> throwErrno e | r \<Rightarrow> r)"

definition Semaphore_dtor :: "Semaphore \<Rightarrow> Semaphore" where
  "Semaphore_dtor s = s\<lparr>sem_live := False\<rparr>"

definition Semaphore_setName :: "string \<Rightarrow> Semaphore \<Rightarrow> Semaphore" where
  "Semaphore_setName n s = s\<lparr>sem_name := n\<rparr>"

definition Semaphore_value :: "Semaphore \<Rightarrow> (errno, int) outcome" where
  "Semaphore_value s = (if sem_live s then Done (int (sem_count s)) else throwErrno EINVAL)"

section \<open>wait, post, try_wait\<close>

fun Semaphore_wait :: "bool list \<Rightarrow> Semaphore \<Rightarrow> (errno, Semaphore) outcome" where
  "Semaphore_wait [] s =
     (case sem_wait_call False s of Threw e \<Rightarrow> throwErrno e | r \<Rightarrow> r)"
| "Semaphore_wait (intr # sigs) s =
     (case sem_wait_call intr s of
        Threw e \<Rightarrow> if e = EINTR then Semaphore_wait sigs s else throwErrno e
      | r \<Rightarrow> r)"

definition Semaphore_post :: "Semaphore \<Rightarrow> (errno, Semaphore) outcome" where
  "Semaphore_post s = (case sem_post_call s of Threw e \<Rightarrow> throwErrno e | r \<Rightarrow> r)"

fun Semaphore_try_wait :: "bool list \<Rightarrow> Semaphore \<Rightarrow> (errno, bool \<times> Semaphore) outcome" where
  "Semaphore_try_wait [] s =
     (case sem_trywait_call False s of
        Threw e \<Rightarrow> if e = EAGAIN then Done (False, s) else throwErrno e
      | Blocked \<Rightarrow> Blocked
      | Done s' \<Rightarrow> Done (True, s'))"
| "Semaphore_try_wait (intr # sigs) s =
     (case sem_trywait_call intr s of
        Threw e \<Rightarrow> if e = EAGAIN then Done (False, s)
                  else if e = EINTR then Semaphore_try_wait sigs s
                  else throwErrno e
      | Blocked \<Rightarrow> Blocked
      | Done s' \<Rightarrow> Done (True, s'))"

section \<open>timed_wait\<close>

text \<open>A \<open>struct timespec\<close>: seconds and nanoseconds.\<close>

type_synonym timespec = "int \<times> int"

definition timed_deadline :: "timespec \<Rightarrow> int \<Rightarrow> timespec" where
  "timed_deadline now timeoutMs =
     (let addNs = timeoutMs * 1000000;
          sec = fst now;
          nsec = snd now + addNs
      in if 1000000000 \<le> nsec then (sec + nsec div 1000000000, nsec mod 1000000000)
         else (sec, nsec))"

text \<open>
  One \<open>sem_timedwait\<close>: the environment decides whether the sleeping call is interrupted, sees its
  deadline pass, or is still asleep.  POSIX takes an available semaphore before looking at the
  deadline, and rejects nanoseconds outside \<open>[0, 10^9)\<close> when it would have to sleep.
\<close>

datatype timed_event = TE_interrupt | TE_expire | TE_asleep

definition sem_timedwait_call ::
    "timespec \<Rightarrow> timed_event \<Rightarrow> Semaphore \<Rightarrow> (errno, Semaphore) outcome" where
  "sem_timedwait_call abstime ev s =
     (if \<not> sem_live s then Threw EINVAL
      else if 0 < sem_count s then Done (s\<lparr>sem_count := sem_count s - 1\<rparr>)
      else if snd abstime < 0 \<or> 1000000000 \<le> snd abstime then Threw EINVAL
      else (case ev of TE_interrupt \<Rightarrow> Threw EINTR | TE_expire \<Rightarrow> Threw ETIMEDOUT
            | TE_asleep \<Rightarrow> Blocked))"

fun timed_wait_loop ::
    "timespec \<Rightarrow> timed_event list \<Rightarrow> Semaphore \<Rightarrow> (errno, bool \<times> Semaphore) outcome" where
  "timed_wait_loop abstime [] s =
     (case sem_timedwait_call abstime TE_asleep s of
        Threw e \<Rightarrow> throwErrno e | Blocked \<Rightarrow> Blocked | Done s' \<Rightarrow> Done (True, s'))"
| "timed_wait_loop abstime (ev # evs) s =
     (case sem_timedwait_call abstime ev s of
        Threw e \<Rightarrow> if e = ETIMEDOUT then Done (False, s)
                  else if e = EINTR then timed_wait_loop abstime evs s
                  else throwErrno e
      | Blocked \<Rightarrow> Blocked
      | Done s' \<Rightarrow> Done (True, s'))"

definition Semaphore_timed_wait ::
    "timespec \<Rightarrow> int \<Rightarrow> timed_event list \<Rightarrow> Semaphore \<Rightarrow> (errno, bool \<times> Semaphore) outcome" where
  "Semaphore_timed_wait now timeoutMs evs s = timed_wait_loop (timed_deadline now timeoutMs) evs s"

section \<open>SemaphoreGuard\<close>

text \<open>
  The scoped guard: the constructor waits, the destructor posts, also when the guarded block
  throws.
\<close>

definition SemaphoreGuard ::
    "(Semaphore \<Rightarrow> (errno, 'a) outcome \<times> Semaphore) \<Rightarrow> Semaphore
       \<Rightarrow> (errno, (errno, 'a) outcome \<times> Semaphore) outcome" where
  "SemaphoreGuard body s =
     bind_outcome (Semaphore_wait [] s) (\<lambda>s1.
       case body s1 of (r, s2) \<Rightarrow> bind_outcome (Semaphore_post s2) (\<lambda>s3. Done (r, s3)))"

section \<open>Properties\<close>

lemmas sem_defs = sem_wait_call_def sem_trywait_call_def sem_post_call_def
  sem_timedwait_call_def throwErrno_def Semaphore_post_def

lemma Semaphore_post_unfold:
  "Semaphore_post s =
     (if \<not> sem_live s then Threw EINVAL
      else if sem_count s = SEM_VALUE_MAX then Threw EOVERFLOW
      else Done (s\<lparr>sem_count := Suc (sem_count s)\<rparr>))"
  by (simp add: sem_defs)

text \<open>Signals are invisible to the caller: retrying on \<open>EINTR\<close> removes every interruption.\<close>

lemma wait_ignores_signals: "Semaphore_wait sigs s = Semaphore_wait [] s"
  by (induction sigs s rule: Semaphore_wait.induct) (auto simp: sem_defs)

lemma Semaphore_wait_unfold:
  "Semaphore_wait sigs s =
     (if \<not> sem_live s then Threw EINVAL
      else if 0 < sem_count s then Done (s\<lparr>sem_count := sem_count s - 1\<rparr>) else Blocked)"
  by (subst wait_ignores_signals) (simp add: sem_defs)

lemma try_wait_ignores_signals: "Semaphore_try_wait sigs s = Semaphore_try_wait [] s"
  by (induction sigs s rule: Semaphore_try_wait.induct) (auto simp: sem_defs)

lemma try_wait_unfold:
  "Semaphore_try_wait sigs s =
     (if \<not> sem_live s then Threw EINVAL
      else if 0 < sem_count s then Done (True, s\<lparr>sem_count := sem_count s - 1\<rparr>)
      else Done (False, s))"
  by (subst try_wait_ignores_signals) (simp add: sem_defs)

text \<open>The deadline: exact, normalised for a non-negative timeout, within 64 bits.\<close>

lemma timed_deadline_exact:
  "1000000000 * fst (timed_deadline now ms) + snd (timed_deadline now ms)
     = 1000000000 * fst now + snd now + ms * 1000000"
  by (simp add: timed_deadline_def Let_def)

lemma timed_deadline_normalised:
  "0 \<le> snd now \<Longrightarrow> 0 \<le> ms \<Longrightarrow>
     0 \<le> snd (timed_deadline now ms) \<and> snd (timed_deadline now ms) < 1000000000"
  by (simp add: timed_deadline_def Let_def)

lemma timed_deadline_64_bit:
  fixes ms :: int
  assumes "- (2 ^ 31) \<le> ms" and "ms < 2 ^ 31" and "0 \<le> snd now" and "snd now < 1000000000"
  shows "- (2 ^ 63) \<le> ms * 1000000 \<and> ms * 1000000 < 2 ^ 63"
    and "- (2 ^ 63) \<le> snd now + ms * 1000000 \<and> snd now + ms * 1000000 < 2 ^ 63"
  using assms by simp_all

text \<open>The binary semaphores the locks are built from: \<open>Semaphore(1)\<close>.\<close>

definition binary_semaphore :: Semaphore where
  "binary_semaphore = \<lparr>sem_live = True, sem_count = 1, sem_name = ''''\<rparr>"

lemma ctor_binary: "Semaphore_ctor 1 = Done binary_semaphore"
  by (simp add: Semaphore_ctor_def sem_init_call_def SEM_VALUE_MAX_def binary_semaphore_def)

text \<open>
  The retry loop returns \<open>False\<close> exactly when the first event that is not a signal is the expiry of
  the deadline, and it never acquires in that case.
\<close>

lemma timed_wait_loop_empty:
  assumes "sem_live s" and "sem_count s = 0" and "0 \<le> snd d" and "snd d < 1000000000"
  shows "timed_wait_loop d evs s =
    (case dropWhile (\<lambda>e. e = TE_interrupt) evs of
       TE_expire # _ \<Rightarrow> Done (False, s) | _ \<Rightarrow> Blocked)"
  using assms
  by (induction d evs s rule: timed_wait_loop.induct)
     (auto simp: sem_defs split: timed_event.splits)

lemma timed_wait_loop_available:
  assumes "sem_live s" and "0 < sem_count s"
  shows "timed_wait_loop d evs s = Done (True, s\<lparr>sem_count := sem_count s - 1\<rparr>)"
  using assms by (cases evs) (simp_all add: sem_defs)

section \<open>Sequences of operations on one semaphore\<close>

text \<open>
  The calls of the four methods by any threads, in the order in which they take effect.  The result of a call
  is what its caller learns: the value returned by \<open>try_wait\<close> and \<open>timed_wait\<close>, and \<open>True\<close> for a \<open>wait\<close> or
  \<open>post\<close> that returned.
\<close>

datatype sem_op =
    OpWait "bool list" | OpTryWait "bool list" | OpTimedWait timespec int "timed_event list" | OpPost

fun sem_call :: "sem_op \<Rightarrow> Semaphore \<Rightarrow> (errno, bool \<times> Semaphore) outcome" where
  "sem_call (OpWait sigs) s = bind_outcome (Semaphore_wait sigs s) (\<lambda>s'. Done (True, s'))"
| "sem_call (OpTryWait sigs) s = Semaphore_try_wait sigs s"
| "sem_call (OpTimedWait now ms evs) s = Semaphore_timed_wait now ms evs s"
| "sem_call OpPost s = bind_outcome (Semaphore_post s) (\<lambda>s'. Done (True, s'))"

text \<open>
  Runs a sequence of calls, skipping those that would sleep or throw, and counts from the callers' side: how
  many calls told their caller that it acquired a unit, and how many posts returned.  The value of the
  semaphore plays no part in the counting.
\<close>

fun sem_run :: "sem_op list \<Rightarrow> Semaphore \<Rightarrow> nat \<Rightarrow> nat \<Rightarrow> Semaphore \<times> nat \<times> nat" where
  "sem_run [] s acq rel = (s, acq, rel)"
| "sem_run (op # ops) s acq rel =
     (case sem_call op s of
        Done (b, s') \<Rightarrow>
          (case op of
             OpPost \<Rightarrow> sem_run ops s' acq (rel + 1)
           | _ \<Rightarrow> sem_run ops s' (if b then acq + 1 else acq) rel)
      | _ \<Rightarrow> sem_run ops s acq rel)"

lemma timed_wait_done:
  "Semaphore_timed_wait now ms evs s = Done (b, s') \<Longrightarrow>
     (if b then 0 < sem_count s \<and> s' = s\<lparr>sem_count := sem_count s - 1\<rparr> else s' = s)"
  unfolding Semaphore_timed_wait_def
proof (induction "timed_deadline now ms" evs s rule: timed_wait_loop.induct)
  case (1 s)
  then show ?case by (auto simp: sem_defs split: if_splits)
next
  case (2 ev evs s)
  then show ?case by (cases ev) (auto simp: sem_defs split: if_splits)
qed

lemma sem_call_acquires:
  assumes "sem_call op s = Done (b, s')" and "op \<noteq> OpPost"
  shows "sem_count s = sem_count s' + of_bool b"
  using assms timed_wait_done
  by (cases op) (fastforce simp: Semaphore_wait_unfold try_wait_unfold outcome_simps split: if_splits)+

lemma sem_call_post:
  assumes "sem_call OpPost s = Done (b, s')"
  shows "sem_count s' = sem_count s + 1" and "sem_count s \<noteq> SEM_VALUE_MAX"
  using assms by (auto simp: Semaphore_post_unfold outcome_simps split: if_splits)

lemma sem_run_conserves:
  assumes "sem_count s \<le> SEM_VALUE_MAX" and "sem_run ops s acq rel = (s', acq', rel')"
  shows "sem_count s' \<le> SEM_VALUE_MAX \<and> sem_count s' + acq' + rel = sem_count s + rel' + acq"
  using assms
proof (induction ops arbitrary: s acq rel)
  case (Cons op ops)
  show ?case
  proof (cases "sem_call op s")
    case (Done r)
    obtain b s1 where r: "r = (b, s1)" by (cases r)
    show ?thesis
    proof (cases "op = OpPost")
      case True
      note post = sem_call_post [of s b s1, folded True, OF Done [unfolded r]]
      from Cons.prems(2) Done r True have "sem_run ops s1 acq (rel + 1) = (s', acq', rel')" by simp
      from Cons.IH [OF _ this] post Cons.prems(1) show ?thesis by simp
    next
      case False
      note count = sem_call_acquires [OF Done [unfolded r] False]
      from Cons.prems(2) Done r False have "sem_run ops s1 (if b then acq + 1 else acq) rel = (s', acq', rel')"
        by (cases op) simp_all
      from Cons.IH [OF _ this] count Cons.prems(1) show ?thesis by (cases b) simp_all
    qed
  qed (use Cons in auto)
qed simp

section \<open>What the class promises\<close>

text \<open>
  Signals are invisible to callers of \<open>wait\<close> and \<open>try_wait\<close>.  Whatever signals interrupt the
  underlying calls, \<open>wait\<close> takes one unit if there is one and otherwise sleeps, \<open>try_wait\<close> takes one
  unit or returns \<open>False\<close> with the semaphore unchanged, and both throw \<open>EINVAL\<close> on a destroyed
  semaphore and nothing else.
\<close>

lemma wait_try_wait_spec:
  "Semaphore_wait sigs s =
     (if \<not> sem_live s then Threw EINVAL
      else if 0 < sem_count s then Done (s\<lparr>sem_count := sem_count s - 1\<rparr>) else Blocked)
   \<and> Semaphore_try_wait sigs s =
     (if \<not> sem_live s then Threw EINVAL
      else if 0 < sem_count s then Done (True, s\<lparr>sem_count := sem_count s - 1\<rparr>)
      else Done (False, s))"
  using Semaphore_wait_unfold try_wait_unfold by blast

text \<open>
  C37: \<open>timed_wait\<close> with a non-negative timeout: it takes an available unit at once; otherwise it returns
  \<open>False\<close>, with the semaphore unchanged, exactly when the deadline is the first event that is not a
  signal, and sleeps on if signals are all that happens.
\<close>

theorem timed_wait_spec:
  assumes "sem_live s" and "0 \<le> timeoutMs" and "0 \<le> snd now"
  shows "Semaphore_timed_wait now timeoutMs evs s =
     (if 0 < sem_count s then Done (True, s\<lparr>sem_count := sem_count s - 1\<rparr>)
      else (case dropWhile (\<lambda>e. e = TE_interrupt) evs of
              TE_expire # _ \<Rightarrow> Done (False, s) | _ \<Rightarrow> Blocked))"
proof (cases "0 < sem_count s")
  case True
  then show ?thesis using assms(1) by (simp add: Semaphore_timed_wait_def timed_wait_loop_available)
next
  case False
  then show ?thesis
    using timed_wait_loop_empty [OF assms(1)] timed_deadline_normalised [OF assms(3,2)]
    by (simp add: Semaphore_timed_wait_def)
qed

lemma timed_wait_spec_witness:
  "Semaphore_timed_wait (10, 999999999) 1500 [TE_interrupt, TE_expire] (binary_semaphore\<lparr>sem_count := 0\<rparr>)
     = Done (False, binary_semaphore\<lparr>sem_count := 0\<rparr>)"
  using timed_wait_spec [of "binary_semaphore\<lparr>sem_count := 0\<rparr>" 1500 "(10, 999999999)"
      "[TE_interrupt, TE_expire]"]
  by (simp add: binary_semaphore_def)

text \<open>
  The deadline \<open>timed_wait\<close> passes to \<open>sem_timedwait\<close> is the current time plus the timeout, exactly;
  its nanoseconds are within \<open>[0, 10^9)\<close>; and no intermediate value of the computation leaves the
  range of a 64-bit \<open>long\<close>, for every non-negative 32-bit timeout.
\<close>

lemma deadline_exact:
  assumes "0 \<le> ms" and "ms < 2 ^ 31" and "0 \<le> snd now" and "snd now < 1000000000"
  shows "1000000000 * fst (timed_deadline now ms) + snd (timed_deadline now ms)
           = 1000000000 * fst now + snd now + ms * 1000000
       \<and> 0 \<le> snd (timed_deadline now ms) \<and> snd (timed_deadline now ms) < 1000000000
       \<and> snd now + ms * 1000000 < 2 ^ 63"
  using timed_deadline_exact timed_deadline_normalised [OF assms(3,1)]
    timed_deadline_64_bit(2) [of ms now] assms by simp

text \<open>
  A negative timeout that reaches back past the current second is an error, not an expired wait:
  the nanoseconds go negative, \<open>sem_timedwait\<close> rejects them, and \<open>timed_wait\<close> throws \<open>EINVAL\<close> where a
  caller that passes an elapsed timeout expects \<open>False\<close>.
\<close>

lemma timed_wait_negative_timeout:
  assumes "sem_live s" and "sem_count s = 0" and "snd now + timeoutMs * 1000000 < 0"
  shows "Semaphore_timed_wait now timeoutMs evs s = Threw EINVAL"
  using assms
  by (cases evs) (simp_all add: Semaphore_timed_wait_def timed_deadline_def sem_defs Let_def)

text \<open>
  C38: Conservation: after any sequence of calls of \<open>wait\<close>, \<open>try_wait\<close>, \<open>timed_wait\<close> and \<open>post\<close> on a semaphore,
  calls that would sleep or throw left out, the value is the initial value plus the number of posts that
  returned minus the number of callers that were told they acquired a unit; it never passes \<open>SEM_VALUE_MAX\<close>,
  and no more units are ever acquired than were there or were posted.
\<close>

theorem semaphore_conserves:
  assumes "sem_count s \<le> SEM_VALUE_MAX" and "sem_run ops s 0 0 = (s', acquired, released)"
  shows "sem_count s' \<le> SEM_VALUE_MAX \<and> sem_count s' + acquired = sem_count s + released
       \<and> acquired \<le> sem_count s + released"
  using sem_run_conserves [OF assms] by simp

lemma semaphore_conserves_witness:
  "\<exists>s'. sem_run [OpWait [], OpTryWait [], OpPost, OpTimedWait (0, 0) 5 [TE_expire], OpTryWait []] binary_semaphore 0 0
        = (s', 2, 1)
      \<and> sem_count s' + 2 = 1 + 1"
  using semaphore_conserves [of binary_semaphore
      "[OpWait [], OpTryWait [], OpPost, OpTimedWait (0, 0) 5 [TE_expire], OpTryWait []]"]
  by (simp add: binary_semaphore_def SEM_VALUE_MAX_def sem_defs outcome_simps Semaphore_timed_wait_def)

end
