(* ===== verification/Logging.thy ===== *)
theory Logging
  imports Thread_State
begin

text \<open>
  \<open>include/logger.hpp\<close> and \<open>src/logger.cpp\<close>: the process-wide logger.  Its state is the level, the
  lines written to the open log file (\<open>None\<close> while no file is open), and the lines written to
  standard output and standard error, newest last.  Each public operation writes its line under
  \<open>writeMutex_\<close>, so it is one atomic step here.  The wall clock that \<open>formatTimestamp\<close> reads
  (\<open>clock_gettime\<close> and \<open>localtime_r\<close>) is a field the environment sets: hours, minutes, seconds and
  the nanoseconds of the current second.
\<close>

record Logger =
  lg_level :: LogLevel
  lg_file :: "string list option"
  lg_stdout :: "string list"
  lg_stderr :: "string list"
  lg_wall :: "int \<times> int \<times> int \<times> int"

definition default_Logger :: Logger where
  "default_Logger =
     \<lparr>lg_level = VERBOSE, lg_file = None, lg_stdout = [], lg_stderr = [], lg_wall = (0, 0, 0, 0)\<rparr>"

section \<open>Initialisation and shutdown\<close>

text \<open>
  \<open>init\<close>: opening a file with mode \<open>"w"\<close> empties it; the operating system may refuse, which is the
  argument \<open>can_open\<close> with the text of \<open>strerror(errno)\<close>.
\<close>

definition Logger_init :: "bool \<Rightarrow> string \<Rightarrow> LogLevel \<Rightarrow> string \<Rightarrow> Logger \<Rightarrow> Logger" where
  "Logger_init can_open reason level filepath g =
     (let g1 = g\<lparr>lg_level := level\<rparr>
      in if filepath \<noteq> ''''
         then (let g2 = g1\<lparr>lg_file := (if can_open then Some [] else None)\<rparr>
               in if can_open then g2
                  else g2\<lparr>lg_stderr := lg_stderr g2 @
                         [''[Logger] WARNING: could not open log file '' @ [CHR 0x27]
                            @ filepath @ [CHR 0x27] @ '': '' @ reason]\<rparr>)
         else g1)"

definition Logger_shutdown :: "Logger \<Rightarrow> Logger" where
  "Logger_shutdown g = (case lg_file g of Some _ \<Rightarrow> g\<lparr>lg_file := None\<rparr> | None \<Rightarrow> g)"

section \<open>Formatting, filtering, writing\<close>

definition formatTimestamp :: "nat \<Rightarrow> int \<times> int \<times> int \<times> int \<Rightarrow> string" where
  "formatTimestamp len wall =
     (case wall of (h, m, s, ns) \<Rightarrow>
        let hms = snprintf 10 (zero_pad 2 h @ '':'' @ zero_pad 2 m @ '':'' @ zero_pad 2 s);
            ms = ns div 1000000
        in snprintf len (hms @ ''.'' @ zero_pad 3 ms))"

fun shouldLog :: "LogLevel \<Rightarrow> ThreadState \<Rightarrow> bool" where
  "shouldLog VERBOSE st = True"
| "shouldLog STANDARD st = (st = WAITING \<or> st = ACTIVE \<or> st = BLOCKED \<or> st = DONE)"
| "shouldLog SUMMARY st = False"

definition writeLine :: "string \<Rightarrow> Logger \<Rightarrow> Logger" where
  "writeLine line g =
     g\<lparr>lg_stdout := lg_stdout g @ [line], lg_file := map_option (\<lambda>ls. ls @ [line]) (lg_file g)\<rparr>"

definition record_line :: "Logger \<Rightarrow> ThreadInfo \<Rightarrow> ThreadState \<Rightarrow> int \<Rightarrow> string \<Rightarrow> string" where
  "record_line g info st waitMs msg =
     (let tsBuf = formatTimestamp 20 (lg_wall g);
          waitBuf = (if 0 \<le> waitMs then snprintf 32 (to_string waitMs @ ''ms'')
                     else snprintf 32 ''--'')
      in snprintf 512
           (''['' @ tsBuf @ ''] | TID:'' @ zero_pad 3 (ti_tid info)
            @ '' | TYPE:'' @ pad_right 1 (threadTypeName (ti_type info))
            @ '' | ALGO:'' @ pad_right 2 (algoShortName (ti_algo info))
            @ '' | STATE:'' @ pad_right 9 (stateName st)
            @ '' | WAIT:'' @ pad_right 8 waitBuf
            @ '' | MSG:'' @ msg))"

definition log_record :: "ThreadInfo \<Rightarrow> ThreadState \<Rightarrow> int \<Rightarrow> string \<Rightarrow> Logger \<Rightarrow> Logger" where
  "log_record info st waitMs msg g =
     (if \<not> shouldLog (lg_level g) st then g
      else writeLine (record_line g info st waitMs msg) g)"

text \<open>C++ integer division truncates towards zero.\<close>

definition cdiv :: "int \<Rightarrow> int \<Rightarrow> int" where
  "cdiv a b = sgn a * sgn b * (\<bar>a\<bar> div \<bar>b\<bar>)"

definition summary_line :: "Logger \<Rightarrow> ThreadInfo \<Rightarrow> string" where
  "summary_line g info =
     (let tsBuf = formatTimestamp 20 (lg_wall g);
          avgWait = (if 0 < ti_opsCompleted info
                     then cdiv (ti_totalWaitMs info) (ti_opsCompleted info) else 0)
      in snprintf 512
           (''['' @ tsBuf @ ''] | TID:'' @ zero_pad 3 (ti_tid info)
            @ '' | TYPE:'' @ pad_right 1 (threadTypeName (ti_type info))
            @ '' | ALGO:'' @ pad_right 2 (algoShortName (ti_algo info))
            @ '' | SUMMARY | OPS:'' @ to_string (ti_opsCompleted info)
            @ '' | TOTAL_WAIT:'' @ to_string (ti_totalWaitMs info)
            @ ''ms | AVG_WAIT:'' @ to_string avgWait
            @ ''ms | STARVE_EVENTS:'' @ to_string (ti_starveCount info)))"

definition log_summary :: "ThreadInfo \<Rightarrow> Logger \<Rightarrow> Logger" where
  "log_summary info g = writeLine (summary_line g info) g"

definition alert_line :: "Logger \<Rightarrow> ThreadInfo \<Rightarrow> int \<Rightarrow> string" where
  "alert_line g info waitMs =
     snprintf 512
       (''['' @ formatTimestamp 20 (lg_wall g) @ ''] | TID:'' @ zero_pad 3 (ti_tid info)
        @ '' | TYPE:'' @ pad_right 1 (threadTypeName (ti_type info))
        @ '' | ALGO:'' @ pad_right 2 (algoShortName (ti_algo info))
        @ '' | STATE:BLOCKED    | WAIT:'' @ pad_right 8 (to_string waitMs)
        @ ''ms | MSG:STARVATION ALERT - threshold exceeded'')"

definition log_alert :: "ThreadInfo \<Rightarrow> int \<Rightarrow> Logger \<Rightarrow> Logger" where
  "log_alert info waitMs g =
     writeLine (alert_line g info waitMs)
       (g\<lparr>lg_stderr := lg_stderr g @
            [CHR 0x1B # ''[1;31m[STARVE ALERT] TID:'' @ zero_pad 3 (ti_tid info)
             @ '' TYPE:'' @ threadTypeName (ti_type info)
             @ '' WAIT:'' @ to_string waitMs @ ''ms'' @ CHR 0x1B # ''[0m'']\<rparr>)"

definition banner :: string where
  "banner = replicate 54 CHR ''=''"

definition log_header :: "string \<Rightarrow> Logger \<Rightarrow> Logger" where
  "log_header txt g =
     writeLine (snprintf 512
       ([CHR 0x0A] @ banner @ [CHR 0x0A] @ ''  '' @ txt @ [CHR 0x0A] @ banner)) g"

section \<open>Properties\<close>

lemma writeLine_simps [simp]:
  "lg_stdout (writeLine l g) = lg_stdout g @ [l]"
  "lg_level (writeLine l g) = lg_level g"
  "lg_stderr (writeLine l g) = lg_stderr g"
  "lg_wall (writeLine l g) = lg_wall g"
  "lg_file (writeLine l g) = map_option (\<lambda>ls. ls @ [l]) (lg_file g)"
  by (simp_all add: writeLine_def)

lemma shouldLog_antitone: "a \<le> b \<Longrightarrow> shouldLog b st \<Longrightarrow> shouldLog a st"
  by (cases a; cases b) (auto simp: less_eq_LogLevel_def)

text \<open>The lines a call appends to standard output; \<open>[]\<close> when the filter drops it.\<close>

lemma log_record_stdout:
  "lg_stdout (log_record info st w msg g) =
     lg_stdout g @ (if shouldLog (lg_level g) st then [record_line g info st w msg] else [])"
  by (simp add: log_record_def)

lemma log_level_frame [simp]:
  "lg_level (log_record info st w msg g) = lg_level g"
  "lg_level (log_summary info g) = lg_level g"
  "lg_level (log_alert info w g) = lg_level g"
  "lg_level (log_header txt g) = lg_level g"
  by (simp_all add: log_record_def log_summary_def log_alert_def log_header_def)

text \<open>Every line fits its buffer of 512 characters.\<close>

lemma line_lengths:
  "length (record_line g info st w msg) \<le> 511"
  "length (summary_line g info) \<le> 511"
  "length (alert_line g info w) \<le> 511"
  using length_snprintf [of 512]
  by (auto simp: record_line_def summary_line_def alert_line_def Let_def)

datatype log_call =
    CallRecord ThreadInfo ThreadState int string
  | CallSummary ThreadInfo
  | CallAlert ThreadInfo int
  | CallHeader string

fun do_log_call :: "log_call \<Rightarrow> Logger \<Rightarrow> Logger" where
  "do_log_call (CallRecord info st w msg) g = log_record info st w msg g"
| "do_log_call (CallSummary info) g = log_summary info g"
| "do_log_call (CallAlert info w) g = log_alert info w g"
| "do_log_call (CallHeader txt) g = log_header txt g"

definition log_calls :: "log_call list \<Rightarrow> Logger \<Rightarrow> Logger" where
  "log_calls cs g = fold do_log_call cs g"

lemma log_call_appends:
  obtains ls where "lg_stdout (do_log_call c g) = lg_stdout g @ ls"
    and "lg_file (do_log_call c g) = map_option (\<lambda>fs. fs @ ls) (lg_file g)"
    and "lg_level (do_log_call c g) = lg_level g"
proof -
  have "\<exists>ls. lg_stdout (do_log_call c g) = lg_stdout g @ ls
          \<and> lg_file (do_log_call c g) = map_option (\<lambda>fs. fs @ ls) (lg_file g)
          \<and> lg_level (do_log_call c g) = lg_level g"
  proof (cases c)
    case (CallRecord info st w msg)
    then show ?thesis
      by (cases "shouldLog (lg_level g) st")
         (auto simp: log_record_def option.map_ident intro: exI [of _ "[]"])
  qed (auto simp: log_summary_def log_alert_def log_header_def)
  then show thesis using that by blast
qed

lemma log_calls_file:
  "\<exists>ls. lg_stdout (log_calls cs g) = lg_stdout g @ ls
      \<and> lg_file (log_calls cs g) = map_option (\<lambda>fs. fs @ ls) (lg_file g)"
proof (induction cs arbitrary: g)
  case Nil
  then show ?case by (auto simp: log_calls_def option.map_ident intro: exI [of _ "[]"])
next
  case (Cons c cs)
  obtain ls where c: "lg_stdout (do_log_call c g) = lg_stdout g @ ls"
      "lg_file (do_log_call c g) = map_option (\<lambda>fs. fs @ ls) (lg_file g)"
    by (rule log_call_appends [of c g])
  from Cons.IH [of "do_log_call c g"] obtain ls' where
    "lg_stdout (log_calls cs (do_log_call c g)) = lg_stdout (do_log_call c g) @ ls'"
    "lg_file (log_calls cs (do_log_call c g)) = map_option (\<lambda>fs. fs @ ls') (lg_file (do_log_call c g))"
    by blast
  with c show ?case
    by (intro exI [of _ "ls @ ls'"]) (simp add: log_calls_def option.map_comp o_def)
qed

section \<open>What the logger promises\<close>

text \<open>
  The log file mirrors the console: after \<open>init\<close> opened a file, whatever records, summaries,
  alerts and headers are written, the file holds exactly the lines that went to standard output
  since, in order; \<open>shutdown\<close> closes it.
\<close>

lemma log_file_mirrors_console:
  assumes "filepath \<noteq> ''''"
  shows "\<exists>ls. lg_stdout (log_calls cs (Logger_init True reason level filepath g)) = lg_stdout g @ ls
            \<and> lg_file (log_calls cs (Logger_init True reason level filepath g)) = Some ls
            \<and> lg_file (Logger_shutdown (log_calls cs (Logger_init True reason level filepath g))) = None"
proof -
  let ?g = "Logger_init True reason level filepath g"
  have g: "lg_file ?g = Some []" "lg_stdout ?g = lg_stdout g"
    using assms by (simp_all add: Logger_init_def Let_def)
  obtain ls where "lg_stdout (log_calls cs ?g) = lg_stdout ?g @ ls"
    "lg_file (log_calls cs ?g) = map_option (\<lambda>fs. fs @ ls) (lg_file ?g)"
    using log_calls_file by blast
  with g show ?thesis by (simp add: Logger_shutdown_def)
qed

lemma log_file_mirrors_console_witness:
  "\<exists>ls. lg_file (log_calls [CallHeader ''run'', CallSummary default_ThreadInfo]
          (Logger_init True '''' SUMMARY ''out.log'' default_Logger)) = Some ls"
  using log_file_mirrors_console [of "''out.log''" "[CallHeader ''run'', CallSummary default_ThreadInfo]"]
  by blast

text \<open>
  Verbosity: a state record is written, on one line of at most 511 characters, exactly when the
  level passes the filter; \<open>VERBOSE\<close> writes every state, \<open>SUMMARY\<close> none, and a record written at a level
  is written at every more verbose one.
\<close>

lemma record_filter:
  "lg_stdout (log_record info st waitMs msg g)
     = lg_stdout g @ (if shouldLog (lg_level g) st then [record_line g info st waitMs msg] else [])
   \<and> length (record_line g info st waitMs msg) \<le> 511
   \<and> (lg_level g = VERBOSE \<longrightarrow> shouldLog (lg_level g) st)
   \<and> (lg_level g = SUMMARY \<longrightarrow> \<not> shouldLog (lg_level g) st)
   \<and> (\<forall>finer \<le> lg_level g. shouldLog (lg_level g) st \<longrightarrow> shouldLog finer st)"
  using log_record_stdout line_lengths(1) shouldLog_antitone by auto

lemma record_filter_witness:
  "lg_stdout (log_record default_ThreadInfo INIT 0 ''x'' (default_Logger\<lparr>lg_level := STANDARD\<rparr>)) = []
   \<and> shouldLog VERBOSE WAITING"
  using record_filter [of default_ThreadInfo INIT 0 "''x''" "default_Logger\<lparr>lg_level := STANDARD\<rparr>"]
    record_filter [of default_ThreadInfo WAITING 0 "''x''" "default_Logger\<lparr>lg_level := STANDARD\<rparr>"]
  by (simp add: default_Logger_def less_eq_LogLevel_def)

text \<open>
  \<open>SUMMARY\<close> mode does not silence everything but summaries: alerts and headers are written at every
  level, unfiltered, to the console, the open file and, for alerts, standard error.
\<close>

lemma alerts_and_headers_unfiltered:
  "lg_stdout (log_alert info waitMs g) = lg_stdout g @ [alert_line g info waitMs]
   \<and> length (lg_stderr (log_alert info waitMs g)) = length (lg_stderr g) + 1
   \<and> length (lg_stdout (log_header txt g)) = length (lg_stdout g) + 1"
  by (simp add: log_alert_def log_header_def)

end
