(* ===== verification/Log_Threads.thy ===== *)
theory Log_Threads
  imports Logging
begin

text \<open>
  The logger called from several threads, at the grain of its actions: a call formats its line, with the
  clock it reads then, before it takes \<open>writeMutex_\<close>, and under the mutex it writes to standard error (alerts),
  to the console and, in two steps, to the file.  Every such run is equivalent to one in which each call
  is a single step, which is how the rest of the development treats it.
\<close>

section \<open>A call in two halves\<close>

type_synonym wall_clock = "int \<times> int \<times> int \<times> int"

text \<open>What a call formats before it takes the mutex, for standard error and as its line; \<open>None\<close> when filtered.\<close>

fun format_call :: "LogLevel \<Rightarrow> wall_clock \<Rightarrow> log_call \<Rightarrow> (string list \<times> string) option" where
  "format_call lv w (CallRecord info st waitMs msg) =
     (if shouldLog lv st
      then Some ([], record_line (default_Logger\<lparr>lg_wall := w\<rparr>) info st waitMs msg) else None)"
| "format_call lv w (CallSummary info) = Some ([], summary_line (default_Logger\<lparr>lg_wall := w\<rparr>) info)"
| "format_call lv w (CallAlert info waitMs) =
     Some ([CHR 0x1B # ''[1;31m[STARVE ALERT] TID:'' @ zero_pad 3 (ti_tid info)
            @ '' TYPE:'' @ threadTypeName (ti_type info)
            @ '' WAIT:'' @ to_string waitMs @ ''ms'' @ CHR 0x1B # ''[0m''],
           alert_line (default_Logger\<lparr>lg_wall := w\<rparr>) info waitMs)"
| "format_call lv w (CallHeader txt) =
     Some ([], snprintf 512 ([CHR 0x0A] @ banner @ [CHR 0x0A] @ ''  '' @ txt @ [CHR 0x0A] @ banner))"

lemma line_wall_only:
  "record_line (g\<lparr>lg_wall := w\<rparr>) info st waitMs msg = record_line (default_Logger\<lparr>lg_wall := w\<rparr>) info st waitMs msg"
  "summary_line (g\<lparr>lg_wall := w\<rparr>) info = summary_line (default_Logger\<lparr>lg_wall := w\<rparr>) info"
  "alert_line (g\<lparr>lg_wall := w\<rparr>) info waitMs = alert_line (default_Logger\<lparr>lg_wall := w\<rparr>) info waitMs"
  by (simp_all add: record_line_def summary_line_def alert_line_def)

text \<open>A whole call, in one step, at the time \<open>w\<close>.\<close>

definition call_at :: "wall_clock \<Rightarrow> log_call \<Rightarrow> Logger \<Rightarrow> Logger" where
  "call_at w c g = do_log_call c (g\<lparr>lg_wall := w\<rparr>)"

lemma call_at_format:
  "call_at w c g = (case format_call (lg_level g) w c of
       None \<Rightarrow> g\<lparr>lg_wall := w\<rparr>
     | Some (errs, l) \<Rightarrow> writeLine l (g\<lparr>lg_wall := w, lg_stderr := lg_stderr g @ errs\<rparr>))"
  by (cases c) (simp_all add: call_at_def log_record_def log_summary_def log_alert_def log_header_def
      line_wall_only [where g = g] writeLine_def)

section \<open>The threads\<close>

text \<open>Where a thread stands in a call; \<open>fputs\<close> and \<open>fputc\<close> are two actions.\<close>

datatype log_point =
    L_idle | L_lock "string list" string | L_stderr "string list" string | L_puts string | L_fputs string
  | L_newline | L_unlock

record log_threads =
  lt_level :: LogLevel
  lt_mutex :: "tid option"
  lt_console :: string
  lt_file :: "string option"
  lt_errors :: "string list"
  lt_point :: "tid \<Rightarrow> log_point"
  lt_calls :: "tid \<Rightarrow> log_call list"

definition log_goto :: "tid \<Rightarrow> log_point \<Rightarrow> log_threads \<Rightarrow> log_threads" where
  "log_goto t p s = s\<lparr>lt_point := (lt_point s)(t := p)\<rparr>"

definition file_put :: "string \<Rightarrow> log_threads \<Rightarrow> log_threads" where
  "file_put txt s = s\<lparr>lt_file := map_option (\<lambda>f. f @ txt) (lt_file s)\<rparr>"

text \<open>The next action of thread \<open>t\<close>, which is at point \<open>p\<close>; \<open>w\<close> is what the clock shows.\<close>

fun log_act :: "wall_clock \<Rightarrow> tid \<Rightarrow> log_point \<Rightarrow> log_threads \<Rightarrow> log_threads option" where
  "log_act w t L_idle s =
     (case lt_calls s t of
        [] \<Rightarrow> None
      | c # cs \<Rightarrow> Some (log_goto t (case format_call (lt_level s) w c of None \<Rightarrow> L_idle | Some (errs, l) \<Rightarrow> L_lock errs l)
                       (s\<lparr>lt_calls := (lt_calls s)(t := cs)\<rparr>)))"
| "log_act w t (L_lock errs l) s =
     (if lt_mutex s = None then Some (log_goto t (L_stderr errs l) (s\<lparr>lt_mutex := Some t\<rparr>)) else None)"
| "log_act w t (L_stderr errs l) s = Some (log_goto t (L_puts l) (s\<lparr>lt_errors := lt_errors s @ errs\<rparr>))"
| "log_act w t (L_puts l) s =
     Some (log_goto t (if lt_file s = None then L_unlock else L_fputs l)
            (s\<lparr>lt_console := lt_console s @ l @ [CHR 0x0A]\<rparr>))"
| "log_act w t (L_fputs l) s = Some (log_goto t L_newline (file_put l s))"
| "log_act w t L_newline s = Some (log_goto t L_unlock (file_put [CHR 0x0A] s))"
| "log_act w t L_unlock s = Some (log_goto t L_idle (s\<lparr>lt_mutex := None\<rparr>))"

inductive log_step :: "log_threads \<Rightarrow> log_threads \<Rightarrow> bool" where
  log_step: "log_act w t (lt_point s t) s = Some s' \<Longrightarrow> log_step s s'"

definition text_of :: "string list \<Rightarrow> string" where
  "text_of ls = concat (map (\<lambda>l. l @ [CHR 0x0A]) ls)"

text \<open>The threads' calls, to be made one after the other on the logger \<open>g\<close>.\<close>

definition log_threads_start :: "Logger \<Rightarrow> (tid \<Rightarrow> log_call list) \<Rightarrow> log_threads" where
  "log_threads_start g calls =
     \<lparr>lt_level = lg_level g, lt_mutex = None, lt_console = text_of (lg_stdout g),
      lt_file = map_option text_of (lg_file g), lt_errors = lg_stderr g, lt_point = (\<lambda>_. L_idle), lt_calls = calls\<rparr>"

lemma text_of_simps [simp]: "text_of [] = ''''" "text_of (ls @ [l]) = text_of ls @ l @ [CHR 0x0A]"
  by (simp_all add: text_of_def)

lemma log_goto_simps [simp]:
  "lt_level (log_goto t p s) = lt_level s" "lt_mutex (log_goto t p s) = lt_mutex s"
  "lt_console (log_goto t p s) = lt_console s" "lt_file (log_goto t p s) = lt_file s"
  "lt_errors (log_goto t p s) = lt_errors s" "lt_calls (log_goto t p s) = lt_calls s"
  "lt_point (log_goto t p s) = (lt_point s)(t := p)"
  by (simp_all add: log_goto_def)

lemma file_put_simps [simp]:
  "lt_level (file_put x s) = lt_level s" "lt_mutex (file_put x s) = lt_mutex s"
  "lt_console (file_put x s) = lt_console s" "lt_file (file_put x s) = map_option (\<lambda>f. f @ x) (lt_file s)"
  "lt_errors (file_put x s) = lt_errors s" "lt_calls (file_put x s) = lt_calls s"
  "lt_point (file_put x s) = lt_point s"
  by (simp_all add: file_put_def)

section \<open>The history of calls\<close>

text \<open>
  A call takes effect when it has the mutex and has written to standard error.  \<open>h\<close> lists the calls that
  have, with the thread and the clock reading each was formatted with; filtered calls have an effect nowhere
  and enter when they are begun.
\<close>

type_synonym history = "(tid \<times> wall_clock \<times> log_call) list"

definition replay :: "history \<Rightarrow> Logger \<Rightarrow> Logger" where
  "replay h g = fold (\<lambda>(t, w, c). call_at w c) h g"

definition calls_of :: "tid \<Rightarrow> history \<Rightarrow> log_call list" where
  "calls_of t h = map (\<lambda>(u, w, c). c) (filter (\<lambda>(u, w, c). u = t) h)"

lemma replay_snoc [simp]: "replay (h @ [(t, w, c)]) g = call_at w c (replay h g)"
  by (simp add: replay_def)

lemma calls_of_snoc [simp]: "calls_of t (h @ [(u, w, c)]) = calls_of t h @ (if u = t then [c] else [])"
  by (simp add: calls_of_def)

lemma call_at_level [simp]: "lg_level (call_at w c g) = lg_level g"
  by (simp add: call_at_format split: option.split)

lemma replay_level [simp]: "lg_level (replay h g) = lg_level g"
proof (induction h rule: rev_induct)
  case (snoc x h)
  then show ?case by (cases x) simp
qed (simp add: replay_def)

text \<open>What the thread that holds the mutex has still to write, to the console and to the file.\<close>

fun console_due :: "log_point \<Rightarrow> string" where
  "console_due (L_puts l) = l @ [CHR 0x0A]"
| "console_due _ = ''''"

fun file_due :: "log_point \<Rightarrow> string" where
  "file_due (L_puts l) = l @ [CHR 0x0A]"
| "file_due (L_fputs l) = l @ [CHR 0x0A]"
| "file_due L_newline = [CHR 0x0A]"
| "file_due _ = ''''"

fun holds_mutex :: "log_point \<Rightarrow> bool" where
  "holds_mutex L_idle = False"
| "holds_mutex (L_lock errs l) = False"
| "holds_mutex _ = True"

text \<open>The call a thread has formatted but not yet written anything of.\<close>

fun formatted :: "LogLevel \<Rightarrow> log_point \<Rightarrow> (wall_clock \<times> log_call) option \<Rightarrow> bool" where
  "formatted lv (L_lock errs l) c = (\<exists>w k. c = Some (w, k) \<and> format_call lv w k = Some (errs, l))"
| "formatted lv (L_stderr errs l) c = (\<exists>w k. c = Some (w, k) \<and> format_call lv w k = Some (errs, l))"
| "formatted lv _ c = (c = None)"

definition holder_at :: "log_threads \<Rightarrow> log_point" where
  "holder_at s = (case lt_mutex s of None \<Rightarrow> L_idle | Some t \<Rightarrow> lt_point s t)"

definition log_inv ::
    "Logger \<Rightarrow> (tid \<Rightarrow> log_call list) \<Rightarrow> history \<Rightarrow> (tid \<Rightarrow> (wall_clock \<times> log_call) option) \<Rightarrow> log_threads \<Rightarrow> bool" where
  "log_inv g calls h pend s \<longleftrightarrow>
     lt_level s = lg_level g
   \<and> (\<forall>t. lt_mutex s = Some t \<longleftrightarrow> holds_mutex (lt_point s t))
   \<and> (\<forall>t. formatted (lt_level s) (lt_point s t) (pend t))
   \<and> (\<forall>t. calls_of t h @ map snd (case pend t of None \<Rightarrow> [] | Some c \<Rightarrow> [c]) @ lt_calls s t = calls t)
   \<and> lt_errors s = lg_stderr (replay h g)
   \<and> text_of (lg_stdout (replay h g)) = lt_console s @ console_due (holder_at s)
   \<and> map_option text_of (lg_file (replay h g)) = map_option (\<lambda>f. f @ file_due (holder_at s)) (lt_file s)"

lemma holder_at_simps:
  "lt_mutex s = None \<Longrightarrow> holder_at s = L_idle" "lt_mutex s = Some t \<Longrightarrow> holder_at s = lt_point s t"
  by (simp_all add: holder_at_def)

lemma holder_at_same:
  "lt_mutex s' = lt_mutex s \<Longrightarrow> lt_mutex s \<noteq> Some t \<Longrightarrow> lt_point s' = (lt_point s)(t := q) \<Longrightarrow> holder_at s' = holder_at s"
  by (auto simp: holder_at_def split: option.split)

lemma log_inv_start: "log_inv g calls [] (\<lambda>_. None) (log_threads_start g calls)"
  by (simp add: log_inv_def log_threads_start_def holder_at_def calls_of_def replay_def option.map_ident)

text \<open>Only the acting thread's entries change.\<close>

lemma log_inv_step:
  assumes inv: "log_inv g calls h pend s" and step: "log_act w t (lt_point s t) s = Some s'"
  shows "\<exists>h' pend'. log_inv g calls h' pend' s'"
proof -
  have lv: "lt_level s = lg_level g" and mtx: "\<And>t. lt_mutex s = Some t \<longleftrightarrow> holds_mutex (lt_point s t)"
    and form: "\<And>t. formatted (lt_level s) (lt_point s t) (pend t)"
    and order: "\<And>t. calls_of t h @ map snd (case pend t of None \<Rightarrow> [] | Some c \<Rightarrow> [c]) @ lt_calls s t = calls t"
    and errs: "lt_errors s = lg_stderr (replay h g)"
    using inv unfolding log_inv_def by blast+
  have out: "text_of (lg_stdout (replay h g)) = lt_console s @ console_due (holder_at s)"
    and disk: "map_option text_of (lg_file (replay h g)) = map_option (\<lambda>f. f @ file_due (holder_at s)) (lt_file s)"
    using inv unfolding log_inv_def by blast+
  have busy: "lt_mutex s = Some t" if "holds_mutex (lt_point s t)" using mtx that by simp
  have only: "u = t" if "holds_mutex (lt_point s t)" "holds_mutex (lt_point s u)" for u
    using mtx [of t] mtx [of u] that by simp
  note parts = lv mtx form order errs out disk
  show ?thesis
  proof (cases "lt_point s t")
    case L_idle
    then obtain c cs where c: "lt_calls s t = c # cs"
      and s': "s' = log_goto t (case format_call (lt_level s) w c of None \<Rightarrow> L_idle | Some (errs, l) \<Rightarrow> L_lock errs l)
        (s\<lparr>lt_calls := (lt_calls s)(t := cs)\<rparr>)"
      using step by (auto split: list.splits)
    have idle: "pend t = None" using form [of t] L_idle by simp
    have free: "lt_mutex s \<noteq> Some t" using mtx [of t] L_idle by simp
    have fields: "lt_level s' = lt_level s" "lt_mutex s' = lt_mutex s" "lt_console s' = lt_console s"
      "lt_file s' = lt_file s" "lt_errors s' = lt_errors s" "lt_calls s' = (lt_calls s)(t := cs)"
      "lt_point s' = (lt_point s)(t := case format_call (lt_level s) w c of None \<Rightarrow> L_idle | Some (errs, l) \<Rightarrow> L_lock errs l)"
      by (simp_all add: s')
    have here: "calls_of t h @ c # cs = calls t" using order [of t] idle c by simp
    have same: "holder_at s' = holder_at s" by (rule holder_at_same [OF _ free]) (simp_all add: s')
    show ?thesis
    proof (cases "format_call (lt_level s) w c")
      case None
      have "log_inv g calls (h @ [(t, w, c)]) pend s'"
        using lv mtx form order errs out disk idle free None L_idle here
        by (auto simp: log_inv_def same fields call_at_format)
      then show ?thesis by blast
    next
      case (Some x)
      obtain es l where x: "x = (es, l)" by (cases x)
      have "log_inv g calls h (pend(t := Some (w, c))) s'"
        using lv mtx form order errs out disk idle free Some L_idle here
        by (auto simp: log_inv_def same fields x)
      then show ?thesis by blast
    qed
  next
    case (L_lock es l)
    have "log_inv g calls h pend s'"
      using parts step L_lock busy form [of t]
      by (auto simp: log_inv_def holder_at_def split: if_splits)
    then show ?thesis by blast
  next
    case (L_stderr es l)
    then obtain w0 c where c: "pend t = Some (w0, c)" "format_call (lt_level s) w0 c = Some (es, l)"
      using form [of t] by auto
    have held: "lt_mutex s = Some t" using busy L_stderr by simp
    have fields: "lt_level s' = lt_level s" "lt_mutex s' = lt_mutex s" "lt_console s' = lt_console s"
      "lt_file s' = lt_file s" "lt_errors s' = lt_errors s @ es" "lt_calls s' = lt_calls s"
      "lt_point s' = (lt_point s)(t := L_puts l)"
      using step L_stderr by auto
    have holder: "holder_at s = L_stderr es l" "holder_at s' = L_puts l"
      using held L_stderr by (simp_all add: holder_at_def fields)
    have written: "replay (h @ [(t, w0, c)]) g
        = writeLine l ((replay h g)\<lparr>lg_wall := w0, lg_stderr := lg_stderr (replay h g) @ es\<rparr>)"
      using c(2) by (simp add: call_at_format lv)
    have here: "calls_of t h @ c # lt_calls s t = calls t" using order [of t] c(1) by simp
    have "lt_file s = map_option text_of (lg_file (replay h g))" using disk by (simp add: holder option.map_ident)
    moreover have "calls_of u (h @ [(t, w0, c)]) @ map snd (case (pend(t := None)) u of None \<Rightarrow> [] | Some c \<Rightarrow> [c]) @ lt_calls s u
        = calls u" for u using here order [of u] by (cases "u = t") simp_all
    ultimately have "log_inv g calls (h @ [(t, w0, c)]) (pend(t := None)) s'"
      using lv mtx form errs out held
      unfolding log_inv_def fields written holder by (auto simp: holder option.map_comp comp_def)
    then show ?thesis by blast
  next
    case (L_puts l)
    have "log_inv g calls h pend s'"
      using parts step L_puts busy form [of t]
      by (auto simp: log_inv_def holder_at_def split: if_splits)
    then show ?thesis by blast
  next
    case (L_fputs l)
    have "log_inv g calls h pend s'"
      using parts step L_fputs busy form [of t]
      by (auto simp: log_inv_def holder_at_def option.map_comp comp_def split: if_splits)
    then show ?thesis by blast
  next
    case L_newline
    have "log_inv g calls h pend s'"
      using parts step L_newline busy form [of t]
      by (auto simp: log_inv_def holder_at_def option.map_comp comp_def split: if_splits)
    then show ?thesis by blast
  next
    case L_unlock
    have "log_inv g calls h pend s'"
      using parts step L_unlock busy form [of t] only
      by (auto simp: log_inv_def holder_at_def split: if_splits)
    then show ?thesis by blast
  qed
qed

lemma log_inv_reachable:
  assumes "reachable (log_threads_start g calls) log_step s"
  shows "\<exists>h pend. log_inv g calls h pend s"
  using assms
proof (induction rule: reachable.induct)
  case reachable_init
  show ?case using log_inv_start by blast
next
  case (reachable_step s s')
  from reachable_step(2) show ?case using reachable_step(3) log_inv_step by cases blast
qed

section \<open>Properties\<close>

text \<open>
  C16: The calls of any number of threads linearise.  However the actions of their calls interleave, whenever
  nobody holds the mutex there is one order of the calls that have written, each with the clock reading it
  was formatted with, such that making them one after the other, as single steps, leaves the same console,
  the same file and the same standard error; and the order keeps that of the calls of each thread.
\<close>

theorem log_calls_linearise:
  assumes "reachable (log_threads_start g calls) log_step s" and "lt_mutex s = None"
  shows "\<exists>h. lt_console s = text_of (lg_stdout (replay h g))
       \<and> lt_file s = map_option text_of (lg_file (replay h g)) \<and> lt_errors s = lg_stderr (replay h g)
       \<and> (\<forall>t. lt_point s t = L_idle \<longrightarrow> calls t = calls_of t h @ lt_calls s t)
       \<and> (\<forall>t. \<exists>rest. calls t = calls_of t h @ rest)"
proof -
  obtain h pend where inv: "log_inv g calls h pend s" using log_inv_reachable [OF assms(1)] by blast
  have "holder_at s = L_idle" using assms(2) by (simp add: holder_at_simps)
  then have "lt_console s = text_of (lg_stdout (replay h g))"
    "lt_file s = map_option text_of (lg_file (replay h g))" "lt_errors s = lg_stderr (replay h g)"
    using inv by (simp_all add: log_inv_def option.map_ident)
  moreover have "calls t = calls_of t h @ lt_calls s t" if "lt_point s t = L_idle" for t
  proof -
    have "pend t = None" using inv that unfolding log_inv_def by (metis formatted.simps(3))
    then show ?thesis using inv unfolding log_inv_def by (metis append_Nil list.simps(8) option.simps(4))
  qed
  moreover have "\<exists>rest. calls t = calls_of t h @ rest" for t
    using inv unfolding log_inv_def by metis
  ultimately show ?thesis by blast
qed

section \<open>A run in which the log is not in the order of its time stamps\<close>

text \<open>A thread that has formatted its line writes it, if nobody disturbs it.\<close>

lemma write_out:
  assumes r: "reachable s0 log_step s" and p: "lt_point s t = L_lock [] l"
    and m: "lt_mutex s = None" and f: "lt_file s = None"
  shows "\<exists>s'. reachable s0 log_step s' \<and> lt_mutex s' = None \<and> lt_file s' = None \<and> lt_calls s' = lt_calls s
     \<and> lt_level s' = lt_level s \<and> lt_console s' = lt_console s @ l @ [CHR 0x0A] \<and> lt_point s' = (lt_point s)(t := L_idle)"
proof -
  let ?s1 = "log_goto t (L_stderr [] l) (s\<lparr>lt_mutex := Some t\<rparr>)"
  let ?s2 = "log_goto t (L_puts l) (?s1\<lparr>lt_errors := lt_errors ?s1 @ []\<rparr>)"
  let ?s3 = "log_goto t L_unlock (?s2\<lparr>lt_console := lt_console ?s2 @ l @ [CHR 0x0A]\<rparr>)"
  let ?s4 = "log_goto t L_idle (?s3\<lparr>lt_mutex := None\<rparr>)"
  have "log_act w t (lt_point s t) s = Some ?s1" "log_act w t (lt_point ?s1 t) ?s1 = Some ?s2"
    "log_act w t (lt_point ?s2 t) ?s2 = Some ?s3" "log_act w t (lt_point ?s3 t) ?s3 = Some ?s4" for w
    using p m f by simp_all
  then have "log_step s ?s1" "log_step ?s1 ?s2" "log_step ?s2 ?s3" "log_step ?s3 ?s4" by (blast intro: log_step.intros)+
  then have "reachable s0 log_step ?s4" using r by (blast intro: reachable_step)
  then show ?thesis using f by (intro exI [of _ ?s4]) simp
qed

lemma format_next:
  assumes "reachable s0 log_step s" and "lt_point s t = L_idle" and "lt_calls s t = [CallSummary i]"
  shows "\<exists>s'. reachable s0 log_step s' \<and> lt_mutex s' = lt_mutex s \<and> lt_file s' = lt_file s
     \<and> lt_calls s' = (lt_calls s)(t := []) \<and> lt_console s' = lt_console s
     \<and> lt_point s' = (lt_point s)(t := L_lock [] (summary_line (default_Logger\<lparr>lg_wall := w\<rparr>) i))"
proof -
  let ?s' = "log_goto t (L_lock [] (summary_line (default_Logger\<lparr>lg_wall := w\<rparr>) i)) (s\<lparr>lt_calls := (lt_calls s)(t := [])\<rparr>)"
  have "log_act w t (lt_point s t) s = Some ?s'" using assms(2,3) by simp
  then have "reachable s0 log_step ?s'" using assms(1) by (blast intro: reachable_step log_step.intros)
  then show ?thesis by (intro exI [of _ ?s']) simp
qed

text \<open>Thread 0 reads the clock, then thread 1 does, but thread 1 takes the mutex first.\<close>

lemma log_lines_out_of_order:
  assumes "L = (\<lambda>w. summary_line (default_Logger\<lparr>lg_wall := w\<rparr>) i)"
  shows "\<exists>s. reachable (log_threads_start default_Logger (\<lambda>_. [CallSummary i])) log_step s \<and> lt_mutex s = None
     \<and> lt_console s = text_of [L late, L early]"
proof -
  let ?s = "log_threads_start default_Logger (\<lambda>_. [CallSummary i])"
  have start: "lt_mutex ?s = None" "lt_file ?s = None" "lt_console ?s = []" "lt_point ?s = (\<lambda>_. L_idle)"
    "lt_calls ?s = (\<lambda>_. [CallSummary i])"
    by (simp_all add: log_threads_start_def default_Logger_def)
  obtain s1 where s1: "reachable ?s log_step s1" "lt_mutex s1 = None" "lt_file s1 = None" "lt_console s1 = []"
      "lt_calls s1 = (\<lambda>_. [CallSummary i])(0 := [])" "lt_point s1 = (\<lambda>_. L_idle)(0 := L_lock [] (L early))"
    using format_next [OF reachable_init, of ?s 0 i early] by (auto simp: start assms)
  obtain s2 where s2: "reachable ?s log_step s2" "lt_mutex s2 = None" "lt_file s2 = None" "lt_console s2 = []"
      "lt_point s2 = (lt_point s1)(1 := L_lock [] (L late))"
    using format_next [OF s1(1), of 1 i late] s1 by (auto simp: assms)
  obtain s3 where s3: "reachable ?s log_step s3" "lt_mutex s3 = None" "lt_file s3 = None"
      "lt_console s3 = L late @ [CHR 0x0A]" "lt_point s3 = (lt_point s2)(1 := L_idle)"
    using write_out [OF s2(1), of 1 "L late"] s2 by auto
  have "lt_point s3 0 = L_lock [] (L early)" by (simp add: s3 s2 s1)
  from write_out [OF s3(1) this s3(2,3)] show ?thesis by (auto simp: s3(4) text_of_def)
qed

lemma log_calls_linearise_witness:
  "\<exists>s h. reachable (log_threads_start default_Logger (\<lambda>_. [CallSummary default_ThreadInfo])) log_step s
     \<and> lt_console s \<noteq> [] \<and> lt_console s = text_of (lg_stdout (replay h default_Logger))"
proof -
  obtain s where s: "reachable (log_threads_start default_Logger (\<lambda>_. [CallSummary default_ThreadInfo])) log_step s"
    "lt_mutex s = None" and out: "\<exists>l ls. lt_console s = text_of (l # ls)"
    using log_lines_out_of_order [OF refl] by metis
  have "lt_console s \<noteq> []" using out by (auto simp: text_of_def)
  with s log_calls_linearise [OF s] show ?thesis by blast
qed

end
