(* ===== verification/Lock_Base.thy ===== *)
theory Lock_Base
  imports Logging Semaphores
begin

text \<open>
  \<open>include/rw_lock_base.hpp\<close> and \<open>src/rw_lock_base.cpp\<close>: the state transitions that every lock
  performs on the calling thread's \<open>ThreadInfo\<close>, the abstract class \<open>RWLockBase\<close> as a record of
  methods (its virtual table), and the most general client of a lock: any number of threads that
  call its methods in the order \<open>lock; unlock\<close>, interleaved one atomic action at a time.

  The contract of a readers-writers lock is the locale \<open>rw_lock\<close>; a lock whose calls always finish
  satisfies the stronger \<open>live_rw_lock\<close>.  The three algorithms are interpretations.
\<close>

section \<open>The calling thread's context\<close>

text \<open>
  What a lock method reads and writes besides the lock: the caller's \<open>ThreadInfo\<close>, the logger, and
  two successive readings of the steady clock (\<open>transitionActive\<close> reads it twice).
\<close>

record ctx =
  c_info :: ThreadInfo
  c_logger :: Logger
  c_now :: TimePoint
  c_later :: TimePoint

definition transitionWaiting :: "string \<Rightarrow> ctx \<Rightarrow> ctx" where
  "transitionWaiting msg c =
     (let info = enterWaiting (c_now c) (c_info c);
          m = (if msg = '''' then
                 (if ti_type info = READER then ''Reader requesting lock''
                  else ''Writer requesting lock'')
               else msg)
      in c\<lparr>c_info := info, c_logger := log_record info WAITING 0 m (c_logger c)\<rparr>)"

definition transitionActive :: "string \<Rightarrow> ctx \<Rightarrow> ctx" where
  "transitionActive msg c =
     (let waited = currentWaitMs (c_now c) (c_info c);
          info = enterActive (c_later c) (c_info c);
          m = (if msg = '''' then
                 (if ti_type info = READER then ''Reader acquired lock''
                  else ''Writer acquired exclusive lock'')
               else msg)
      in c\<lparr>c_info := info, c_logger := log_record info ACTIVE waited m (c_logger c)\<rparr>)"

definition transitionReleasing :: "string \<Rightarrow> ctx \<Rightarrow> ctx" where
  "transitionReleasing msg c =
     (let info = (c_info c)\<lparr>ti_state := RELEASING\<rparr>;
          m = (if msg = '''' then
                 (if ti_type info = READER then ''Reader released lock''
                  else ''Writer released exclusive lock'')
               else msg)
      in c\<lparr>c_info := info, c_logger := log_record info RELEASING (- 1) m (c_logger c)\<rparr>)"

section \<open>The interface RWLockBase\<close>

text \<open>
  A method is run one atomic action at a time: given the program point of the calling thread and
  the environment's choice for this action, it blocks, throws, or yields the new lock and context
  and the next program point, \<open>None\<close> when the method returns.

  The choice matters to condition variables only: \<open>Pick u\<close> names the thread that
  \<open>pthread_cond_signal\<close> wakes, \<open>Spurious\<close> lets a sleeping waiter return without a signal.
\<close>

datatype wakeup = Pick tid | Spurious

type_synonym ('l, 'p) rw_method =
  "'p \<Rightarrow> tid \<Rightarrow> wakeup \<Rightarrow> 'l \<times> ctx \<Rightarrow> (errno, 'l \<times> ctx \<times> 'p option) outcome"

record ('l, 'p) RWLockBase =
  readLock :: "('l, 'p) rw_method"
  readUnlock :: "('l, 'p) rw_method"
  writeLock :: "('l, 'p) rw_method"
  writeUnlock :: "('l, 'p) rw_method"
  lock_algo :: AlgoType
  readerCount :: "'l \<Rightarrow> int"
  writerActive :: "'l \<Rightarrow> bool"
  readLock_entry :: 'p
  readUnlock_entry :: 'p
  writeLock_entry :: 'p
  writeUnlock_entry :: 'p

text \<open>Where a thread stands with respect to a lock.\<close>

datatype 'p phase =
    Outside
  | InReadLock 'p
  | Reading
  | InReadUnlock 'p
  | InWriteLock 'p
  | Writing
  | InWriteUnlock 'p

record ('l, 'p) lsys =
  shared :: 'l
  phase :: "tid \<Rightarrow> 'p phase"
  infos :: "tid \<Rightarrow> ThreadInfo"
  logger :: Logger
  now :: TimePoint
  later :: TimePoint

definition resume :: "('p \<Rightarrow> 'p phase) \<Rightarrow> 'p phase \<Rightarrow> 'p option \<Rightarrow> 'p phase" where
  "resume inside after r = (case r of Some p \<Rightarrow> inside p | None \<Rightarrow> after)"

lemma resume_simps [simp]:
  "resume inside after (Some p) = inside p" "resume inside after None = after"
  by (simp_all add: resume_def)

definition run_method ::
    "('l, 'p) rw_method \<Rightarrow> ('p \<Rightarrow> 'p phase) \<Rightarrow> 'p phase \<Rightarrow> 'p \<Rightarrow> tid \<Rightarrow> wakeup
       \<Rightarrow> ('l, 'p) lsys \<Rightarrow> (errno, ('l, 'p) lsys) outcome" where
  "run_method m inside after p t w s =
     bind_outcome
       (m p t w (shared s, \<lparr>c_info = infos s t, c_logger = logger s, c_now = now s, c_later = later s\<rparr>))
       (\<lambda>(l, c, r). Done (s\<lparr>shared := l, phase := (phase s)(t := resume inside after r),
                           infos := (infos s)(t := c_info c), logger := c_logger c\<rparr>))"

text \<open>The next atomic action of a thread that is inside a call.\<close>

definition advance ::
    "('l, 'p) RWLockBase \<Rightarrow> tid \<Rightarrow> wakeup \<Rightarrow> ('l, 'p) lsys \<Rightarrow> (errno, ('l, 'p) lsys) outcome" where
  "advance L t w s =
     (case phase s t of
        InReadLock p \<Rightarrow> run_method (readLock L) InReadLock Reading p t w s
      | InReadUnlock p \<Rightarrow> run_method (readUnlock L) InReadUnlock Outside p t w s
      | InWriteLock p \<Rightarrow> run_method (writeLock L) InWriteLock Writing p t w s
      | InWriteUnlock p \<Rightarrow> run_method (writeUnlock L) InWriteUnlock Outside p t w s
      | _ \<Rightarrow> Blocked)"

definition in_call :: "'p phase \<Rightarrow> bool" where
  "in_call ph \<longleftrightarrow> ph \<noteq> Outside \<and> ph \<noteq> Reading \<and> ph \<noteq> Writing"

lemma in_call_simps [simp]:
  "\<not> in_call Outside" "\<not> in_call Reading" "\<not> in_call Writing"
  "in_call (InReadLock p)" "in_call (InReadUnlock p)" "in_call (InWriteLock p)"
  "in_call (InWriteUnlock p)"
  by (simp_all add: in_call_def)

section \<open>The most general client\<close>

text \<open>
  Threads start calls when the discipline \<open>lock; unlock\<close> allows, calls advance in any interleaving,
  and everything that is not the lock (thread records, logger, clocks) may change at any time.
\<close>

inductive lock_step :: "('l, 'p) RWLockBase \<Rightarrow> ('l, 'p) lsys \<Rightarrow> ('l, 'p) lsys \<Rightarrow> bool" for L where
  call_readLock: "phase s t = Outside \<Longrightarrow>
     lock_step L s (s\<lparr>phase := (phase s)(t := InReadLock (readLock_entry L))\<rparr>)"
| call_readUnlock: "phase s t = Reading \<Longrightarrow>
     lock_step L s (s\<lparr>phase := (phase s)(t := InReadUnlock (readUnlock_entry L))\<rparr>)"
| call_writeLock: "phase s t = Outside \<Longrightarrow>
     lock_step L s (s\<lparr>phase := (phase s)(t := InWriteLock (writeLock_entry L))\<rparr>)"
| call_writeUnlock: "phase s t = Writing \<Longrightarrow>
     lock_step L s (s\<lparr>phase := (phase s)(t := InWriteUnlock (writeUnlock_entry L))\<rparr>)"
| run: "advance L t w s = Done s' \<Longrightarrow> lock_step L s s'"
| other: "lock_step L s (s\<lparr>infos := i, logger := g, now := n, later := n'\<rparr>)"

inductive_cases lock_stepE: "lock_step L s s'"

definition lock_start :: "'l \<Rightarrow> ('l, 'p) lsys" where
  "lock_start l =
     \<lparr>shared = l, phase = (\<lambda>_. Outside), infos = (\<lambda>_. default_ThreadInfo), logger = default_Logger,
      now = 0, later = 0\<rparr>"

lemma advance_cases:
  assumes "advance L t w s = Done s'"
  obtains (readLock) p l c r where "phase s t = InReadLock p"
      "readLock L p t w (shared s, \<lparr>c_info = infos s t, c_logger = logger s, c_now = now s, c_later = later s\<rparr>)
         = Done (l, c, r)"
      "s' = s\<lparr>shared := l, phase := (phase s)(t := resume InReadLock Reading r),
              infos := (infos s)(t := c_info c), logger := c_logger c\<rparr>"
  | (readUnlock) p l c r where "phase s t = InReadUnlock p"
      "readUnlock L p t w (shared s, \<lparr>c_info = infos s t, c_logger = logger s, c_now = now s, c_later = later s\<rparr>)
         = Done (l, c, r)"
      "s' = s\<lparr>shared := l, phase := (phase s)(t := resume InReadUnlock Outside r),
              infos := (infos s)(t := c_info c), logger := c_logger c\<rparr>"
  | (writeLock) p l c r where "phase s t = InWriteLock p"
      "writeLock L p t w (shared s, \<lparr>c_info = infos s t, c_logger = logger s, c_now = now s, c_later = later s\<rparr>)
         = Done (l, c, r)"
      "s' = s\<lparr>shared := l, phase := (phase s)(t := resume InWriteLock Writing r),
              infos := (infos s)(t := c_info c), logger := c_logger c\<rparr>"
  | (writeUnlock) p l c r where "phase s t = InWriteUnlock p"
      "writeUnlock L p t w (shared s, \<lparr>c_info = infos s t, c_logger = logger s, c_now = now s, c_later = later s\<rparr>)
         = Done (l, c, r)"
      "s' = s\<lparr>shared := l, phase := (phase s)(t := resume InWriteUnlock Outside r),
              infos := (infos s)(t := c_info c), logger := c_logger c\<rparr>"
  using assms by (cases "phase s t") (auto simp: advance_def run_method_def outcome_simps)

section \<open>Schedules\<close>

text \<open>
  A finite interleaving as a list: which thread starts which call, which thread takes its next
  action and with which choice.  Running a schedule is executable; the states it passes through are
  reachable.
\<close>

datatype sched_event =
    CallReadLock tid | CallReadUnlock tid | CallWriteLock tid | CallWriteUnlock tid
  | Act tid | ActWake tid tid | ActSpurious tid

fun sched_do ::
    "('l, 'p) RWLockBase \<Rightarrow> sched_event \<Rightarrow> ('l, 'p) lsys \<Rightarrow> (errno, ('l, 'p) lsys) outcome" where
  "sched_do L (CallReadLock t) s =
     (case phase s t of
        Outside \<Rightarrow> Done (s\<lparr>phase := (phase s)(t := InReadLock (readLock_entry L))\<rparr>)
      | _ \<Rightarrow> Blocked)"
| "sched_do L (CallReadUnlock t) s =
     (case phase s t of
        Reading \<Rightarrow> Done (s\<lparr>phase := (phase s)(t := InReadUnlock (readUnlock_entry L))\<rparr>)
      | _ \<Rightarrow> Blocked)"
| "sched_do L (CallWriteLock t) s =
     (case phase s t of
        Outside \<Rightarrow> Done (s\<lparr>phase := (phase s)(t := InWriteLock (writeLock_entry L))\<rparr>)
      | _ \<Rightarrow> Blocked)"
| "sched_do L (CallWriteUnlock t) s =
     (case phase s t of
        Writing \<Rightarrow> Done (s\<lparr>phase := (phase s)(t := InWriteUnlock (writeUnlock_entry L))\<rparr>)
      | _ \<Rightarrow> Blocked)"
| "sched_do L (Act t) s = advance L t (Pick t) s"
| "sched_do L (ActWake t u) s = advance L t (Pick u) s"
| "sched_do L (ActSpurious t) s = advance L t Spurious s"

fun sched_run ::
    "('l, 'p) RWLockBase \<Rightarrow> sched_event list \<Rightarrow> ('l, 'p) lsys \<Rightarrow> (errno, ('l, 'p) lsys) outcome" where
  "sched_run L [] s = Done s"
| "sched_run L (e # es) s = bind_outcome (sched_do L e s) (sched_run L es)"

lemma sched_do_step: "sched_do L e s = Done s' \<Longrightarrow> lock_step L s s'"
  by (cases e) (auto split: phase.splits intro: lock_step.intros)

lemma sched_run_reachable:
  "sched_run L es s = Done s' \<Longrightarrow> reachable s0 (lock_step L) s \<Longrightarrow> reachable s0 (lock_step L) s'"
  by (induction es arbitrary: s)
     (auto simp: outcome_simps dest: sched_do_step intro: reachable_step)

lemma sched_run_append:
  "sched_run L (es @ fs) s = bind_outcome (sched_run L es s) (sched_run L fs)"
proof (induction es arbitrary: s)
  case (Cons e es)
  then show ?case by (cases "sched_do L e s") simp_all
qed simp

lemma sched_advance:
  "advance L t w s = Done s' \<Longrightarrow> \<exists>e. sched_do L e s = Done s' \<and> (\<exists>u. e = ActWake t u \<or> e = ActSpurious t)"
  by (cases w) (metis sched_do.simps(6,7))+

text \<open>Does an event start a new request for the lock?\<close>

definition starts_request :: "sched_event \<Rightarrow> bool" where
  "starts_request e \<longleftrightarrow> (case e of CallReadLock t \<Rightarrow> True | CallWriteLock t \<Rightarrow> True | _ \<Rightarrow> False)"

definition spurious_event :: "sched_event \<Rightarrow> bool" where
  "spurious_event e \<longleftrightarrow> (case e of ActSpurious t \<Rightarrow> True | _ \<Rightarrow> False)"

text \<open>
  A deadlock: some thread is inside a call, no thread holds the lock, and no call can act, unless a
  sleeper is woken without a signal.
\<close>

definition deadlocked :: "('l, 'p) RWLockBase \<Rightarrow> ('l, 'p) lsys \<Rightarrow> bool" where
  "deadlocked L s \<longleftrightarrow>
     (\<exists>t. in_call (phase s t)) \<and> (\<forall>t. phase s t \<noteq> Reading \<and> phase s t \<noteq> Writing)
   \<and> (\<forall>e s'. \<not> starts_request e \<longrightarrow> \<not> spurious_event e \<longrightarrow> sched_do L e s \<noteq> Done s')"

text \<open>
  How many actions a thread has left until it is outside again, given a rank on program points:
  its current call, the call of the matching unlock, and the return from it.
\<close>

definition lock_work :: "('l, 'p) RWLockBase \<Rightarrow> ('p \<Rightarrow> nat) \<Rightarrow> 'p phase \<Rightarrow> nat" where
  "lock_work L rank x =
     (case x of
        Outside \<Rightarrow> 0
      | InReadLock p \<Rightarrow> 3 + rank (readUnlock_entry L) + rank p
      | Reading \<Rightarrow> 2 + rank (readUnlock_entry L)
      | InReadUnlock p \<Rightarrow> 1 + rank p
      | InWriteLock p \<Rightarrow> 3 + rank (writeUnlock_entry L) + rank p
      | Writing \<Rightarrow> 2 + rank (writeUnlock_entry L)
      | InWriteUnlock p \<Rightarrow> 1 + rank p)"

lemmas lock_work_simps = lock_work_def [of _ _ Outside] lock_work_def [of _ _ Reading]
  lock_work_def [of _ _ Writing] lock_work_def [of _ _ "InReadLock p" for p]
  lock_work_def [of _ _ "InReadUnlock p" for p] lock_work_def [of _ _ "InWriteLock p" for p]
  lock_work_def [of _ _ "InWriteUnlock p" for p]

lemma card_phases_le:
  assumes "fin_support Outside ph" and "\<And>x. P x \<Longrightarrow> Q x" and "\<not> Q Outside"
  shows "card {t. P (ph t)} \<le> tcount Q ph" and "tcount P ph \<le> card {t. Q (ph t)}"
  using tcount_mono [of Outside ph Q P] assms by (simp_all add: tcount_def)

section \<open>The contract\<close>

locale rw_lock =
  fixes L :: "('l, 'p) RWLockBase" and l0 :: 'l
    and inv :: "'l \<Rightarrow> (tid \<Rightarrow> 'p phase) \<Rightarrow> bool"
  assumes inv_fin: "inv l ph \<Longrightarrow> fin_support Outside ph"
    and inv_init: "inv l0 (\<lambda>_. Outside)"
    and inv_call_readLock: "inv l ph \<Longrightarrow> ph t = Outside \<Longrightarrow>
          inv l (ph(t := InReadLock (readLock_entry L)))"
    and inv_call_readUnlock: "inv l ph \<Longrightarrow> ph t = Reading \<Longrightarrow>
          inv l (ph(t := InReadUnlock (readUnlock_entry L)))"
    and inv_call_writeLock: "inv l ph \<Longrightarrow> ph t = Outside \<Longrightarrow>
          inv l (ph(t := InWriteLock (writeLock_entry L)))"
    and inv_call_writeUnlock: "inv l ph \<Longrightarrow> ph t = Writing \<Longrightarrow>
          inv l (ph(t := InWriteUnlock (writeUnlock_entry L)))"
    and inv_readLock: "inv l ph \<Longrightarrow> ph t = InReadLock p \<Longrightarrow>
          readLock L p t w (l, c) = Done (l', c', r) \<Longrightarrow> inv l' (ph(t := resume InReadLock Reading r))"
    and inv_readUnlock: "inv l ph \<Longrightarrow> ph t = InReadUnlock p \<Longrightarrow>
          readUnlock L p t w (l, c) = Done (l', c', r) \<Longrightarrow> inv l' (ph(t := resume InReadUnlock Outside r))"
    and inv_writeLock: "inv l ph \<Longrightarrow> ph t = InWriteLock p \<Longrightarrow>
          writeLock L p t w (l, c) = Done (l', c', r) \<Longrightarrow> inv l' (ph(t := resume InWriteLock Writing r))"
    and inv_writeUnlock: "inv l ph \<Longrightarrow> ph t = InWriteUnlock p \<Longrightarrow>
          writeUnlock L p t w (l, c) = Done (l', c', r) \<Longrightarrow> inv l' (ph(t := resume InWriteUnlock Outside r))"
    and no_throw: "inv l ph \<Longrightarrow>
          (ph t = InReadLock p \<longrightarrow> readLock L p t w (l, c) \<noteq> Threw e)
        \<and> (ph t = InReadUnlock p \<longrightarrow> readUnlock L p t w (l, c) \<noteq> Threw e)
        \<and> (ph t = InWriteLock p \<longrightarrow> writeLock L p t w (l, c) \<noteq> Threw e)
        \<and> (ph t = InWriteUnlock p \<longrightarrow> writeUnlock L p t w (l, c) \<noteq> Threw e)"
    and inv_excl: "inv l ph \<Longrightarrow> ph t = Writing \<Longrightarrow> u \<noteq> t \<Longrightarrow> ph u \<noteq> Writing \<and> ph u \<noteq> Reading"
begin

lemma inv_advance:
  "advance L t w s = Done s' \<Longrightarrow> inv (shared s) (phase s) \<Longrightarrow> inv (shared s') (phase s')"
  by (erule advance_cases)
     (auto intro: inv_readLock inv_readUnlock inv_writeLock inv_writeUnlock)

lemma inv_lock_step:
  "lock_step L s s' \<Longrightarrow> inv (shared s) (phase s) \<Longrightarrow> inv (shared s') (phase s')"
  by (erule lock_stepE)
     (auto intro: inv_advance inv_call_readLock inv_call_readUnlock inv_call_writeLock
        inv_call_writeUnlock)

lemma inv_lock_start: "inv (shared (lock_start l0)) (phase (lock_start l0))"
  by (simp add: lock_start_def inv_init)

sublocale inductive_invariant "lock_start l0" "lock_step L" "\<lambda>s. inv (shared s) (phase s)"
  by unfold_locales (auto intro: inv_lock_start inv_lock_step)

lemma mutual_exclusion:
  "reachable (lock_start l0) (lock_step L) s \<Longrightarrow> phase s t = Writing \<Longrightarrow> u \<noteq> t \<Longrightarrow>
     phase s u \<noteq> Writing \<and> phase s u \<noteq> Reading"
  by (rule inv_excl [OF inv_reachable])

lemma advance_no_throw: "inv (shared s) (phase s) \<Longrightarrow> advance L t w s \<noteq> Threw e"
  using no_throw [of "shared s" "phase s" t]
  by (cases "phase s t") (auto simp: advance_def run_method_def outcome_simps)

lemma never_throws:
  "reachable (lock_start l0) (lock_step L) s \<Longrightarrow> advance L t w s \<noteq> Threw e"
  by (rule advance_no_throw [OF inv_reachable])

end

text \<open>
  A lock on which every call finishes: each method makes progress with every action (a rank on its
  program points decreases), and as long as no thread holds the lock some call can act.
\<close>

locale live_rw_lock = rw_lock +
  fixes rank :: "'p \<Rightarrow> nat"
  assumes rank_readLock: "readLock L p t w (l, c) = Done (l', c', Some p') \<Longrightarrow> rank p' < rank p"
    and rank_readUnlock: "readUnlock L p t w (l, c) = Done (l', c', Some p') \<Longrightarrow> rank p' < rank p"
    and rank_writeLock: "writeLock L p t w (l, c) = Done (l', c', Some p') \<Longrightarrow> rank p' < rank p"
    and rank_writeUnlock: "writeUnlock L p t w (l, c) = Done (l', c', Some p') \<Longrightarrow> rank p' < rank p"
    and not_stuck: "inv (shared s) (phase s) \<Longrightarrow> in_call (phase s t) \<Longrightarrow>
          \<forall>u. phase s u \<noteq> Reading \<and> phase s u \<noteq> Writing \<Longrightarrow>
          \<exists>u w s'. advance L u w s = Done s'"
begin

lemma deadlock_free:
  "reachable (lock_start l0) (lock_step L) s \<Longrightarrow> in_call (phase s t) \<Longrightarrow>
     \<forall>u. phase s u \<noteq> Reading \<and> phase s u \<noteq> Writing \<Longrightarrow> \<exists>u w s'. advance L u w s = Done s'"
  by (rule not_stuck [OF inv_reachable])

abbreviation work :: "('l, 'p) lsys \<Rightarrow> nat" where
  "work s \<equiv> tsum (lock_work L rank) Outside (phase s)"

lemma work_moves:
  assumes "inv (shared s) (phase s)" and "phase s' = (phase s)(t := x)"
    and "lock_work L rank x < lock_work L rank (phase s t)"
  shows "work s' < work s"
  using tsum_upd [OF inv_fin [OF assms(1)], of "lock_work L rank" t x] assms(2,3)
  by (simp add: lock_work_simps)

lemma work_advance:
  assumes inv: "inv (shared s) (phase s)" and step: "advance L t w s = Done s'"
  shows "work s' < work s"
  using step
proof (cases rule: advance_cases)
  case (readLock p l c r)
  then show ?thesis using work_moves [OF inv, of s' t "resume InReadLock Reading r"]
    by (cases r) (auto simp: lock_work_simps dest: rank_readLock)
next
  case (readUnlock p l c r)
  then show ?thesis using work_moves [OF inv, of s' t "resume InReadUnlock Outside r"]
    by (cases r) (auto simp: lock_work_simps dest: rank_readUnlock)
next
  case (writeLock p l c r)
  then show ?thesis using work_moves [OF inv, of s' t "resume InWriteLock Writing r"]
    by (cases r) (auto simp: lock_work_simps dest: rank_writeLock)
next
  case (writeUnlock p l c r)
  then show ?thesis using work_moves [OF inv, of s' t "resume InWriteUnlock Outside r"]
    by (cases r) (auto simp: lock_work_simps dest: rank_writeUnlock)
qed

lemma work_sched_do:
  assumes inv: "inv (shared s) (phase s)" and "sched_do L e s = Done s'" and "\<not> starts_request e"
  shows "work s' < work s"
proof (cases e)
  case (CallReadUnlock t)
  with assms show ?thesis
    by (intro work_moves [OF inv, where t = t]) (auto simp: lock_work_simps split: phase.splits)
next
  case (CallWriteUnlock t)
  with assms show ?thesis
    by (intro work_moves [OF inv, where t = t]) (auto simp: lock_work_simps split: phase.splits)
qed (use assms in \<open>auto simp: starts_request_def intro: work_advance\<close>)

lemma work_sched_run:
  "sched_run L es s = Done s' \<Longrightarrow> inv (shared s) (phase s) \<Longrightarrow> \<forall>e \<in> set es. \<not> starts_request e \<Longrightarrow>
     length es + work s' \<le> work s"
proof (induction es arbitrary: s)
  case (Cons e es)
  then obtain s1 where s1: "sched_do L e s = Done s1" "sched_run L es s1 = Done s'"
    by (auto simp: outcome_simps)
  have "inv (shared s1) (phase s1)" using inv_lock_step [OF sched_do_step] s1(1) Cons.prems(2) .
  then have "length es + work s' \<le> work s1" using Cons.IH [OF s1(2)] Cons.prems(3) by simp
  moreover have "work s1 < work s" using work_sched_do [OF Cons.prems(2) s1(1)] Cons.prems(3) by simp
  ultimately show ?case by simp
qed simp

lemma can_go_on:
  assumes inv: "inv (shared s) (phase s)" and "phase s t \<noteq> Outside"
  shows "\<exists>e s'. \<not> starts_request e \<and> sched_do L e s = Done s'"
proof (cases "\<exists>u. phase s u = Reading \<or> phase s u = Writing")
  case True
  then obtain u where "phase s u = Reading \<or> phase s u = Writing" ..
  then show ?thesis
    by (intro exI [of _ "if phase s u = Reading then CallReadUnlock u else CallWriteUnlock u"])
       (auto simp: starts_request_def)
next
  case False
  then have "in_call (phase s t)" using assms(2) by (auto simp: in_call_def)
  then obtain u w s' where "advance L u w s = Done s'" using not_stuck [OF inv] False by blast
  then obtain e v where "sched_do L e s = Done s'" "e = ActWake u v \<or> e = ActSpurious u"
    using sched_advance by blast
  moreover from this have "\<not> starts_request e" by (auto simp: starts_request_def)
  ultimately show ?thesis by blast
qed

text \<open>
  Once no new request starts, every schedule is finite, with a bound known in advance, and it can
  only stop when every thread is outside: whatever the interleaving, every call returns.
\<close>

lemma calls_finish:
  assumes "reachable (lock_start l0) (lock_step L) s"
    and run: "sched_run L es s = Done s'" and old: "\<forall>e \<in> set es. \<not> starts_request e"
  shows "length es \<le> work s
       \<and> ((\<exists>t. phase s' t \<noteq> Outside) \<longrightarrow> (\<exists>e s''. \<not> starts_request e \<and> sched_do L e s' = Done s''))"
proof -
  have "inv (shared s') (phase s')"
    by (rule inv_reachable [OF sched_run_reachable [OF run assms(1)]])
  with can_go_on work_sched_run [OF run inv_reachable [OF assms(1)] old] show ?thesis
    by fastforce
qed

lemma can_drain:
  "inv (shared s) (phase s) \<Longrightarrow>
     \<exists>es s'. sched_run L es s = Done s' \<and> (\<forall>e \<in> set es. \<not> starts_request e) \<and> (\<forall>t. phase s' t = Outside)"
proof (induction "work s" arbitrary: s rule: less_induct)
  case less
  show ?case
  proof (cases "\<exists>t. phase s t \<noteq> Outside")
    case False
    then show ?thesis by (intro exI [of _ "[]"]) auto
  next
    case True
    then obtain e s1 where e: "\<not> starts_request e" "sched_do L e s = Done s1"
      using can_go_on [OF less.prems] by blast
    have "inv (shared s1) (phase s1)" by (rule inv_lock_step [OF sched_do_step [OF e(2)] less.prems])
    with less.hyps [OF work_sched_do [OF less.prems e(2,1)]]
    obtain es s' where "sched_run L es s1 = Done s'" "\<forall>e \<in> set es. \<not> starts_request e"
      "\<forall>t. phase s' t = Outside" by blast
    with e show ?thesis by (intro exI [of _ "e # es"] exI [of _ s']) auto
  qed
qed

lemma reachable_drain:
  "reachable (lock_start l0) (lock_step L) s \<Longrightarrow>
     \<exists>es s'. sched_run L es s = Done s' \<and> (\<forall>e \<in> set es. \<not> starts_request e) \<and> (\<forall>t. phase s' t = Outside)"
  by (rule can_drain [OF inv_reachable])

end

section \<open>What the transitions record\<close>

text \<open>
  C40: A complete acquisition, \<open>transitionWaiting\<close> at one clock reading and \<open>transitionActive\<close> at a later
  one, leaves the thread \<open>ACTIVE\<close> with the wait added to \<open>totalWaitMs\<close>.  If the watchdog marked the
  thread \<open>BLOCKED\<close> in between, the record written for the acquisition says 0 ms, because
  \<open>currentWaitMs\<close> is 0 in any state but \<open>WAITING\<close>; otherwise it says the wait up to that reading.
\<close>

theorem acquisition_record:
  "let i1 = c_info (transitionWaiting m1 c);
       i2 = (if starved then i1\<lparr>ti_state := BLOCKED, ti_starveCount := ti_starveCount i1 + 1\<rparr>
             else i1);
       c2 = transitionActive m2 \<lparr>c_info = i2, c_logger = g, c_now = now1, c_later = now2\<rparr>
   in ti_state (c_info c2) = ACTIVE
      \<and> ti_totalWaitMs (c_info c2)
          = ti_totalWaitMs (c_info c) + duration_cast_ms (now2 - c_now c)
      \<and> (m2 \<noteq> '''' \<longrightarrow> lg_stdout (c_logger c2)
          = lg_stdout g @
            (if shouldLog (lg_level g) ACTIVE
             then [record_line g (c_info c2) ACTIVE
                     (if starved then 0 else duration_cast_ms (now1 - c_now c)) m2]
             else []))"
  by (cases starved)
     (simp_all add: transitionWaiting_def transitionActive_def enterWaiting_def
        enterActive_def currentWaitMs_def Let_def log_record_stdout)

lemma acquisition_record_witness:
  "let c = \<lparr>c_info = default_ThreadInfo, c_logger = default_Logger, c_now = 0, c_later = 0\<rparr>;
       i = (c_info (transitionWaiting ''w'' c))\<lparr>ti_state := BLOCKED, ti_starveCount := 1\<rparr>;
       c2 = \<lparr>c_info = i, c_logger = default_Logger, c_now = 700000000, c_later = 700000000\<rparr>
   in ti_totalWaitMs (c_info (transitionActive ''a'' c2)) = 700
      \<and> lg_stdout (c_logger (transitionActive ''a'' c2))
          = [record_line default_Logger (c_info (transitionActive ''a'' c2)) ACTIVE 0 ''a'']"
  using acquisition_record [where ?m1.0 = "''w''" and ?m2.0 = "''a''" and starved = True
      and c = "\<lparr>c_info = default_ThreadInfo, c_logger = default_Logger, c_now = 0, c_later = 0\<rparr>"
      and g = default_Logger and ?now1.0 = 700000000 and ?now2.0 = 700000000]
  by (simp add: Let_def default_ThreadInfo_def default_Logger_def transitionWaiting_def
        enterWaiting_def duration_cast_nonneg)

end
