(* ===== verification/Reader_Priority.thy ===== *)
theory Reader_Priority
  imports Lock_Base
begin

text \<open>
  \<open>include/reader_priority.hpp\<close> and \<open>src/reader_priority.cpp\<close>: Courtois' first readers-writers
  algorithm on two binary semaphores.  A program point of a method names the statement the thread
  executes next; local variables live in the point (\<open>rc\<close> is the local copy of \<open>++readCount_\<close>).
\<close>

record rp_lock =
  rp_readCount :: int
  rp_writerActive :: bool
  rp_mutex :: Semaphore
  rp_wrt :: Semaphore

datatype rp_point =
    RL_waiting | RL_mutex_wait | RL_incr | RL_wrt int | RL_mutex_post int | RL_active int
  | RU_mutex_wait | RU_decr | RU_wrt int | RU_mutex_post int | RU_releasing int
  | WL_waiting | WL_wrt_wait | WL_store | WL_active
  | WU_store | WU_wrt_post | WU_releasing

definition ReaderPriorityLock :: rp_lock where
  "ReaderPriorityLock =
     \<lparr>rp_readCount = 0, rp_writerActive = False,
      rp_mutex = binary_semaphore, rp_wrt = binary_semaphore\<rparr>"

section \<open>The methods\<close>

fun rp_readLock :: "(rp_lock, rp_point) rw_method" where
  "rp_readLock RL_waiting t w (l, c) =
     Done (l, transitionWaiting ''Reader requesting lock'' c, Some RL_mutex_wait)"
| "rp_readLock RL_mutex_wait t w (l, c) =
     bind_outcome (Semaphore_wait [] (rp_mutex l)) (\<lambda>m. Done (l\<lparr>rp_mutex := m\<rparr>, c, Some RL_incr))"
| "rp_readLock RL_incr t w (l, c) =
     (let rc = rp_readCount l + 1 in Done (l\<lparr>rp_readCount := rc\<rparr>, c, Some (RL_wrt rc)))"
| "rp_readLock (RL_wrt rc) t w (l, c) =
     (if rc = 1
      then bind_outcome (Semaphore_wait [] (rp_wrt l))
             (\<lambda>m. Done (l\<lparr>rp_wrt := m\<rparr>, c, Some (RL_mutex_post rc)))
      else Done (l, c, Some (RL_mutex_post rc)))"
| "rp_readLock (RL_mutex_post rc) t w (l, c) =
     bind_outcome (Semaphore_post (rp_mutex l))
       (\<lambda>m. Done (l\<lparr>rp_mutex := m\<rparr>, c, Some (RL_active rc)))"
| "rp_readLock (RL_active rc) t w (l, c) =
     Done (l, transitionActive (''Reader acquired lock, readers='' @ to_string rc) c, None)"
| "rp_readLock _ t w (l, c) = Blocked"

fun rp_readUnlock :: "(rp_lock, rp_point) rw_method" where
  "rp_readUnlock RU_mutex_wait t w (l, c) =
     bind_outcome (Semaphore_wait [] (rp_mutex l)) (\<lambda>m. Done (l\<lparr>rp_mutex := m\<rparr>, c, Some RU_decr))"
| "rp_readUnlock RU_decr t w (l, c) =
     (let rc = rp_readCount l - 1 in Done (l\<lparr>rp_readCount := rc\<rparr>, c, Some (RU_wrt rc)))"
| "rp_readUnlock (RU_wrt rc) t w (l, c) =
     (if rc = 0
      then bind_outcome (Semaphore_post (rp_wrt l))
             (\<lambda>m. Done (l\<lparr>rp_wrt := m\<rparr>, c, Some (RU_mutex_post rc)))
      else Done (l, c, Some (RU_mutex_post rc)))"
| "rp_readUnlock (RU_mutex_post rc) t w (l, c) =
     bind_outcome (Semaphore_post (rp_mutex l))
       (\<lambda>m. Done (l\<lparr>rp_mutex := m\<rparr>, c, Some (RU_releasing rc)))"
| "rp_readUnlock (RU_releasing rc) t w (l, c) =
     Done (l, transitionReleasing (''Reader released lock, readers='' @ to_string rc) c, None)"
| "rp_readUnlock _ t w (l, c) = Blocked"

fun rp_writeLock :: "(rp_lock, rp_point) rw_method" where
  "rp_writeLock WL_waiting t w (l, c) =
     Done (l, transitionWaiting ''Writer requesting lock'' c, Some WL_wrt_wait)"
| "rp_writeLock WL_wrt_wait t w (l, c) =
     bind_outcome (Semaphore_wait [] (rp_wrt l)) (\<lambda>m. Done (l\<lparr>rp_wrt := m\<rparr>, c, Some WL_store))"
| "rp_writeLock WL_store t w (l, c) = Done (l\<lparr>rp_writerActive := True\<rparr>, c, Some WL_active)"
| "rp_writeLock WL_active t w (l, c) =
     Done (l, transitionActive ''Writer acquired exclusive lock'' c, None)"
| "rp_writeLock _ t w (l, c) = Blocked"

fun rp_writeUnlock :: "(rp_lock, rp_point) rw_method" where
  "rp_writeUnlock WU_store t w (l, c) = Done (l\<lparr>rp_writerActive := False\<rparr>, c, Some WU_wrt_post)"
| "rp_writeUnlock WU_wrt_post t w (l, c) =
     bind_outcome (Semaphore_post (rp_wrt l)) (\<lambda>m. Done (l\<lparr>rp_wrt := m\<rparr>, c, Some WU_releasing))"
| "rp_writeUnlock WU_releasing t w (l, c) =
     Done (l, transitionReleasing ''Writer released exclusive lock'' c, None)"
| "rp_writeUnlock _ t w (l, c) = Blocked"

definition rp_class :: "(rp_lock, rp_point) RWLockBase" where
  "rp_class =
     \<lparr>readLock = rp_readLock, readUnlock = rp_readUnlock, writeLock = rp_writeLock,
      writeUnlock = rp_writeUnlock, lock_algo = READER_PRIORITY,
      readerCount = rp_readCount, writerActive = rp_writerActive,
      readLock_entry = RL_waiting, readUnlock_entry = RU_mutex_wait,
      writeLock_entry = WL_waiting, writeUnlock_entry = WU_store\<rparr>"

lemma rp_class_simps [simp]:
  "readLock rp_class = rp_readLock" "readUnlock rp_class = rp_readUnlock"
  "writeLock rp_class = rp_writeLock" "writeUnlock rp_class = rp_writeUnlock"
  "readLock_entry rp_class = RL_waiting" "readUnlock_entry rp_class = RU_mutex_wait"
  "writeLock_entry rp_class = WL_waiting" "writeUnlock_entry rp_class = WU_store"
  "readerCount rp_class = rp_readCount" "writerActive rp_class = rp_writerActive"
  by (simp_all add: rp_class_def)

section \<open>The invariant\<close>

text \<open>Who is between \<open>mutex_.wait()\<close> and \<open>mutex_.post()\<close>; who is in \<open>readCount_\<close>; who owns \<open>wrt_\<close>.\<close>

fun rp_in_mutex :: "rp_point phase \<Rightarrow> bool" where
  "rp_in_mutex (InReadLock RL_incr) = True"
| "rp_in_mutex (InReadLock (RL_wrt rc)) = True"
| "rp_in_mutex (InReadLock (RL_mutex_post rc)) = True"
| "rp_in_mutex (InReadUnlock RU_decr) = True"
| "rp_in_mutex (InReadUnlock (RU_wrt rc)) = True"
| "rp_in_mutex (InReadUnlock (RU_mutex_post rc)) = True"
| "rp_in_mutex _ = False"

fun rp_counted :: "rp_point phase \<Rightarrow> bool" where
  "rp_counted (InReadLock (RL_wrt rc)) = True"
| "rp_counted (InReadLock (RL_mutex_post rc)) = True"
| "rp_counted (InReadLock (RL_active rc)) = True"
| "rp_counted Reading = True"
| "rp_counted (InReadUnlock RU_mutex_wait) = True"
| "rp_counted (InReadUnlock RU_decr) = True"
| "rp_counted _ = False"

fun rp_owner :: "rp_point phase \<Rightarrow> bool" where
  "rp_owner (InWriteLock WL_store) = True"
| "rp_owner (InWriteLock WL_active) = True"
| "rp_owner Writing = True"
| "rp_owner (InWriteUnlock WU_store) = True"
| "rp_owner (InWriteUnlock WU_wrt_post) = True"
| "rp_owner _ = False"

fun rp_flagged :: "rp_point phase \<Rightarrow> bool" where
  "rp_flagged (InWriteLock WL_active) = True"
| "rp_flagged Writing = True"
| "rp_flagged (InWriteUnlock WU_store) = True"
| "rp_flagged _ = False"

text \<open>The first reader before its \<open>wrt_.wait()\<close>; the last reader before its \<open>wrt_.post()\<close>.\<close>

fun rp_first :: "rp_point phase \<Rightarrow> bool" where
  "rp_first (InReadLock (RL_wrt rc)) = (rc = 1)"
| "rp_first _ = False"

fun rp_last :: "rp_point phase \<Rightarrow> bool" where
  "rp_last (InReadUnlock (RU_wrt rc)) = (rc = 0)"
| "rp_last _ = False"

fun rp_local :: "int \<Rightarrow> rp_point phase \<Rightarrow> bool" where
  "rp_local n (InReadLock (RL_wrt rc)) = (rc = n)"
| "rp_local n (InReadUnlock (RU_wrt rc)) = (rc = n)"
| "rp_local n _ = True"

fun rp_placed :: "rp_point phase \<Rightarrow> bool" where
  "rp_placed (InReadLock p) =
     (case p of RL_waiting \<Rightarrow> True | RL_mutex_wait \<Rightarrow> True | RL_incr \<Rightarrow> True | RL_wrt _ \<Rightarrow> True
        | RL_mutex_post _ \<Rightarrow> True | RL_active _ \<Rightarrow> True | _ \<Rightarrow> False)"
| "rp_placed (InReadUnlock p) =
     (case p of RU_mutex_wait \<Rightarrow> True | RU_decr \<Rightarrow> True | RU_wrt _ \<Rightarrow> True | RU_mutex_post _ \<Rightarrow> True
        | RU_releasing _ \<Rightarrow> True | _ \<Rightarrow> False)"
| "rp_placed (InWriteLock p) =
     (case p of WL_waiting \<Rightarrow> True | WL_wrt_wait \<Rightarrow> True | WL_store \<Rightarrow> True | WL_active \<Rightarrow> True
        | _ \<Rightarrow> False)"
| "rp_placed (InWriteUnlock p) =
     (case p of WU_store \<Rightarrow> True | WU_wrt_post \<Rightarrow> True | WU_releasing \<Rightarrow> True | _ \<Rightarrow> False)"
| "rp_placed _ = True"

definition rp_inv :: "rp_lock \<Rightarrow> (tid \<Rightarrow> rp_point phase) \<Rightarrow> bool" where
  "rp_inv l ph \<longleftrightarrow>
     fin_support Outside ph
   \<and> sem_live (rp_mutex l) \<and> sem_live (rp_wrt l)
   \<and> int (sem_count (rp_mutex l)) + int (tcount rp_in_mutex ph) = 1
   \<and> rp_readCount l = int (tcount rp_counted ph)
   \<and> int (sem_count (rp_wrt l)) + int (tcount rp_owner ph)
       + of_bool (0 < rp_readCount l) - int (tcount rp_first ph) + int (tcount rp_last ph) = 1
   \<and> of_bool (rp_writerActive l) = int (tcount rp_flagged ph)
   \<and> (\<forall>t. rp_local (rp_readCount l) (ph t))
   \<and> (\<forall>t. rp_placed (ph t))"

text \<open>One thread moves from \<open>ph t\<close> to \<open>x\<close>: what has to be checked for the invariant to survive.\<close>

lemma rp_inv_move:
  assumes inv: "rp_inv l ph"
    and "sem_live (rp_mutex l')" and "sem_live (rp_wrt l')"
    and "int (sem_count (rp_mutex l')) + of_bool (rp_in_mutex x)
           = int (sem_count (rp_mutex l)) + of_bool (rp_in_mutex (ph t))"
    and "rp_readCount l' - of_bool (rp_counted x) = rp_readCount l - of_bool (rp_counted (ph t))"
    and "int (sem_count (rp_wrt l')) + of_bool (rp_owner x) + of_bool (0 < rp_readCount l')
             - of_bool (rp_first x) + of_bool (rp_last x)
           = int (sem_count (rp_wrt l)) + of_bool (rp_owner (ph t)) + of_bool (0 < rp_readCount l)
             - of_bool (rp_first (ph t)) + of_bool (rp_last (ph t))"
    and "of_bool (rp_writerActive l') - of_bool (rp_flagged x)
           = (of_bool (rp_writerActive l) - of_bool (rp_flagged (ph t)) :: int)"
    and chg: "rp_readCount l' = rp_readCount l \<or> rp_in_mutex (ph t)"
    and "rp_local (rp_readCount l') x" and "rp_placed x"
  shows "rp_inv l' (ph(t := x))"
proof -
  from inv have fin: "fin_support Outside ph" by (simp add: rp_inv_def)
  note upd = tcount_upd [OF fin]
  have local: "rp_local (rp_readCount l') (ph u)" if "u \<noteq> t" for u
  proof (cases "rp_in_mutex (ph u)")
    case True
    have "tcount rp_in_mutex ph \<le> 1" using inv by (simp add: rp_inv_def)
    with True that have "\<not> rp_in_mutex (ph t)"
      using tcount_unique [OF fin, of rp_in_mutex t u] by auto
    with chg inv show ?thesis by (auto simp: rp_inv_def)
  next
    case False
    then show ?thesis by (cases "(rp_readCount l', ph u)" rule: rp_local.cases) auto
  qed
  from inv assms(2-7,9,10) local show ?thesis
    unfolding rp_inv_def by (auto simp: upd)
qed

lemma rp_init: "rp_inv ReaderPriorityLock (\<lambda>_. Outside)"
  by (simp add: rp_inv_def ReaderPriorityLock_def binary_semaphore_def)

lemma rp_counted_pos: "rp_inv l ph \<Longrightarrow> rp_counted (ph t) \<Longrightarrow> 1 \<le> rp_readCount l"
  using tcount_pos [of Outside ph rp_counted t] by (simp add: rp_inv_def)

lemma rp_readCount_nonneg: "rp_inv l ph \<Longrightarrow> 0 \<le> rp_readCount l"
  by (simp add: rp_inv_def)

lemmas rp_step_simps = outcome_simps Semaphore_wait_unfold Semaphore_post_unfold Let_def

lemma rp_inv_facts:
  assumes "rp_inv l ph"
  shows "sem_live (rp_mutex l)" "sem_live (rp_wrt l)" "fin_support Outside ph"
    and "int (sem_count (rp_mutex l)) + int (tcount rp_in_mutex ph) = 1"
    and "int (sem_count (rp_wrt l)) + int (tcount rp_owner ph)
           + of_bool (0 < rp_readCount l) - int (tcount rp_first ph) + int (tcount rp_last ph) = 1"
    and "of_bool (rp_writerActive l) = int (tcount rp_flagged ph)"
    and "rp_readCount l = int (tcount rp_counted ph)"
  using assms unfolding rp_inv_def by blast+

lemma rp_local_at: "rp_inv l ph \<Longrightarrow> rp_local (rp_readCount l) (ph t)"
  unfolding rp_inv_def by blast

lemma rp_placed_at: "rp_inv l ph \<Longrightarrow> rp_placed (ph t)"
  unfolding rp_inv_def by blast

text \<open>The binary semaphores stay binary, so no \<open>post\<close> overflows.\<close>

lemma rp_mutex_le: "rp_inv l ph \<Longrightarrow> sem_count (rp_mutex l) \<le> 1"
  using rp_inv_facts(4) [of l ph] by linarith

lemma rp_first_le:
  assumes inv: "rp_inv l ph"
  shows "int (tcount rp_first ph) \<le> of_bool (0 < rp_readCount l)"
proof (cases "tcount rp_first ph = 0")
  case False
  then have "1 \<le> tcount rp_first ph" by simp
  then obtain t where "rp_first (ph t)" by (rule tcount_obtain)
  then have t: "ph t = InReadLock (RL_wrt 1)"
    by (cases "ph t" rule: rp_first.cases) auto
  have "rp_first x \<Longrightarrow> rp_in_mutex x" for x by (cases x rule: rp_first.cases) auto
  then have "tcount rp_first ph \<le> tcount rp_in_mutex ph"
    by (intro tcount_mono [OF rp_inv_facts(3) [OF inv]]) auto
  then have "int (tcount rp_first ph) \<le> 1" using rp_inv_facts(4) [OF inv] by linarith
  then show ?thesis using rp_local_at [OF inv, of t] t by simp
qed simp

lemma rp_wrt_le: "rp_inv l ph \<Longrightarrow> sem_count (rp_wrt l) \<le> 1"
  using rp_first_le [of l ph] rp_inv_facts(5) [of l ph] by linarith

lemma rp_owner_le: "rp_inv l ph \<Longrightarrow> tcount rp_owner ph \<le> 1"
  using rp_first_le [of l ph] rp_inv_facts(5) [of l ph] by linarith

lemma rp_flag_owner:
  assumes inv: "rp_inv l ph" and t: "rp_owner (ph t)"
  shows "rp_writerActive l \<longleftrightarrow> rp_flagged (ph t)"
proof -
  note fin = rp_inv_facts(3) [OF inv]
  have sub: "rp_flagged x \<Longrightarrow> rp_owner x" for x by (cases x rule: rp_flagged.cases) auto
  have "rp_flagged (ph u) \<Longrightarrow> u = t" for u
    using tcount_unique [OF fin, of rp_owner u t] rp_owner_le [OF inv] sub t by auto
  then have "(\<exists>u. rp_flagged (ph u)) \<longleftrightarrow> rp_flagged (ph t)" by auto
  moreover have "rp_writerActive l \<longleftrightarrow> tcount rp_flagged ph \<noteq> 0"
    using rp_inv_facts(6) [OF inv] by (cases "rp_writerActive l") auto
  ultimately show ?thesis using tcount_eq_0 [OF fin, of rp_flagged] by auto
qed

section \<open>Every action keeps the invariant\<close>

lemma rp_readLock_inv:
  assumes inv: "rp_inv l ph" and ph: "ph t = InReadLock p"
    and step: "rp_readLock p t w (l, c) = Done (l', c', r)"
  shows "rp_inv l' (ph(t := resume InReadLock Reading r))"
  using step rp_inv_facts(1,2) [OF inv] rp_local_at [OF inv, of t] rp_readCount_nonneg [OF inv]
  by (cases p)
     (auto simp: ph rp_step_simps split: if_splits intro!: rp_inv_move [OF inv])

lemma rp_readUnlock_inv:
  assumes inv: "rp_inv l ph" and ph: "ph t = InReadUnlock p"
    and step: "rp_readUnlock p t w (l, c) = Done (l', c', r)"
  shows "rp_inv l' (ph(t := resume InReadUnlock Outside r))"
  using step rp_inv_facts(1,2) [OF inv] rp_local_at [OF inv, of t] rp_counted_pos [OF inv, of t]
  by (cases p)
     (auto simp: ph rp_step_simps split: if_splits intro!: rp_inv_move [OF inv])

lemma rp_writeLock_inv:
  assumes inv: "rp_inv l ph" and ph: "ph t = InWriteLock p"
    and step: "rp_writeLock p t w (l, c) = Done (l', c', r)"
  shows "rp_inv l' (ph(t := resume InWriteLock Writing r))"
  using step rp_inv_facts(1,2) [OF inv] rp_flag_owner [OF inv, of t]
  by (cases p)
     (auto simp: ph rp_step_simps split: if_splits intro!: rp_inv_move [OF inv])

lemma rp_writeUnlock_inv:
  assumes inv: "rp_inv l ph" and ph: "ph t = InWriteUnlock p"
    and step: "rp_writeUnlock p t w (l, c) = Done (l', c', r)"
  shows "rp_inv l' (ph(t := resume InWriteUnlock Outside r))"
  using step rp_inv_facts(1,2) [OF inv] rp_flag_owner [OF inv, of t]
  by (cases p)
     (auto simp: ph rp_step_simps split: if_splits intro!: rp_inv_move [OF inv])

lemma rp_call_inv:
  assumes inv: "rp_inv l ph"
  shows "ph t = Outside \<Longrightarrow> rp_inv l (ph(t := InReadLock RL_waiting))"
    and "ph t = Reading \<Longrightarrow> rp_inv l (ph(t := InReadUnlock RU_mutex_wait))"
    and "ph t = Outside \<Longrightarrow> rp_inv l (ph(t := InWriteLock WL_waiting))"
    and "ph t = Writing \<Longrightarrow> rp_inv l (ph(t := InWriteUnlock WU_store))"
  using rp_inv_facts(1,2) [OF inv] by (auto intro!: rp_inv_move [OF inv])

lemma rp_no_throw:
  assumes inv: "rp_inv l ph"
  shows "rp_readLock p t w (l, c) \<noteq> Threw e" "rp_readUnlock p t w (l, c) \<noteq> Threw e"
    "rp_writeLock p t w (l, c) \<noteq> Threw e" "rp_writeUnlock p t w (l, c) \<noteq> Threw e"
  using rp_inv_facts(1,2) [OF inv] rp_mutex_le [OF inv] rp_wrt_le [OF inv]
  by (cases p; auto simp: rp_step_simps SEM_VALUE_MAX_def)+

lemma rp_excl:
  assumes inv: "rp_inv l ph" and t: "ph t = Writing" and u: "u \<noteq> t"
  shows "ph u \<noteq> Writing \<and> ph u \<noteq> Reading"
proof -
  note fin = rp_inv_facts(3) [OF inv]
  have own: "1 \<le> tcount rp_owner ph"
    using tcount_pos [OF fin, of rp_owner t] t by simp
  have "ph u \<noteq> Writing"
    using tcount_unique [OF fin, of rp_owner t u] rp_owner_le [OF inv] t u by auto
  moreover have "ph u \<noteq> Reading"
  proof
    assume r: "ph u = Reading"
    then have "0 < rp_readCount l" using rp_counted_pos [OF inv, of u] by simp
    then have "1 \<le> tcount rp_first ph"
      using rp_inv_facts(5) [OF inv] own by simp
    then obtain v where "rp_first (ph v)" by (rule tcount_obtain)
    then have v: "ph v = InReadLock (RL_wrt 1)" by (cases "ph v" rule: rp_first.cases) auto
    then have "rp_readCount l = 1" using rp_local_at [OF inv, of v] by simp
    moreover have "2 \<le> tcount rp_counted ph"
      using tcount_two [OF fin, of rp_counted u v] r v by (cases "u = v") auto
    ultimately show False using rp_inv_facts(7) [OF inv] by simp
  qed
  ultimately show ?thesis by simp
qed

section \<open>Progress\<close>

fun rp_rank :: "rp_point \<Rightarrow> nat" where
  "rp_rank RL_waiting = 5" | "rp_rank RL_mutex_wait = 4" | "rp_rank RL_incr = 3"
| "rp_rank (RL_wrt rc) = 2" | "rp_rank (RL_mutex_post rc) = 1" | "rp_rank (RL_active rc) = 0"
| "rp_rank RU_mutex_wait = 4" | "rp_rank RU_decr = 3" | "rp_rank (RU_wrt rc) = 2"
| "rp_rank (RU_mutex_post rc) = 1" | "rp_rank (RU_releasing rc) = 0"
| "rp_rank WL_waiting = 3" | "rp_rank WL_wrt_wait = 2" | "rp_rank WL_store = 1"
| "rp_rank WL_active = 0"
| "rp_rank WU_store = 2" | "rp_rank WU_wrt_post = 1" | "rp_rank WU_releasing = 0"

lemma rp_rank_decreases:
  "rp_readLock p t w (l, c) = Done (l', c', Some p') \<Longrightarrow> rp_rank p' < rp_rank p"
  "rp_readUnlock p t w (l, c) = Done (l', c', Some p') \<Longrightarrow> rp_rank p' < rp_rank p"
  "rp_writeLock p t w (l, c) = Done (l', c', Some p') \<Longrightarrow> rp_rank p' < rp_rank p"
  "rp_writeUnlock p t w (l, c) = Done (l', c', Some p') \<Longrightarrow> rp_rank p' < rp_rank p"
  by (cases p; auto simp: outcome_simps Let_def split: if_splits)+

fun rp_wants_mutex :: "rp_point phase \<Rightarrow> bool" where
  "rp_wants_mutex (InReadLock RL_mutex_wait) = True"
| "rp_wants_mutex (InReadUnlock RU_mutex_wait) = True"
| "rp_wants_mutex _ = False"

fun rp_wants_wrt :: "rp_point phase \<Rightarrow> bool" where
  "rp_wants_wrt (InReadLock (RL_wrt rc)) = (rc = 1)"
| "rp_wants_wrt (InWriteLock WL_wrt_wait) = True"
| "rp_wants_wrt _ = False"

text \<open>An action can block only in \<open>mutex_.wait()\<close> or \<open>wrt_.wait()\<close>.\<close>

lemma rp_can_act:
  assumes inv: "rp_inv (shared s) (phase s)" and "in_call (phase s t)"
    and "rp_wants_mutex (phase s t) \<Longrightarrow> 0 < sem_count (rp_mutex (shared s))"
    and "rp_wants_wrt (phase s t) \<Longrightarrow> 0 < sem_count (rp_wrt (shared s))"
  shows "\<exists>s'. advance rp_class t w s = Done s'"
  using assms(2-) rp_inv_facts(1,2) [OF inv] rp_mutex_le [OF inv] rp_wrt_le [OF inv]
    rp_placed_at [OF inv, of t]
  by (cases "phase s t")
     (auto simp: advance_def run_method_def rp_step_simps SEM_VALUE_MAX_def split: rp_point.splits)

lemma rp_mutex_holder:
  assumes inv: "rp_inv l ph" and "sem_count (rp_mutex l) = 0"
  obtains v where "rp_in_mutex (ph v)"
  using rp_inv_facts(4) [OF inv] assms(2) tcount_obtain [of rp_in_mutex ph] by auto

lemma rp_not_stuck:
  assumes inv: "rp_inv (shared s) (phase s)" and call: "in_call (phase s t)"
    and idle: "\<forall>u. phase s u \<noteq> Reading \<and> phase s u \<noteq> Writing"
  shows "\<exists>u w s'. advance rp_class u w s = Done s'"
proof (rule ccontr)
  assume "\<not> ?thesis"
  then have stuck: "in_call (phase s u) \<Longrightarrow>
      rp_wants_mutex (phase s u) \<and> sem_count (rp_mutex (shared s)) = 0
    \<or> rp_wants_wrt (phase s u) \<and> sem_count (rp_wrt (shared s)) = 0" for u
    using rp_can_act [OF inv, of u] by (metis neq0_conv)
  have in_mutex: "rp_in_mutex x \<Longrightarrow> in_call x \<and> \<not> rp_wants_mutex x" for x
    by (cases x rule: rp_in_mutex.cases) auto
  have wrt0: "sem_count (rp_wrt (shared s)) = 0"
    using stuck [OF call] rp_mutex_holder [OF inv] in_mutex stuck by metis
  have owner: "rp_owner x \<Longrightarrow> x = Writing \<or> in_call x \<and> \<not> rp_wants_mutex x \<and> \<not> rp_wants_wrt x" for x
    by (cases x rule: rp_owner.cases) auto
  have last: "rp_last x \<Longrightarrow> in_call x \<and> \<not> rp_wants_mutex x \<and> \<not> rp_wants_wrt x" for x
    by (cases x rule: rp_last.cases) auto
  note fin = rp_inv_facts(3) [OF inv]
  have "tcount rp_owner (phase s) = 0" "tcount rp_last (phase s) = 0"
    using owner last stuck idle tcount_eq_0 [OF fin, of rp_owner] tcount_eq_0 [OF fin, of rp_last]
    by (simp; metis)+
  with rp_inv_facts(5) [OF inv] wrt0
  have n: "0 < rp_readCount (shared s)" and first: "tcount rp_first (phase s) = 0"
    by (auto split: if_splits simp: of_bool_def)
  have no_first: "\<not> rp_first (phase s u)" for u
    using first tcount_eq_0 [OF fin, of rp_first] by simp
  have mutex_idle: "sem_count (rp_mutex (shared s)) \<noteq> 0"
  proof
    assume "sem_count (rp_mutex (shared s)) = 0"
    then obtain v where v: "rp_in_mutex (phase s v)" by (rule rp_mutex_holder [OF inv])
    then have "rp_wants_wrt (phase s v)" using in_mutex stuck by blast
    with v have "rp_first (phase s v)" by (cases "phase s v" rule: rp_wants_wrt.cases) auto
    with no_first show False by blast
  qed
  have "1 \<le> tcount rp_counted (phase s)" using n rp_inv_facts(7) [OF inv] by simp
  then obtain v where v: "rp_counted (phase s v)" by (rule tcount_obtain)
  then have "in_call (phase s v) \<and> (rp_wants_wrt (phase s v) \<longrightarrow> rp_first (phase s v))"
    using idle by (cases "phase s v" rule: rp_counted.cases) auto
  with stuck [of v] mutex_idle no_first [of v] show False by auto
qed

interpretation rp: live_rw_lock rp_class ReaderPriorityLock rp_inv rp_rank
proof unfold_locales
  fix s :: "(rp_lock, rp_point) lsys" and t
  show "rp_inv (shared s) (phase s) \<Longrightarrow> in_call (phase s t) \<Longrightarrow>
      \<forall>u. phase s u \<noteq> Reading \<and> phase s u \<noteq> Writing \<Longrightarrow> \<exists>u w s'. advance rp_class u w s = Done s'"
    by (rule rp_not_stuck)
qed (auto intro: rp_inv_facts(3) rp_init rp_call_inv rp_readLock_inv rp_readUnlock_inv
       rp_writeLock_inv rp_writeUnlock_inv rp_rank_decreases dest: rp_no_throw rp_excl)

section \<open>What the algorithm promises\<close>

abbreviation rp_start :: "(rp_lock, rp_point) lsys" where
  "rp_start \<equiv> lock_start ReaderPriorityLock"

abbreviation rp_reachable :: "(rp_lock, rp_point) lsys \<Rightarrow> bool" where
  "rp_reachable \<equiv> reachable rp_start (lock_step rp_class)"

lemmas rp_run_simps = lock_start_def ReaderPriorityLock_def binary_semaphore_def advance_def
  run_method_def Semaphore_wait_unfold Semaphore_post_unfold Let_def SEM_VALUE_MAX_def

lemma rp_run_reachable: "sched_run rp_class es rp_start = Done s \<Longrightarrow> rp_reachable s"
  by (rule sched_run_reachable [OF _ reachable_init])

lemma rp_lock_work_le: "lock_work rp_class rp_rank x \<le> 12"
proof -
  have rank: "rp_rank p \<le> 5" for p by (cases p) auto
  show ?thesis
    by (cases x) (auto simp: lock_work_simps intro: order_trans [OF rank])
qed

text \<open>A concrete interleaving: thread 1 writes while reader 2 and writer 3 queue behind it.\<close>

definition rp_demo_writer :: "sched_event list" where
  "rp_demo_writer =
     [CallWriteLock 1, Act 1, Act 1, Act 1, Act 1, CallReadLock 2, Act 2, Act 2, Act 2,
      CallWriteLock 3, Act 3]"

text \<open>Threads 2 and 4 read while writer 1 queues.\<close>

definition rp_demo_readers :: "sched_event list" where
  "rp_demo_readers =
     [CallReadLock 2, Act 2, Act 2, Act 2, Act 2, Act 2, Act 2, CallWriteLock 1, Act 1,
      CallReadLock 4, Act 4, Act 4, Act 4]"

lemma rp_demo_writer_run:
  "\<exists>s. sched_run rp_class rp_demo_writer rp_start = Done s
     \<and> phase s 1 = Writing \<and> phase s 2 = InReadLock (RL_wrt 1) \<and> phase s 3 = InWriteLock WL_wrt_wait"
  by (simp add: rp_demo_writer_def rp_run_simps)

lemma rp_demo_readers_run:
  "\<exists>s. sched_run rp_class rp_demo_readers rp_start = Done s
     \<and> phase s 1 = InWriteLock WL_wrt_wait \<and> phase s 2 = Reading \<and> phase s 4 = InReadLock (RL_wrt 2)
     \<and> rp_readCount (shared s) = 2"
  by (simp add: rp_demo_readers_def rp_run_simps)

text \<open>
  C1: Mutual exclusion of \<open>ReaderPriorityLock\<close>: for any number of threads that call the lock in the
  order lock, unlock, interleaved one atomic action at a time in any way, while a thread is between
  \<open>writeLock\<close> and \<open>writeUnlock\<close> no other thread is between its lock and unlock calls.
\<close>

theorem rp_mutual_exclusion:
  assumes "reachable (lock_start ReaderPriorityLock) (lock_step rp_class) s"
    and "phase s t = Writing" and "u \<noteq> t"
  shows "phase s u \<noteq> Writing \<and> phase s u \<noteq> Reading"
  using assms by (rule rp.mutual_exclusion)

lemma rp_mutual_exclusion_witness:
  "\<exists>s. sched_run rp_class rp_demo_writer rp_start = Done s
     \<and> phase s 2 \<noteq> Writing \<and> phase s 2 \<noteq> Reading"
  using rp_demo_writer_run rp_mutual_exclusion [OF rp_run_reachable, of _ _ 1 2] by fastforce

text \<open>
  Every call on \<open>ReaderPriorityLock\<close> finishes.  From any reachable state, once no new request
  starts, every interleaving has at most 12 actions per thread that is not outside, and it can only
  stop when all threads are outside: there is no deadlock and no endless retry.
\<close>

lemma rp_calls_finish:
  assumes "reachable (lock_start ReaderPriorityLock) (lock_step rp_class) s"
    and "sched_run rp_class es s = Done s'" and "\<forall>e \<in> set es. \<not> starts_request e"
  shows "length es \<le> 12 * card {t. phase s t \<noteq> Outside}
       \<and> ((\<exists>t. phase s' t \<noteq> Outside)
            \<longrightarrow> (\<exists>e s''. \<not> starts_request e \<and> sched_do rp_class e s' = Done s''))"
  using rp.calls_finish [OF assms]
    tsum_le [of "lock_work rp_class rp_rank" "phase s" 12 Outside, OF rp_lock_work_le] by auto

text \<open>
  No method of \<open>ReaderPriorityLock\<close> throws: in every reachable state both semaphores are live and
  hold at most one unit, and no action of any thread raises a \<open>system_error\<close> (no \<open>sem_post\<close> overflow,
  no use of a destroyed semaphore).
\<close>

lemma rp_never_throws:
  assumes "reachable (lock_start ReaderPriorityLock) (lock_step rp_class) s"
  shows "sem_count (rp_mutex (shared s)) \<le> 1 \<and> sem_count (rp_wrt (shared s)) \<le> 1
       \<and> advance rp_class t w s \<noteq> Threw e"
  using rp.never_throws [OF assms] rp_mutex_le [OF rp.inv_reachable [OF assms]]
    rp_wrt_le [OF rp.inv_reachable [OF assms]] by blast

lemma rp_later_reader:
  assumes inv: "rp_inv l ph" and "ph u = Reading" and "ph t = InReadLock (RL_wrt rc)"
  shows "rc \<noteq> 1"
proof -
  have "2 \<le> tcount rp_counted ph"
    using tcount_two [OF rp_inv_facts(3) [OF inv], of rp_counted u t] assms(2,3) by fastforce
  then show ?thesis using rp_local_at [OF inv, of t] rp_inv_facts(7) [OF inv] assms(3) by simp
qed

text \<open>
  Reader priority: while some thread reads, a reader never waits for \<open>wrt_\<close>, whatever writers
  queue.  Its \<open>rc == 1\<close> test fails, and if no thread is inside the short \<open>mutex_\<close> section, a reader
  that is outside gets the lock by its own seven actions, without any other thread moving.
\<close>

lemma rp_readers_overtake:
  assumes "reachable (lock_start ReaderPriorityLock) (lock_step rp_class) s"
    and "phase s u = Reading"
  shows "(phase s t = InReadLock (RL_wrt rc) \<longrightarrow> rc \<noteq> 1 \<and> (\<exists>s'. advance rp_class t w s = Done s'))
       \<and> (phase s t = Outside \<longrightarrow> (\<forall>v. \<not> rp_in_mutex (phase s v)) \<longrightarrow>
            (\<exists>s'. sched_run rp_class [CallReadLock t, Act t, Act t, Act t, Act t, Act t, Act t] s = Done s'
                \<and> phase s' t = Reading \<and> (\<forall>v. v \<noteq> t \<longrightarrow> phase s' v = phase s v)))"
proof (intro conjI impI)
  note inv = rp.inv_reachable [OF assms(1)]
  show "rc \<noteq> 1" if "phase s t = InReadLock (RL_wrt rc)"
    using rp_later_reader [OF inv assms(2) that] .
  then show "\<exists>s'. advance rp_class t w s = Done s'" if "phase s t = InReadLock (RL_wrt rc)"
    using that by (simp add: advance_def run_method_def)
next
  note inv = rp.inv_reachable [OF assms(1)]
  assume t: "phase s t = Outside" and idle: "\<forall>v. \<not> rp_in_mutex (phase s v)"
  have "tcount rp_in_mutex (phase s) = 0"
    using tcount_eq_0 [OF rp_inv_facts(3) [OF inv], of rp_in_mutex] idle by simp
  then have "sem_count (rp_mutex (shared s)) = 1" using rp_inv_facts(4) [OF inv] by simp
  moreover have "1 \<le> rp_readCount (shared s)" using rp_counted_pos [OF inv, of u] assms(2) by simp
  ultimately show "\<exists>s'. sched_run rp_class
          [CallReadLock t, Act t, Act t, Act t, Act t, Act t, Act t] s = Done s'
      \<and> phase s' t = Reading \<and> (\<forall>v. v \<noteq> t \<longrightarrow> phase s' v = phase s v)"
    using t rp_inv_facts(1,2) [OF inv] by (simp add: rp_run_simps)
qed

lemma rp_readers_overtake_witness:
  "\<exists>s s'. sched_run rp_class rp_demo_readers rp_start = Done s
     \<and> phase s 1 = InWriteLock WL_wrt_wait \<and> advance rp_class 4 (Pick 4) s = Done s'"
  using rp_demo_readers_run
    rp_readers_overtake [OF rp_run_reachable, of rp_demo_readers _ 2 4 2 "Pick 4"] by blast

text \<open>Readers 2 and 3 hand the lock to each other while writer 1 queues; \<open>n\<close> rounds of it.\<close>

definition rp_starve_prefix :: "sched_event list" where
  "rp_starve_prefix =
     [CallReadLock 2, Act 2, Act 2, Act 2, Act 2, Act 2, Act 2, CallWriteLock 1, Act 1]"

definition rp_join :: "tid \<Rightarrow> sched_event list" where
  "rp_join t = [CallReadLock t, Act t, Act t, Act t, Act t, Act t, Act t]"

definition rp_leave :: "tid \<Rightarrow> sched_event list" where
  "rp_leave t = [CallReadUnlock t, Act t, Act t, Act t, Act t, Act t]"

definition rp_starve_round :: "sched_event list" where
  "rp_starve_round = rp_join 3 @ rp_leave 2 @ rp_join 2 @ rp_leave 3"

definition rp_starve :: "nat \<Rightarrow> sched_event list" where
  "rp_starve n = rp_starve_prefix @ concat (replicate n rp_starve_round)"

text \<open>Writer 1 sleeps in \<open>wrt_.wait()\<close>; the readers' phases and the count are given.\<close>

definition rp_blocked_behind ::
    "int \<Rightarrow> rp_point phase \<Rightarrow> rp_point phase \<Rightarrow> (rp_lock, rp_point) lsys \<Rightarrow> bool" where
  "rp_blocked_behind n x y s \<longleftrightarrow>
     phase s 1 = InWriteLock WL_wrt_wait \<and> phase s 2 = x \<and> phase s 3 = y
   \<and> sem_live (rp_mutex (shared s)) \<and> sem_count (rp_mutex (shared s)) = 1
   \<and> sem_live (rp_wrt (shared s)) \<and> sem_count (rp_wrt (shared s)) = 0
   \<and> rp_readCount (shared s) = n"

abbreviation rp_starving :: "(rp_lock, rp_point) lsys \<Rightarrow> bool" where
  "rp_starving \<equiv> rp_blocked_behind 1 Reading Outside"

lemma rp_starve_prefix_run:
  "\<exists>s. sched_run rp_class rp_starve_prefix rp_start = Done s \<and> rp_starving s"
  by (simp add: rp_starve_prefix_def rp_blocked_behind_def rp_run_simps)

lemma rp_join_run:
  "rp_blocked_behind 1 Reading Outside s \<Longrightarrow>
     \<exists>s'. sched_run rp_class (rp_join 3) s = Done s' \<and> rp_blocked_behind 2 Reading Reading s'"
  "rp_blocked_behind 1 Outside Reading s \<Longrightarrow>
     \<exists>s'. sched_run rp_class (rp_join 2) s = Done s' \<and> rp_blocked_behind 2 Reading Reading s'"
  by (simp_all add: rp_join_def rp_blocked_behind_def rp_run_simps)

lemma rp_leave_run:
  "rp_blocked_behind 2 Reading Reading s \<Longrightarrow>
     \<exists>s'. sched_run rp_class (rp_leave 2) s = Done s' \<and> rp_blocked_behind 1 Outside Reading s'"
  "rp_blocked_behind 2 Reading Reading s \<Longrightarrow>
     \<exists>s'. sched_run rp_class (rp_leave 3) s = Done s' \<and> rp_blocked_behind 1 Reading Outside s'"
  by (simp_all add: rp_leave_def rp_blocked_behind_def rp_run_simps)

lemma rp_starve_round_run:
  "rp_starving s \<Longrightarrow> \<exists>s'. sched_run rp_class rp_starve_round s = Done s' \<and> rp_starving s'"
  unfolding rp_starve_round_def sched_run_append bind_outcome_Done_iff
  using rp_join_run rp_leave_run by metis

lemma rp_starve_rounds_run:
  "rp_starving s \<Longrightarrow>
     \<exists>s'. sched_run rp_class (concat (replicate n rp_starve_round)) s = Done s' \<and> rp_starving s'"
proof (induction n arbitrary: s)
  case (Suc n)
  then show ?case using rp_starve_round_run [of s] by (auto simp: sched_run_append)
qed simp

text \<open>
  Writers can starve under \<open>ReaderPriorityLock\<close>: for every \<open>n\<close> there is an interleaving in which a
  writer has announced its request and is asleep in \<open>wrt_.wait()\<close> throughout \<open>2 * n\<close> later read
  acquisitions, and still cannot move at the end.
\<close>

lemma rp_writer_starves:
  "\<exists>s. sched_run rp_class (rp_starve n) (lock_start ReaderPriorityLock) = Done s
     \<and> phase s 1 = InWriteLock WL_wrt_wait \<and> advance rp_class 1 w s = Blocked
     \<and> length (filter (\<lambda>e. \<exists>t. e = CallReadLock t) (rp_starve n)) = 2 * n + 1"
proof -
  obtain s1 where s1: "sched_run rp_class rp_starve_prefix rp_start = Done s1" "rp_starving s1"
    using rp_starve_prefix_run by blast
  obtain s where s: "sched_run rp_class (concat (replicate n rp_starve_round)) s1 = Done s"
    "rp_starving s" using rp_starve_rounds_run [OF s1(2)] by blast
  have "sched_run rp_class (rp_starve n) rp_start = Done s"
    using s1 s by (simp add: rp_starve_def sched_run_append)
  moreover have "advance rp_class 1 w s = Blocked"
    using s(2) by (simp add: rp_blocked_behind_def advance_def run_method_def Semaphore_wait_unfold)
  moreover have "length (filter (\<lambda>e. \<exists>t. e = CallReadLock t) (concat (replicate m rp_starve_round))) = 2 * m"
    for m by (induction m) (simp_all add: rp_starve_round_def rp_join_def rp_leave_def)
  then have "length (filter (\<lambda>e. \<exists>t. e = CallReadLock t) (rp_starve n)) = 2 * n + 1"
    by (simp add: rp_starve_def rp_starve_prefix_def)
  ultimately show ?thesis using s(2) unfolding rp_blocked_behind_def by blast
qed

end
