(* ===== verification/Writer_Priority.thy ===== *)
theory Writer_Priority
  imports Lock_Base
begin

text \<open>
  \<open>include/writer_priority.hpp\<close> and \<open>src/writer_priority.cpp\<close>: Courtois' second algorithm.  Five
  binary semaphores: \<open>mutex1_\<close> and \<open>mutex2_\<close> protect the two counters, the first writer closes the
  readers' gate \<open>rsem_\<close> and the last one opens it, \<open>wrt_\<close> is the exclusive lock, and \<open>readTry_\<close> lets
  one reader at a time queue at the gate.
\<close>

record wp_lock =
  wp_readCount :: int
  wp_writeCount :: int
  wp_writerActive :: bool
  wp_mutex1 :: Semaphore
  wp_mutex2 :: Semaphore
  wp_rsem :: Semaphore
  wp_wrt :: Semaphore
  wp_readTry :: Semaphore

datatype wp_point =
    WpRL_waiting | WpRL_readTry_wait | WpRL_rsem_wait | WpRL_mutex1_wait | WpRL_incr
  | WpRL_wrt int | WpRL_mutex1_post int | WpRL_rsem_post int | WpRL_readTry_post int
  | WpRL_active int
  | WpRU_mutex1_wait | WpRU_decr | WpRU_wrt int | WpRU_mutex1_post int | WpRU_releasing int
  | WpWL_waiting | WpWL_mutex2_wait | WpWL_incr | WpWL_rsem int | WpWL_mutex2_post
  | WpWL_wrt_wait | WpWL_store | WpWL_active
  | WpWU_store | WpWU_wrt_post | WpWU_mutex2_wait | WpWU_decr | WpWU_rsem int
  | WpWU_mutex2_post | WpWU_releasing

definition WriterPriorityLock :: wp_lock where
  "WriterPriorityLock =
     \<lparr>wp_readCount = 0, wp_writeCount = 0, wp_writerActive = False,
      wp_mutex1 = binary_semaphore, wp_mutex2 = binary_semaphore, wp_rsem = binary_semaphore,
      wp_wrt = binary_semaphore, wp_readTry = binary_semaphore\<rparr>"

section \<open>The methods\<close>

fun wp_readLock :: "(wp_lock, wp_point) rw_method" where
  "wp_readLock WpRL_waiting t w (l, c) =
     Done (l, transitionWaiting ''Reader requesting lock'' c, Some WpRL_readTry_wait)"
| "wp_readLock WpRL_readTry_wait t w (l, c) =
     bind_outcome (Semaphore_wait [] (wp_readTry l))
       (\<lambda>m. Done (l\<lparr>wp_readTry := m\<rparr>, c, Some WpRL_rsem_wait))"
| "wp_readLock WpRL_rsem_wait t w (l, c) =
     bind_outcome (Semaphore_wait [] (wp_rsem l))
       (\<lambda>m. Done (l\<lparr>wp_rsem := m\<rparr>, c, Some WpRL_mutex1_wait))"
| "wp_readLock WpRL_mutex1_wait t w (l, c) =
     bind_outcome (Semaphore_wait [] (wp_mutex1 l))
       (\<lambda>m. Done (l\<lparr>wp_mutex1 := m\<rparr>, c, Some WpRL_incr))"
| "wp_readLock WpRL_incr t w (l, c) =
     (let rc = wp_readCount l + 1 in Done (l\<lparr>wp_readCount := rc\<rparr>, c, Some (WpRL_wrt rc)))"
| "wp_readLock (WpRL_wrt rc) t w (l, c) =
     (if rc = 1
      then bind_outcome (Semaphore_wait [] (wp_wrt l))
             (\<lambda>m. Done (l\<lparr>wp_wrt := m\<rparr>, c, Some (WpRL_mutex1_post rc)))
      else Done (l, c, Some (WpRL_mutex1_post rc)))"
| "wp_readLock (WpRL_mutex1_post rc) t w (l, c) =
     bind_outcome (Semaphore_post (wp_mutex1 l))
       (\<lambda>m. Done (l\<lparr>wp_mutex1 := m\<rparr>, c, Some (WpRL_rsem_post rc)))"
| "wp_readLock (WpRL_rsem_post rc) t w (l, c) =
     bind_outcome (Semaphore_post (wp_rsem l))
       (\<lambda>m. Done (l\<lparr>wp_rsem := m\<rparr>, c, Some (WpRL_readTry_post rc)))"
| "wp_readLock (WpRL_readTry_post rc) t w (l, c) =
     bind_outcome (Semaphore_post (wp_readTry l))
       (\<lambda>m. Done (l\<lparr>wp_readTry := m\<rparr>, c, Some (WpRL_active rc)))"
| "wp_readLock (WpRL_active rc) t w (l, c) =
     Done (l, transitionActive (''Reader acquired lock, readers='' @ to_string rc) c, None)"
| "wp_readLock _ t w (l, c) = Blocked"

fun wp_readUnlock :: "(wp_lock, wp_point) rw_method" where
  "wp_readUnlock WpRU_mutex1_wait t w (l, c) =
     bind_outcome (Semaphore_wait [] (wp_mutex1 l))
       (\<lambda>m. Done (l\<lparr>wp_mutex1 := m\<rparr>, c, Some WpRU_decr))"
| "wp_readUnlock WpRU_decr t w (l, c) =
     (let rc = wp_readCount l - 1 in Done (l\<lparr>wp_readCount := rc\<rparr>, c, Some (WpRU_wrt rc)))"
| "wp_readUnlock (WpRU_wrt rc) t w (l, c) =
     (if rc = 0
      then bind_outcome (Semaphore_post (wp_wrt l))
             (\<lambda>m. Done (l\<lparr>wp_wrt := m\<rparr>, c, Some (WpRU_mutex1_post rc)))
      else Done (l, c, Some (WpRU_mutex1_post rc)))"
| "wp_readUnlock (WpRU_mutex1_post rc) t w (l, c) =
     bind_outcome (Semaphore_post (wp_mutex1 l))
       (\<lambda>m. Done (l\<lparr>wp_mutex1 := m\<rparr>, c, Some (WpRU_releasing rc)))"
| "wp_readUnlock (WpRU_releasing rc) t w (l, c) =
     Done (l, transitionReleasing (''Reader released lock, readers='' @ to_string rc) c, None)"
| "wp_readUnlock _ t w (l, c) = Blocked"

fun wp_writeLock :: "(wp_lock, wp_point) rw_method" where
  "wp_writeLock WpWL_waiting t w (l, c) =
     Done (l, transitionWaiting ''Writer requesting lock'' c, Some WpWL_mutex2_wait)"
| "wp_writeLock WpWL_mutex2_wait t w (l, c) =
     bind_outcome (Semaphore_wait [] (wp_mutex2 l))
       (\<lambda>m. Done (l\<lparr>wp_mutex2 := m\<rparr>, c, Some WpWL_incr))"
| "wp_writeLock WpWL_incr t w (l, c) =
     (let wc = wp_writeCount l + 1 in Done (l\<lparr>wp_writeCount := wc\<rparr>, c, Some (WpWL_rsem wc)))"
| "wp_writeLock (WpWL_rsem wc) t w (l, c) =
     (if wc = 1
      then bind_outcome (Semaphore_wait [] (wp_rsem l))
             (\<lambda>m. Done (l\<lparr>wp_rsem := m\<rparr>, c, Some WpWL_mutex2_post))
      else Done (l, c, Some WpWL_mutex2_post))"
| "wp_writeLock WpWL_mutex2_post t w (l, c) =
     bind_outcome (Semaphore_post (wp_mutex2 l))
       (\<lambda>m. Done (l\<lparr>wp_mutex2 := m\<rparr>, c, Some WpWL_wrt_wait))"
| "wp_writeLock WpWL_wrt_wait t w (l, c) =
     bind_outcome (Semaphore_wait [] (wp_wrt l))
       (\<lambda>m. Done (l\<lparr>wp_wrt := m\<rparr>, c, Some WpWL_store))"
| "wp_writeLock WpWL_store t w (l, c) = Done (l\<lparr>wp_writerActive := True\<rparr>, c, Some WpWL_active)"
| "wp_writeLock WpWL_active t w (l, c) =
     Done (l, transitionActive ''Writer acquired exclusive lock'' c, None)"
| "wp_writeLock _ t w (l, c) = Blocked"

fun wp_writeUnlock :: "(wp_lock, wp_point) rw_method" where
  "wp_writeUnlock WpWU_store t w (l, c) =
     Done (l\<lparr>wp_writerActive := False\<rparr>, c, Some WpWU_wrt_post)"
| "wp_writeUnlock WpWU_wrt_post t w (l, c) =
     bind_outcome (Semaphore_post (wp_wrt l))
       (\<lambda>m. Done (l\<lparr>wp_wrt := m\<rparr>, c, Some WpWU_mutex2_wait))"
| "wp_writeUnlock WpWU_mutex2_wait t w (l, c) =
     bind_outcome (Semaphore_wait [] (wp_mutex2 l))
       (\<lambda>m. Done (l\<lparr>wp_mutex2 := m\<rparr>, c, Some WpWU_decr))"
| "wp_writeUnlock WpWU_decr t w (l, c) =
     (let wc = wp_writeCount l - 1 in Done (l\<lparr>wp_writeCount := wc\<rparr>, c, Some (WpWU_rsem wc)))"
| "wp_writeUnlock (WpWU_rsem wc) t w (l, c) =
     (if wc = 0
      then bind_outcome (Semaphore_post (wp_rsem l))
             (\<lambda>m. Done (l\<lparr>wp_rsem := m\<rparr>, c, Some WpWU_mutex2_post))
      else Done (l, c, Some WpWU_mutex2_post))"
| "wp_writeUnlock WpWU_mutex2_post t w (l, c) =
     bind_outcome (Semaphore_post (wp_mutex2 l))
       (\<lambda>m. Done (l\<lparr>wp_mutex2 := m\<rparr>, c, Some WpWU_releasing))"
| "wp_writeUnlock WpWU_releasing t w (l, c) =
     Done (l, transitionReleasing ''Writer released exclusive lock'' c, None)"
| "wp_writeUnlock _ t w (l, c) = Blocked"

definition wp_class :: "(wp_lock, wp_point) RWLockBase" where
  "wp_class =
     \<lparr>readLock = wp_readLock, readUnlock = wp_readUnlock, writeLock = wp_writeLock,
      writeUnlock = wp_writeUnlock, lock_algo = WRITER_PRIORITY,
      readerCount = wp_readCount, writerActive = wp_writerActive,
      readLock_entry = WpRL_waiting, readUnlock_entry = WpRU_mutex1_wait,
      writeLock_entry = WpWL_waiting, writeUnlock_entry = WpWU_store\<rparr>"

lemma wp_class_simps [simp]:
  "readLock wp_class = wp_readLock" "readUnlock wp_class = wp_readUnlock"
  "writeLock wp_class = wp_writeLock" "writeUnlock wp_class = wp_writeUnlock"
  "readLock_entry wp_class = WpRL_waiting" "readUnlock_entry wp_class = WpRU_mutex1_wait"
  "writeLock_entry wp_class = WpWL_waiting" "writeUnlock_entry wp_class = WpWU_store"
  "readerCount wp_class = wp_readCount" "writerActive wp_class = wp_writerActive"
  by (simp_all add: wp_class_def)

section \<open>The invariant\<close>

text \<open>Who holds each semaphore, who is counted in \<open>readCount_\<close> and \<open>writeCount_\<close>.\<close>

definition wp_in_mutex1 :: "wp_point phase \<Rightarrow> bool" where
  "wp_in_mutex1 x \<longleftrightarrow> (case x of
       InReadLock p \<Rightarrow> (case p of WpRL_incr \<Rightarrow> True
           | WpRL_wrt rc \<Rightarrow> True | WpRL_mutex1_post rc \<Rightarrow> True
           | _ \<Rightarrow> False)
     | InReadUnlock p \<Rightarrow> (case p of WpRU_decr \<Rightarrow> True
           | WpRU_wrt rc \<Rightarrow> True | WpRU_mutex1_post rc \<Rightarrow> True
           | _ \<Rightarrow> False)
     | _ \<Rightarrow> False)"

definition wp_in_mutex2 :: "wp_point phase \<Rightarrow> bool" where
  "wp_in_mutex2 x \<longleftrightarrow> (case x of
       InWriteLock p \<Rightarrow> (case p of WpWL_incr \<Rightarrow> True
           | WpWL_rsem wc \<Rightarrow> True | WpWL_mutex2_post \<Rightarrow> True
           | _ \<Rightarrow> False)
     | InWriteUnlock p \<Rightarrow> (case p of WpWU_decr \<Rightarrow> True
           | WpWU_rsem wc \<Rightarrow> True | WpWU_mutex2_post \<Rightarrow> True
           | _ \<Rightarrow> False)
     | _ \<Rightarrow> False)"

definition wp_in_readTry :: "wp_point phase \<Rightarrow> bool" where
  "wp_in_readTry x \<longleftrightarrow> (case x of
       InReadLock p \<Rightarrow> (case p of WpRL_rsem_wait \<Rightarrow> True
           | WpRL_mutex1_wait \<Rightarrow> True | WpRL_incr \<Rightarrow> True
           | WpRL_wrt rc \<Rightarrow> True | WpRL_mutex1_post rc \<Rightarrow> True
           | WpRL_rsem_post rc \<Rightarrow> True | WpRL_readTry_post rc \<Rightarrow> True
           | _ \<Rightarrow> False)
     | _ \<Rightarrow> False)"

definition wp_in_rsem :: "wp_point phase \<Rightarrow> bool" where
  "wp_in_rsem x \<longleftrightarrow> (case x of
       InReadLock p \<Rightarrow> (case p of WpRL_mutex1_wait \<Rightarrow> True
           | WpRL_incr \<Rightarrow> True | WpRL_wrt rc \<Rightarrow> True
           | WpRL_mutex1_post rc \<Rightarrow> True | WpRL_rsem_post rc \<Rightarrow> True
           | _ \<Rightarrow> False)
     | _ \<Rightarrow> False)"

definition wp_rcounted :: "wp_point phase \<Rightarrow> bool" where
  "wp_rcounted x \<longleftrightarrow> (case x of
       InReadLock p \<Rightarrow> (case p of WpRL_wrt rc \<Rightarrow> True
           | WpRL_mutex1_post rc \<Rightarrow> True | WpRL_rsem_post rc \<Rightarrow> True
           | WpRL_readTry_post rc \<Rightarrow> True | WpRL_active rc \<Rightarrow> True
           | _ \<Rightarrow> False)
     | Reading \<Rightarrow> True
     | InReadUnlock p \<Rightarrow> (case p of WpRU_mutex1_wait \<Rightarrow> True
           | WpRU_decr \<Rightarrow> True | _ \<Rightarrow> False)
     | _ \<Rightarrow> False)"

definition wp_wcounted :: "wp_point phase \<Rightarrow> bool" where
  "wp_wcounted x \<longleftrightarrow> (case x of
       InWriteLock p \<Rightarrow> (case p of WpWL_rsem wc \<Rightarrow> True
           | WpWL_mutex2_post \<Rightarrow> True | WpWL_wrt_wait \<Rightarrow> True
           | WpWL_store \<Rightarrow> True | WpWL_active \<Rightarrow> True
           | _ \<Rightarrow> False)
     | Writing \<Rightarrow> True
     | InWriteUnlock p \<Rightarrow> (case p of WpWU_store \<Rightarrow> True
           | WpWU_wrt_post \<Rightarrow> True | WpWU_mutex2_wait \<Rightarrow> True
           | WpWU_decr \<Rightarrow> True | _ \<Rightarrow> False)
     | _ \<Rightarrow> False)"

definition wp_owner :: "wp_point phase \<Rightarrow> bool" where
  "wp_owner x \<longleftrightarrow> (case x of
       InWriteLock p \<Rightarrow> (case p of WpWL_store \<Rightarrow> True
           | WpWL_active \<Rightarrow> True | _ \<Rightarrow> False)
     | Writing \<Rightarrow> True
     | InWriteUnlock p \<Rightarrow> (case p of WpWU_store \<Rightarrow> True
           | WpWU_wrt_post \<Rightarrow> True | _ \<Rightarrow> False)
     | _ \<Rightarrow> False)"

definition wp_flagged :: "wp_point phase \<Rightarrow> bool" where
  "wp_flagged x \<longleftrightarrow> (case x of
       InWriteLock p \<Rightarrow> (case p of WpWL_active \<Rightarrow> True
           | _ \<Rightarrow> False)
     | Writing \<Rightarrow> True
     | InWriteUnlock p \<Rightarrow> (case p of WpWU_store \<Rightarrow> True
           | _ \<Rightarrow> False)
     | _ \<Rightarrow> False)"

text \<open>
  The first and last members of each group, on their way to \<open>wait\<close> and \<open>post\<close> the group's semaphore.
\<close>

definition wp_rfirst :: "wp_point phase \<Rightarrow> bool" where
  "wp_rfirst x \<longleftrightarrow> (case x of
       InReadLock p \<Rightarrow> (case p of WpRL_wrt rc \<Rightarrow> rc = 1
           | _ \<Rightarrow> False)
     | _ \<Rightarrow> False)"

definition wp_rlast :: "wp_point phase \<Rightarrow> bool" where
  "wp_rlast x \<longleftrightarrow> (case x of
       InReadUnlock p \<Rightarrow> (case p of WpRU_wrt rc \<Rightarrow> rc = 0
           | _ \<Rightarrow> False)
     | _ \<Rightarrow> False)"

definition wp_wfirst :: "wp_point phase \<Rightarrow> bool" where
  "wp_wfirst x \<longleftrightarrow> (case x of
       InWriteLock p \<Rightarrow> (case p of WpWL_rsem wc \<Rightarrow> wc = 1
           | _ \<Rightarrow> False)
     | _ \<Rightarrow> False)"

definition wp_wlast :: "wp_point phase \<Rightarrow> bool" where
  "wp_wlast x \<longleftrightarrow> (case x of
       InWriteUnlock p \<Rightarrow> (case p of WpWU_rsem wc \<Rightarrow> wc = 0
           | _ \<Rightarrow> False)
     | _ \<Rightarrow> False)"

definition wp_local :: "int \<Rightarrow> int \<Rightarrow> wp_point phase \<Rightarrow> bool" where
  "wp_local n m x \<longleftrightarrow> (case x of
       InReadLock p \<Rightarrow> (case p of WpRL_wrt rc \<Rightarrow> rc = n | _ \<Rightarrow> True)
     | InReadUnlock p \<Rightarrow> (case p of WpRU_wrt rc \<Rightarrow> rc = n | _ \<Rightarrow> True)
     | InWriteLock p \<Rightarrow> (case p of WpWL_rsem wc \<Rightarrow> wc = m | _ \<Rightarrow> True)
     | InWriteUnlock p \<Rightarrow> (case p of WpWU_rsem wc \<Rightarrow> wc = m | _ \<Rightarrow> True)
     | _ \<Rightarrow> True)"

definition wp_placed :: "wp_point phase \<Rightarrow> bool" where
  "wp_placed x \<longleftrightarrow> (case x of
       InReadLock p \<Rightarrow>
         (case p of WpRL_waiting \<Rightarrow> True | WpRL_readTry_wait \<Rightarrow> True
             | WpRL_rsem_wait \<Rightarrow> True | WpRL_mutex1_wait \<Rightarrow> True
             | WpRL_incr \<Rightarrow> True | WpRL_wrt _ \<Rightarrow> True
             | WpRL_mutex1_post _ \<Rightarrow> True | WpRL_rsem_post _ \<Rightarrow> True
             | WpRL_readTry_post _ \<Rightarrow> True | WpRL_active _ \<Rightarrow> True | _ \<Rightarrow> False)
     | InReadUnlock p \<Rightarrow>
         (case p of WpRU_mutex1_wait \<Rightarrow> True | WpRU_decr \<Rightarrow> True
             | WpRU_wrt _ \<Rightarrow> True | WpRU_mutex1_post _ \<Rightarrow> True
             | WpRU_releasing _ \<Rightarrow> True | _ \<Rightarrow> False)
     | InWriteLock p \<Rightarrow>
         (case p of WpWL_waiting \<Rightarrow> True | WpWL_mutex2_wait \<Rightarrow> True
             | WpWL_incr \<Rightarrow> True | WpWL_rsem _ \<Rightarrow> True
             | WpWL_mutex2_post \<Rightarrow> True | WpWL_wrt_wait \<Rightarrow> True
             | WpWL_store \<Rightarrow> True | WpWL_active \<Rightarrow> True | _ \<Rightarrow> False)
     | InWriteUnlock p \<Rightarrow>
         (case p of WpWU_store \<Rightarrow> True | WpWU_wrt_post \<Rightarrow> True
             | WpWU_mutex2_wait \<Rightarrow> True | WpWU_decr \<Rightarrow> True
             | WpWU_rsem _ \<Rightarrow> True | WpWU_mutex2_post \<Rightarrow> True
             | WpWU_releasing \<Rightarrow> True | _ \<Rightarrow> False)
     | _ \<Rightarrow> True)"

lemmas wp_preds = wp_in_mutex1_def wp_in_mutex2_def wp_in_readTry_def wp_in_rsem_def
   wp_rcounted_def wp_wcounted_def wp_owner_def wp_flagged_def wp_rfirst_def wp_rlast_def
   wp_wfirst_def wp_wlast_def wp_local_def wp_placed_def

declare wp_preds [simp]

definition wp_inv :: "wp_lock \<Rightarrow> (tid \<Rightarrow> wp_point phase) \<Rightarrow> bool" where
  "wp_inv l ph \<longleftrightarrow>
     fin_support Outside ph
   \<and> (sem_live (wp_mutex1 l) \<and> sem_live (wp_mutex2 l) \<and> sem_live (wp_rsem l) \<and> sem_live (wp_wrt l)
      \<and> sem_live (wp_readTry l))
   \<and> int (sem_count (wp_mutex1 l)) + int (tcount wp_in_mutex1 ph) = 1
   \<and> int (sem_count (wp_mutex2 l)) + int (tcount wp_in_mutex2 ph) = 1
   \<and> int (sem_count (wp_readTry l)) + int (tcount wp_in_readTry ph) = 1
   \<and> wp_readCount l = int (tcount wp_rcounted ph)
   \<and> wp_writeCount l = int (tcount wp_wcounted ph)
   \<and> int (sem_count (wp_rsem l)) + int (tcount wp_in_rsem ph)
       + of_bool (0 < wp_writeCount l) - int (tcount wp_wfirst ph) + int (tcount wp_wlast ph) = 1
   \<and> int (sem_count (wp_wrt l)) + int (tcount wp_owner ph)
       + of_bool (0 < wp_readCount l) - int (tcount wp_rfirst ph) + int (tcount wp_rlast ph) = 1
   \<and> of_bool (wp_writerActive l) = int (tcount wp_flagged ph)
   \<and> (\<forall>t. wp_local (wp_readCount l) (wp_writeCount l) (ph t))
   \<and> (\<forall>t. wp_placed (ph t))"

lemma wp_inv_facts:
  assumes "wp_inv l ph"
  shows "fin_support Outside ph"
    and "sem_live (wp_mutex1 l) \<and> sem_live (wp_mutex2 l) \<and> sem_live (wp_rsem l) \<and> sem_live (wp_wrt l)
      \<and> sem_live (wp_readTry l)"
    and "int (sem_count (wp_mutex1 l)) + int (tcount wp_in_mutex1 ph) = 1"
    and "int (sem_count (wp_mutex2 l)) + int (tcount wp_in_mutex2 ph) = 1"
    and "int (sem_count (wp_readTry l)) + int (tcount wp_in_readTry ph) = 1"
    and "wp_readCount l = int (tcount wp_rcounted ph)"
    and "wp_writeCount l = int (tcount wp_wcounted ph)"
    and "int (sem_count (wp_rsem l)) + int (tcount wp_in_rsem ph)
       + of_bool (0 < wp_writeCount l) - int (tcount wp_wfirst ph) + int (tcount wp_wlast ph) = 1"
    and "int (sem_count (wp_wrt l)) + int (tcount wp_owner ph)
       + of_bool (0 < wp_readCount l) - int (tcount wp_rfirst ph) + int (tcount wp_rlast ph) = 1"
    and "of_bool (wp_writerActive l) = int (tcount wp_flagged ph)"
  using assms unfolding wp_inv_def by blast+

lemma wp_local_at: "wp_inv l ph \<Longrightarrow> wp_local (wp_readCount l) (wp_writeCount l) (ph t)"
  unfolding wp_inv_def by blast

lemma wp_placed_at: "wp_inv l ph \<Longrightarrow> wp_placed (ph t)"
  unfolding wp_inv_def by blast

lemma wp_init: "wp_inv WriterPriorityLock (\<lambda>_. Outside)"
  by (simp add: wp_inv_def WriterPriorityLock_def binary_semaphore_def)

text \<open>One thread moves from \<open>ph t\<close> to \<open>x\<close>: what has to be checked for the invariant to survive.\<close>

lemma wp_inv_move:
  assumes inv: "wp_inv l ph"
    and live: "sem_live (wp_mutex1 l') \<and> sem_live (wp_mutex2 l') \<and> sem_live (wp_rsem l')
      \<and> sem_live (wp_wrt l') \<and> sem_live (wp_readTry l')"
    and mutex1: "int (sem_count (wp_mutex1 l')) + of_bool (wp_in_mutex1 x)
           = int (sem_count (wp_mutex1 l)) + of_bool (wp_in_mutex1 (ph t))"
    and mutex2: "int (sem_count (wp_mutex2 l')) + of_bool (wp_in_mutex2 x)
           = int (sem_count (wp_mutex2 l)) + of_bool (wp_in_mutex2 (ph t))"
    and readTry: "int (sem_count (wp_readTry l')) + of_bool (wp_in_readTry x)
           = int (sem_count (wp_readTry l)) + of_bool (wp_in_readTry (ph t))"
    and rc: "wp_readCount l' - of_bool (wp_rcounted x)
           = wp_readCount l - of_bool (wp_rcounted (ph t))"
    and wc: "wp_writeCount l' - of_bool (wp_wcounted x)
           = wp_writeCount l - of_bool (wp_wcounted (ph t))"
    and rsem: "int (sem_count (wp_rsem l')) + of_bool (wp_in_rsem x) + of_bool (0 < wp_writeCount l')
             - of_bool (wp_wfirst x) + of_bool (wp_wlast x)
           = int (sem_count (wp_rsem l)) + of_bool (wp_in_rsem (ph t))
             + of_bool (0 < wp_writeCount l)
             - of_bool (wp_wfirst (ph t)) + of_bool (wp_wlast (ph t))"
    and wrt: "int (sem_count (wp_wrt l')) + of_bool (wp_owner x) + of_bool (0 < wp_readCount l')
             - of_bool (wp_rfirst x) + of_bool (wp_rlast x)
           = int (sem_count (wp_wrt l)) + of_bool (wp_owner (ph t)) + of_bool (0 < wp_readCount l)
             - of_bool (wp_rfirst (ph t)) + of_bool (wp_rlast (ph t))"
    and flag: "of_bool (wp_writerActive l') - of_bool (wp_flagged x)
           = (of_bool (wp_writerActive l) - of_bool (wp_flagged (ph t)) :: int)"
    and chg1: "wp_readCount l' = wp_readCount l \<or> wp_in_mutex1 (ph t)"
    and chg2: "wp_writeCount l' = wp_writeCount l \<or> wp_in_mutex2 (ph t)"
    and "wp_local (wp_readCount l') (wp_writeCount l') x" and "wp_placed x"
  shows "wp_inv l' (ph(t := x))"
proof -
  note fin = wp_inv_facts(1) [OF inv]
  note upd = tcount_upd [OF fin]
  have local: "wp_local (wp_readCount l') (wp_writeCount l') (ph u)" if "u \<noteq> t" for u
  proof -
    have m: "tcount wp_in_mutex1 ph \<le> 1" "tcount wp_in_mutex2 ph \<le> 1"
      using wp_inv_facts(3,4) [OF inv] by linarith+
    have "wp_in_mutex1 (ph u) \<Longrightarrow> wp_readCount l' = wp_readCount l"
      using tcount_unique [OF fin, of wp_in_mutex1 t u] m(1) that chg1 by auto
    moreover have "wp_in_mutex2 (ph u) \<Longrightarrow> wp_writeCount l' = wp_writeCount l"
      using tcount_unique [OF fin, of wp_in_mutex2 t u] m(2) that chg2 by auto
    ultimately show ?thesis using wp_local_at [OF inv, of u]
      by (auto split: phase.splits wp_point.splits)
  qed
  show ?thesis
    unfolding wp_inv_def
  proof (intro conjI allI)
    show "wp_local (wp_readCount l') (wp_writeCount l') ((ph(t := x)) u)" for u
      using local [of u] assms(13) by simp
    show "wp_placed ((ph(t := x)) u)" for u
      using wp_placed_at [OF inv, of u] assms(14) by simp
  qed (use live mutex1 mutex2 readTry rc wc rsem wrt flag wp_inv_facts [OF inv] in
        \<open>simp_all add: upd\<close>)
qed

lemmas wp_step_simps = outcome_simps Semaphore_wait_unfold Semaphore_post_unfold Let_def

lemma wp_rcounted_pos: "wp_inv l ph \<Longrightarrow> wp_rcounted (ph t) \<Longrightarrow> 1 \<le> wp_readCount l"
  using tcount_pos [of Outside ph wp_rcounted t] wp_inv_facts(1,6) [of l ph] by simp

lemma wp_wcounted_pos: "wp_inv l ph \<Longrightarrow> wp_wcounted (ph t) \<Longrightarrow> 1 \<le> wp_writeCount l"
  using tcount_pos [of Outside ph wp_wcounted t] wp_inv_facts(1,7) [of l ph] by simp

lemma wp_counts_nonneg: "wp_inv l ph \<Longrightarrow> 0 \<le> wp_readCount l \<and> 0 \<le> wp_writeCount l"
  using wp_inv_facts(6,7) [of l ph] by simp

text \<open>The binary semaphores stay binary, so no \<open>post\<close> overflows.\<close>

lemma wp_rfirst_point: "wp_rfirst x \<Longrightarrow> x = InReadLock (WpRL_wrt 1)"
  by (auto split: phase.splits wp_point.splits)

lemma wp_wfirst_point: "wp_wfirst x \<Longrightarrow> x = InWriteLock (WpWL_rsem 1)"
  by (auto split: phase.splits wp_point.splits)

lemma wp_rfirst_le:
  assumes inv: "wp_inv l ph"
  shows "int (tcount wp_rfirst ph) \<le> of_bool (0 < wp_readCount l)"
proof (cases "tcount wp_rfirst ph = 0")
  case False
  then have "1 \<le> tcount wp_rfirst ph" by simp
  then obtain t where "wp_rfirst (ph t)" by (rule tcount_obtain)
  then have t: "ph t = InReadLock (WpRL_wrt 1)" by (rule wp_rfirst_point)
  have "wp_rfirst x \<Longrightarrow> wp_in_mutex1 x" for x by (drule wp_rfirst_point) simp
  then have "tcount wp_rfirst ph \<le> tcount wp_in_mutex1 ph"
    by (intro tcount_mono [OF wp_inv_facts(1) [OF inv]]) auto
  then have "int (tcount wp_rfirst ph) \<le> 1" using wp_inv_facts(3) [OF inv] by linarith
  then show ?thesis using wp_local_at [OF inv, of t] t by simp
qed simp

lemma wp_wfirst_le:
  assumes inv: "wp_inv l ph"
  shows "int (tcount wp_wfirst ph) \<le> of_bool (0 < wp_writeCount l)"
proof (cases "tcount wp_wfirst ph = 0")
  case False
  then have "1 \<le> tcount wp_wfirst ph" by simp
  then obtain t where "wp_wfirst (ph t)" by (rule tcount_obtain)
  then have t: "ph t = InWriteLock (WpWL_rsem 1)" by (rule wp_wfirst_point)
  have "wp_wfirst x \<Longrightarrow> wp_in_mutex2 x" for x by (drule wp_wfirst_point) simp
  then have "tcount wp_wfirst ph \<le> tcount wp_in_mutex2 ph"
    by (intro tcount_mono [OF wp_inv_facts(1) [OF inv]]) auto
  then have "int (tcount wp_wfirst ph) \<le> 1" using wp_inv_facts(4) [OF inv] by linarith
  then show ?thesis using wp_local_at [OF inv, of t] t by simp
qed simp

lemma wp_sem_le:
  assumes "wp_inv l ph"
  shows "sem_count (wp_mutex1 l) \<le> 1" "sem_count (wp_mutex2 l) \<le> 1" "sem_count (wp_readTry l) \<le> 1"
    "sem_count (wp_rsem l) \<le> 1" "sem_count (wp_wrt l) \<le> 1"
  using wp_inv_facts(3-5,8,9) [OF assms] wp_rfirst_le [OF assms] wp_wfirst_le [OF assms]
  by linarith+

lemma wp_owner_le: "wp_inv l ph \<Longrightarrow> tcount wp_owner ph \<le> 1"
  using wp_rfirst_le [of l ph] wp_inv_facts(9) [of l ph] by linarith

lemma wp_flagged_owner: "wp_flagged x \<Longrightarrow> wp_owner x"
  by (auto split: phase.splits wp_point.splits)

lemma wp_flag_owner:
  assumes inv: "wp_inv l ph" and t: "wp_owner (ph t)"
  shows "wp_writerActive l \<longleftrightarrow> wp_flagged (ph t)"
proof -
  note fin = wp_inv_facts(1) [OF inv]
  have "u = t" if "wp_flagged (ph u)" for u
    by (rule tcount_unique [OF fin _ wp_owner_le [OF inv] wp_flagged_owner [OF that] t]) simp
  then have "(\<exists>u. wp_flagged (ph u)) \<longleftrightarrow> wp_flagged (ph t)" by (auto simp del: wp_flagged_def)
  moreover have "wp_writerActive l \<longleftrightarrow> tcount wp_flagged ph \<noteq> 0"
    using wp_inv_facts(10) [OF inv] by (cases "wp_writerActive l") auto
  ultimately show ?thesis using tcount_eq_0 [OF fin, of wp_flagged]
    by (auto simp del: wp_flagged_def simp: wp_flagged_def [of Outside])
qed

section \<open>Every action keeps the invariant\<close>

lemma wp_readLock_inv:
  assumes inv: "wp_inv l ph" and ph: "ph t = InReadLock p"
    and step: "wp_readLock p t w (l, c) = Done (l', c', r)"
  shows "wp_inv l' (ph(t := resume InReadLock Reading r))"
  using step wp_inv_facts(2) [OF inv] wp_local_at [OF inv, of t] wp_counts_nonneg [OF inv]
  by (cases p)
     (auto simp: ph wp_step_simps split: if_splits intro!: wp_inv_move [OF inv])

lemma wp_readUnlock_inv:
  assumes inv: "wp_inv l ph" and ph: "ph t = InReadUnlock p"
    and step: "wp_readUnlock p t w (l, c) = Done (l', c', r)"
  shows "wp_inv l' (ph(t := resume InReadUnlock Outside r))"
  using step wp_inv_facts(2) [OF inv] wp_local_at [OF inv, of t] wp_rcounted_pos [OF inv, of t]
  by (cases p)
     (auto simp: ph wp_step_simps split: if_splits intro!: wp_inv_move [OF inv])

lemma wp_writeLock_inv:
  assumes inv: "wp_inv l ph" and ph: "ph t = InWriteLock p"
    and step: "wp_writeLock p t w (l, c) = Done (l', c', r)"
  shows "wp_inv l' (ph(t := resume InWriteLock Writing r))"
  using step wp_inv_facts(2) [OF inv] wp_local_at [OF inv, of t] wp_counts_nonneg [OF inv]
    wp_flag_owner [OF inv, of t]
  by (cases p)
     (auto simp: ph wp_step_simps split: if_splits intro!: wp_inv_move [OF inv])

lemma wp_writeUnlock_inv:
  assumes inv: "wp_inv l ph" and ph: "ph t = InWriteUnlock p"
    and step: "wp_writeUnlock p t w (l, c) = Done (l', c', r)"
  shows "wp_inv l' (ph(t := resume InWriteUnlock Outside r))"
  using step wp_inv_facts(2) [OF inv] wp_local_at [OF inv, of t] wp_wcounted_pos [OF inv, of t]
    wp_flag_owner [OF inv, of t]
  by (cases p)
     (auto simp: ph wp_step_simps split: if_splits intro!: wp_inv_move [OF inv])

lemma wp_call_inv:
  assumes inv: "wp_inv l ph"
  shows "ph t = Outside \<Longrightarrow> wp_inv l (ph(t := InReadLock WpRL_waiting))"
    and "ph t = Reading \<Longrightarrow> wp_inv l (ph(t := InReadUnlock WpRU_mutex1_wait))"
    and "ph t = Outside \<Longrightarrow> wp_inv l (ph(t := InWriteLock WpWL_waiting))"
    and "ph t = Writing \<Longrightarrow> wp_inv l (ph(t := InWriteUnlock WpWU_store))"
  using wp_inv_facts(2) [OF inv] by (auto intro!: wp_inv_move [OF inv])

lemma wp_no_throw:
  assumes inv: "wp_inv l ph"
  shows "wp_readLock p t w (l, c) \<noteq> Threw e" "wp_readUnlock p t w (l, c) \<noteq> Threw e"
    "wp_writeLock p t w (l, c) \<noteq> Threw e" "wp_writeUnlock p t w (l, c) \<noteq> Threw e"
  using wp_inv_facts(2) [OF inv] wp_sem_le [OF inv]
  by (cases p; auto simp: wp_step_simps SEM_VALUE_MAX_def)+

lemma wp_excl:
  assumes inv: "wp_inv l ph" and t: "ph t = Writing" and u: "u \<noteq> t"
  shows "ph u \<noteq> Writing \<and> ph u \<noteq> Reading"
proof -
  note fin = wp_inv_facts(1) [OF inv]
  have own: "1 \<le> tcount wp_owner ph"
    using tcount_pos [OF fin, of wp_owner t] t by simp
  have "ph u \<noteq> Writing"
    using tcount_unique [OF fin, of wp_owner t u] wp_owner_le [OF inv] t u by auto
  moreover have "ph u \<noteq> Reading"
  proof
    assume r: "ph u = Reading"
    then have "0 < wp_readCount l" using wp_rcounted_pos [OF inv, of u] by simp
    then have "1 \<le> tcount wp_rfirst ph"
      using wp_inv_facts(9) [OF inv] own by simp
    then obtain v where "wp_rfirst (ph v)" by (rule tcount_obtain)
    then have v: "ph v = InReadLock (WpRL_wrt 1)" by (rule wp_rfirst_point)
    then have "wp_readCount l = 1" using wp_local_at [OF inv, of v] by simp
    moreover have "2 \<le> tcount wp_rcounted ph"
      using tcount_two [OF fin, of wp_rcounted u v] r v by (cases "u = v") auto
    ultimately show False using wp_inv_facts(6) [OF inv] by simp
  qed
  ultimately show ?thesis by simp
qed

section \<open>Progress\<close>

fun wp_rank :: "wp_point \<Rightarrow> nat" where
  "wp_rank WpRL_waiting = 9" | "wp_rank WpRL_readTry_wait = 8" | "wp_rank WpRL_rsem_wait = 7"
| "wp_rank WpRL_mutex1_wait = 6" | "wp_rank WpRL_incr = 5" | "wp_rank (WpRL_wrt rc) = 4"
| "wp_rank (WpRL_mutex1_post rc) = 3" | "wp_rank (WpRL_rsem_post rc) = 2"
| "wp_rank (WpRL_readTry_post rc) = 1" | "wp_rank (WpRL_active rc) = 0"
| "wp_rank WpRU_mutex1_wait = 4" | "wp_rank WpRU_decr = 3" | "wp_rank (WpRU_wrt rc) = 2"
| "wp_rank (WpRU_mutex1_post rc) = 1" | "wp_rank (WpRU_releasing rc) = 0"
| "wp_rank WpWL_waiting = 7" | "wp_rank WpWL_mutex2_wait = 6" | "wp_rank WpWL_incr = 5"
| "wp_rank (WpWL_rsem wc) = 4" | "wp_rank WpWL_mutex2_post = 3" | "wp_rank WpWL_wrt_wait = 2"
| "wp_rank WpWL_store = 1" | "wp_rank WpWL_active = 0"
| "wp_rank WpWU_store = 6" | "wp_rank WpWU_wrt_post = 5" | "wp_rank WpWU_mutex2_wait = 4"
| "wp_rank WpWU_decr = 3" | "wp_rank (WpWU_rsem wc) = 2" | "wp_rank WpWU_mutex2_post = 1"
| "wp_rank WpWU_releasing = 0"

lemma wp_rank_decreases:
  "wp_readLock p t w (l, c) = Done (l', c', Some p') \<Longrightarrow> wp_rank p' < wp_rank p"
  "wp_readUnlock p t w (l, c) = Done (l', c', Some p') \<Longrightarrow> wp_rank p' < wp_rank p"
  "wp_writeLock p t w (l, c) = Done (l', c', Some p') \<Longrightarrow> wp_rank p' < wp_rank p"
  "wp_writeUnlock p t w (l, c) = Done (l', c', Some p') \<Longrightarrow> wp_rank p' < wp_rank p"
  by (cases p; auto simp: outcome_simps Let_def split: if_splits)+

text \<open>The five places an action can block, by the semaphore it waits for.\<close>

definition wp_sleeps :: "wp_lock \<Rightarrow> wp_point phase \<Rightarrow> bool" where
  "wp_sleeps l x \<longleftrightarrow> (case x of
       InReadLock p \<Rightarrow> (case p of
           WpRL_readTry_wait \<Rightarrow> sem_count (wp_readTry l) = 0
         | WpRL_rsem_wait \<Rightarrow> sem_count (wp_rsem l) = 0
         | WpRL_mutex1_wait \<Rightarrow> sem_count (wp_mutex1 l) = 0
         | WpRL_wrt rc \<Rightarrow> rc = 1 \<and> sem_count (wp_wrt l) = 0
         | _ \<Rightarrow> False)
     | InReadUnlock p \<Rightarrow> (case p of
           WpRU_mutex1_wait \<Rightarrow> sem_count (wp_mutex1 l) = 0 | _ \<Rightarrow> False)
     | InWriteLock p \<Rightarrow> (case p of
           WpWL_mutex2_wait \<Rightarrow> sem_count (wp_mutex2 l) = 0
         | WpWL_rsem wc \<Rightarrow> wc = 1 \<and> sem_count (wp_rsem l) = 0
         | WpWL_wrt_wait \<Rightarrow> sem_count (wp_wrt l) = 0
         | _ \<Rightarrow> False)
     | InWriteUnlock p \<Rightarrow> (case p of
           WpWU_mutex2_wait \<Rightarrow> sem_count (wp_mutex2 l) = 0 | _ \<Rightarrow> False)
     | _ \<Rightarrow> False)"

lemma wp_can_act:
  assumes inv: "wp_inv (shared s) (phase s)" and "in_call (phase s t)"
    and "\<not> wp_sleeps (shared s) (phase s t)"
  shows "\<exists>s'. advance wp_class t w s = Done s'"
  using assms(2-) wp_inv_facts(2) [OF inv] wp_sem_le [OF inv] wp_placed_at [OF inv, of t]
  by (cases "phase s t")
     (auto simp: advance_def run_method_def wp_step_simps wp_sleeps_def SEM_VALUE_MAX_def
       split: wp_point.splits)

lemma wp_not_stuck:
  assumes inv: "wp_inv (shared s) (phase s)" and call: "in_call (phase s t)"
    and idle: "\<forall>u. phase s u \<noteq> Reading \<and> phase s u \<noteq> Writing"
  shows "\<exists>u w s'. advance wp_class u w s = Done s'"
proof (rule ccontr)
  assume "\<not> ?thesis"
  then have stuck: "in_call (phase s u) \<Longrightarrow> wp_sleeps (shared s) (phase s u)" for u
    using wp_can_act [OF inv, of u] by blast
  note fin = wp_inv_facts(1) [OF inv]
  define l where "l = shared s"
  have none: "tcount P (phase s) = 0"
    if "\<And>u. P (phase s u) \<Longrightarrow> phase s u \<noteq> Reading \<Longrightarrow> phase s u \<noteq> Writing \<Longrightarrow>
          in_call (phase s u) \<and> \<not> wp_sleeps l (phase s u)" for P
  proof (rule ccontr)
    assume "tcount P (phase s) \<noteq> 0"
    then have "1 \<le> tcount P (phase s)" by simp
    then obtain u where "P (phase s u)" by (rule tcount_obtain)
    with that [of u] idle stuck [of u] show False by (simp add: l_def)
  qed
  note split = phase.splits wp_point.splits
  have owner: "tcount wp_owner (phase s) = 0"
    by (rule none) (auto simp: wp_sleeps_def split: split)
  have rlast: "tcount wp_rlast (phase s) = 0"
    by (rule none) (auto simp: wp_sleeps_def split: split)
  have wlast: "tcount wp_wlast (phase s) = 0"
    by (rule none) (auto simp: wp_sleeps_def split: split)
  have no_rfirst: "phase s u \<noteq> InReadLock (WpRL_wrt 1)" if "tcount wp_rfirst (phase s) = 0" for u
    using that tcount_eq_0 [OF fin, of wp_rfirst] by (auto dest: spec [of _ u])
  have no_wfirst: "phase s u \<noteq> InWriteLock (WpWL_rsem 1)" if "tcount wp_wfirst (phase s) = 0" for u
    using that tcount_eq_0 [OF fin, of wp_wfirst] by (auto dest: spec [of _ u])
  have wrt: "sem_count (wp_wrt l) \<noteq> 0"
  proof
    assume "sem_count (wp_wrt l) = 0"
    then have n: "0 < wp_readCount l" and f: "tcount wp_rfirst (phase s) = 0"
      using wp_inv_facts(9) [OF inv] owner rlast by (auto simp: l_def of_bool_def split: if_splits)
    have "tcount wp_in_mutex1 (phase s) = 0"
      by (rule none) (use no_rfirst [OF f] in \<open>auto simp: wp_sleeps_def split: split\<close>)
    then have m: "sem_count (wp_mutex1 l) \<noteq> 0"
      using wp_inv_facts(3) [OF inv] by (simp add: l_def)
    have "tcount wp_rcounted (phase s) = 0"
      by (rule none) (use no_rfirst [OF f] m in \<open>auto simp: wp_sleeps_def split: split\<close>)
    then show False using n wp_inv_facts(6) [OF inv] by (simp add: l_def)
  qed
  have "tcount wp_in_mutex1 (phase s) = 0"
    by (rule none) (use wrt in \<open>auto simp: wp_sleeps_def split: split\<close>)
  then have mutex1: "sem_count (wp_mutex1 l) \<noteq> 0"
    using wp_inv_facts(3) [OF inv] by (simp add: l_def)
  have in_rsem: "tcount wp_in_rsem (phase s) = 0"
    by (rule none) (use wrt mutex1 in \<open>auto simp: wp_sleeps_def split: split\<close>)
  have rsem: "sem_count (wp_rsem l) \<noteq> 0"
  proof
    assume "sem_count (wp_rsem l) = 0"
    then have n: "0 < wp_writeCount l" and f: "tcount wp_wfirst (phase s) = 0"
      using wp_inv_facts(8) [OF inv] in_rsem wlast by (auto simp: l_def of_bool_def split: if_splits)
    have "tcount wp_in_mutex2 (phase s) = 0"
      by (rule none) (use no_wfirst [OF f] in \<open>auto simp: wp_sleeps_def split: split\<close>)
    then have m: "sem_count (wp_mutex2 l) \<noteq> 0"
      using wp_inv_facts(4) [OF inv] by (simp add: l_def)
    have "tcount wp_wcounted (phase s) = 0"
      by (rule none) (use no_wfirst [OF f] wrt m in \<open>auto simp: wp_sleeps_def split: split\<close>)
    then show False using n wp_inv_facts(7) [OF inv] by (simp add: l_def)
  qed
  have "tcount wp_in_mutex2 (phase s) = 0"
    by (rule none) (use rsem in \<open>auto simp: wp_sleeps_def split: split\<close>)
  then have mutex2: "sem_count (wp_mutex2 l) \<noteq> 0"
    using wp_inv_facts(4) [OF inv] by (simp add: l_def)
  have "tcount wp_in_readTry (phase s) = 0"
    by (rule none) (use wrt mutex1 rsem in \<open>auto simp: wp_sleeps_def split: split\<close>)
  then have "sem_count (wp_readTry l) \<noteq> 0"
    using wp_inv_facts(5) [OF inv] by (simp add: l_def)
  with wrt mutex1 rsem mutex2 have "\<not> wp_sleeps l (phase s t)"
    by (auto simp: wp_sleeps_def split: split)
  with stuck [OF call] show False by (simp add: l_def)
qed

interpretation wp: live_rw_lock wp_class WriterPriorityLock wp_inv wp_rank
proof unfold_locales
  fix s :: "(wp_lock, wp_point) lsys" and t
  show "wp_inv (shared s) (phase s) \<Longrightarrow> in_call (phase s t) \<Longrightarrow>
      \<forall>u. phase s u \<noteq> Reading \<and> phase s u \<noteq> Writing \<Longrightarrow> \<exists>u w s'. advance wp_class u w s = Done s'"
    by (rule wp_not_stuck)
qed (auto intro: wp_inv_facts(1) wp_init wp_call_inv wp_readLock_inv wp_readUnlock_inv
       wp_writeLock_inv wp_writeUnlock_inv wp_rank_decreases dest: wp_no_throw wp_excl)

section \<open>What the algorithm promises\<close>

abbreviation wp_start :: "(wp_lock, wp_point) lsys" where
  "wp_start \<equiv> lock_start WriterPriorityLock"

abbreviation wp_reachable :: "(wp_lock, wp_point) lsys \<Rightarrow> bool" where
  "wp_reachable \<equiv> reachable wp_start (lock_step wp_class)"

lemmas wp_run_simps = lock_start_def WriterPriorityLock_def binary_semaphore_def advance_def
  run_method_def Semaphore_wait_unfold Semaphore_post_unfold Let_def SEM_VALUE_MAX_def

lemma wp_run_reachable: "sched_run wp_class es wp_start = Done s \<Longrightarrow> wp_reachable s"
  by (rule sched_run_reachable [OF _ reachable_init])

lemma wp_lock_work_le: "wp_placed x \<Longrightarrow> lock_work wp_class wp_rank x \<le> 16"
  by (cases x) (auto simp: lock_work_simps split: wp_point.splits)

text \<open>Reader 4 reads, writer 1 has closed the gate and waits for it, reader 2 queues at the gate.\<close>

definition wp_demo_gate :: "sched_event list" where
  "wp_demo_gate =
     [CallReadLock 4, Act 4, Act 4, Act 4, Act 4, Act 4, Act 4, Act 4, Act 4, Act 4, Act 4,
      CallWriteLock 1, Act 1, Act 1, Act 1, Act 1, Act 1,
      CallReadLock 2, Act 2, Act 2]"

text \<open>Then reader 4 leaves and writer 1 enters.\<close>

definition wp_demo_writer :: "sched_event list" where
  "wp_demo_writer =
     [CallReadUnlock 4, Act 4, Act 4, Act 4, Act 4, Act 4, Act 1, Act 1, Act 1]"

lemma wp_demo_gate_run:
  "\<exists>s. sched_run wp_class wp_demo_gate wp_start = Done s
     \<and> phase s 1 = InWriteLock WpWL_wrt_wait \<and> phase s 2 = InReadLock WpRL_rsem_wait
     \<and> phase s 4 = Reading"
  by (simp add: wp_demo_gate_def wp_run_simps)

lemma wp_demo_writer_run:
  "\<exists>s s'. sched_run wp_class wp_demo_gate wp_start = Done s
     \<and> sched_run wp_class wp_demo_writer s = Done s'
     \<and> phase s 1 = InWriteLock WpWL_wrt_wait
     \<and> phase s' 1 = Writing \<and> phase s' 2 = InReadLock WpRL_rsem_wait"
proof -
  have "\<exists>s'. sched_run wp_class (wp_demo_gate @ wp_demo_writer) wp_start = Done s'
     \<and> phase s' 1 = Writing \<and> phase s' 2 = InReadLock WpRL_rsem_wait"
    by (simp add: wp_demo_gate_def wp_demo_writer_def wp_run_simps)
  with wp_demo_gate_run show ?thesis by (auto simp: sched_run_append)
qed

text \<open>
  C2: Mutual exclusion of \<open>WriterPriorityLock\<close>, for any number of threads and any interleaving of their
  atomic actions: while a thread writes, no other thread writes or reads.
\<close>

theorem wp_mutual_exclusion:
  assumes "reachable (lock_start WriterPriorityLock) (lock_step wp_class) s"
    and "phase s t = Writing" and "u \<noteq> t"
  shows "phase s u \<noteq> Writing \<and> phase s u \<noteq> Reading"
  using assms by (rule wp.mutual_exclusion)

lemma wp_mutual_exclusion_witness:
  "\<exists>s. sched_run wp_class (wp_demo_gate @ wp_demo_writer) wp_start = Done s
     \<and> phase s 2 \<noteq> Writing \<and> phase s 2 \<noteq> Reading"
proof -
  obtain s where s: "sched_run wp_class (wp_demo_gate @ wp_demo_writer) wp_start = Done s"
    "phase s 1 = Writing" using wp_demo_writer_run by (auto simp: sched_run_append)
  from wp_mutual_exclusion [OF wp_run_reachable [OF s(1)] s(2), of 2] s(1) show ?thesis by simp
qed

text \<open>
  Every call on \<open>WriterPriorityLock\<close> finishes: once no new request starts, every interleaving has at
  most 16 actions per thread that is not outside, and it can only stop when all threads are outside.
  The five semaphores cannot deadlock.
\<close>

lemma wp_calls_finish:
  assumes "reachable (lock_start WriterPriorityLock) (lock_step wp_class) s"
    and "sched_run wp_class es s = Done s'" and "\<forall>e \<in> set es. \<not> starts_request e"
  shows "length es \<le> 16 * card {t. phase s t \<noteq> Outside}
       \<and> ((\<exists>t. phase s' t \<noteq> Outside)
            \<longrightarrow> (\<exists>e s''. \<not> starts_request e \<and> sched_do wp_class e s' = Done s''))"
  using wp.calls_finish [OF assms] tsum_le [of "lock_work wp_class wp_rank" "phase s" 16 Outside]
    wp_lock_work_le [OF wp_placed_at [OF wp.inv_reachable [OF assms(1)]]] by auto

text \<open>
  No method of \<open>WriterPriorityLock\<close> throws: in every reachable state the five semaphores hold at
  most one unit each, and no action of any thread raises a \<open>system_error\<close>.
\<close>

lemma wp_never_throws:
  assumes "reachable (lock_start WriterPriorityLock) (lock_step wp_class) s"
  shows "sem_count (wp_mutex1 (shared s)) \<le> 1 \<and> sem_count (wp_mutex2 (shared s)) \<le> 1
       \<and> sem_count (wp_readTry (shared s)) \<le> 1 \<and> sem_count (wp_rsem (shared s)) \<le> 1
       \<and> sem_count (wp_wrt (shared s)) \<le> 1 \<and> advance wp_class t w s \<noteq> Threw e"
  using wp.never_throws [OF assms] wp_sem_le [OF wp.inv_reachable [OF assms]] by blast

subsection \<open>Writer priority\<close>

text \<open>A writer that is registered: past the statement that closes the readers' gate.\<close>

fun wp_registered :: "wp_point phase \<Rightarrow> bool" where
  "wp_registered (InWriteLock p) \<longleftrightarrow>
     p = WpWL_mutex2_post \<or> p = WpWL_wrt_wait \<or> p = WpWL_store \<or> p = WpWL_active"
| "wp_registered Writing \<longleftrightarrow> True"
| "wp_registered _ \<longleftrightarrow> False"

text \<open>A reader that is past the gate and has not begun to leave.\<close>

fun wp_admitted :: "wp_point phase \<Rightarrow> bool" where
  "wp_admitted (InReadLock p) \<longleftrightarrow> (\<exists>rc. p = WpRL_readTry_post rc \<or> p = WpRL_active rc)"
| "wp_admitted Reading \<longleftrightarrow> True"
| "wp_admitted _ \<longleftrightarrow> False"

lemma wp_gate:
  assumes inv: "wp_inv l ph" and v: "wp_registered (ph v)"
  shows "sem_count (wp_rsem l) = 0" and "\<not> wp_in_rsem (ph t)"
proof -
  note fin = wp_inv_facts(1) [OF inv]
  have c: "wp_wcounted (ph v)" and nf: "\<not> wp_wfirst (ph v)"
    using v by (cases "ph v" rule: wp_registered.cases; auto)+
  have "tcount wp_wfirst ph = 0"
  proof (rule ccontr)
    assume "tcount wp_wfirst ph \<noteq> 0"
    then have "1 \<le> tcount wp_wfirst ph" by simp
    then obtain u where "wp_wfirst (ph u)" by (rule tcount_obtain)
    then have u: "ph u = InWriteLock (WpWL_rsem 1)" by (rule wp_wfirst_point)
    then have "2 \<le> tcount wp_wcounted ph"
      using tcount_two [OF fin, of wp_wcounted u v] c nf by (cases "u = v") auto
    then show False using wp_local_at [OF inv, of u] u wp_inv_facts(7) [OF inv] by simp
  qed
  then have "sem_count (wp_rsem l) = 0 \<and> tcount wp_in_rsem ph = 0"
    using wp_inv_facts(8) [OF inv] wp_wcounted_pos [OF inv c] by simp
  then show "sem_count (wp_rsem l) = 0" and "\<not> wp_in_rsem (ph t)"
    using tcount_eq_0 [OF fin, of wp_in_rsem] by (auto simp del: wp_in_rsem_def simp: wp_in_rsem_def [of Outside])
qed

lemma wp_gate_keeps:
  assumes inv: "wp_inv (shared s) (phase s)" and v: "wp_registered (phase s v)"
    and step: "sched_do wp_class e s = Done s'" and e: "e \<noteq> CallWriteUnlock v"
  shows "wp_registered (phase s' v) \<and> (wp_admitted (phase s' t) \<longrightarrow> wp_admitted (phase s t))"
proof -
  have "wp_registered (phase s' v) \<and> (wp_admitted (phase s' t) \<longrightarrow> wp_admitted (phase s t))"
    if "advance wp_class u w s = Done s'" for u w
    using that
  proof (cases rule: advance_cases)
    case (readLock p l c r)
    with v wp_gate(2) [OF inv v, of u] show ?thesis
      by (cases p) (auto simp: wp_step_simps split: if_splits)
  next
    case (readUnlock p l c r)
    with v show ?thesis by (cases p) (auto simp: wp_step_simps split: if_splits)
  next
    case (writeLock p l c r)
    with v show ?thesis by (cases p) (auto simp: wp_step_simps split: if_splits)
  next
    case (writeUnlock p l c r)
    with v show ?thesis by (cases p) (auto simp: wp_step_simps split: if_splits)
  qed
  with v step e show ?thesis by (cases e) (auto split: phase.splits if_splits)
qed

lemma wp_gate_keeps_run:
  "sched_run wp_class es s = Done s' \<Longrightarrow> wp_inv (shared s) (phase s) \<Longrightarrow> wp_registered (phase s v) \<Longrightarrow>
     CallWriteUnlock v \<notin> set es \<Longrightarrow>
     wp_registered (phase s' v) \<and> (wp_admitted (phase s' t) \<longrightarrow> wp_admitted (phase s t))"
proof (induction es arbitrary: s)
  case (Cons e es)
  then obtain s1 where s1: "sched_do wp_class e s = Done s1" "sched_run wp_class es s1 = Done s'"
    by (auto simp: outcome_simps)
  have inv: "wp_inv (shared s1) (phase s1)"
    by (rule wp.inv_lock_step [OF sched_do_step [OF s1(1)] Cons.prems(2)])
  have e: "e \<noteq> CallWriteUnlock v" "CallWriteUnlock v \<notin> set es" using Cons.prems(4) by auto
  note step = wp_gate_keeps [OF Cons.prems(2,3) s1(1) e(1)]
  show ?case
    using Cons.IH [OF s1(2) inv _ e(2)] step [of t] by blast
qed simp

text \<open>
  C19: Writer priority: once a writer is registered (it has closed \<open>rsem_\<close> as the first of its group, or
  joined a group that had), no further reader is admitted until that writer calls \<open>writeUnlock\<close>.
  Whatever the threads do meanwhile, every reader that holds the lock was admitted before.
\<close>

theorem wp_no_reader_passes_writer:
  assumes "reachable (lock_start WriterPriorityLock) (lock_step wp_class) s"
    and "wp_registered (phase s v)" and "sched_run wp_class es s = Done s'"
    and "CallWriteUnlock v \<notin> set es"
  shows "wp_registered (phase s' v) \<and> (\<forall>t. phase s' t = Reading \<longrightarrow> wp_admitted (phase s t))"
  using wp_gate_keeps_run [OF assms(3) wp.inv_reachable [OF assms(1)] assms(2,4)] by fastforce

lemma wp_no_reader_passes_writer_witness:
  "\<exists>s s'. sched_run wp_class wp_demo_gate wp_start = Done s
     \<and> sched_run wp_class wp_demo_writer s = Done s'
     \<and> wp_registered (phase s' 1) \<and> (\<forall>t. phase s' t = Reading \<longrightarrow> wp_admitted (phase s t))"
proof -
  obtain s s' where s: "sched_run wp_class wp_demo_gate wp_start = Done s"
    "sched_run wp_class wp_demo_writer s = Done s'" "phase s 1 = InWriteLock WpWL_wrt_wait"
    using wp_demo_writer_run by blast
  have v: "wp_registered (phase s 1)" unfolding s(3) by simp
  have "CallWriteUnlock 1 \<notin> set wp_demo_writer" by (simp add: wp_demo_writer_def)
  from wp_no_reader_passes_writer [OF wp_run_reachable [OF s(1)] v s(2) this] s(1,2)
  show ?thesis by blast
qed

subsection \<open>Readers can starve\<close>

text \<open>Writers 2 and 3 hand the lock to each other while reader 1 queues at the gate.\<close>

definition wp_starve_prefix :: "sched_event list" where
  "wp_starve_prefix =
     [CallWriteLock 2, Act 2, Act 2, Act 2, Act 2, Act 2, Act 2, Act 2, Act 2,
      CallReadLock 1, Act 1, Act 1]"

definition wp_queue :: "tid \<Rightarrow> sched_event list" where
  "wp_queue t = [CallWriteLock t, Act t, Act t, Act t, Act t, Act t]"

definition wp_handover :: "tid \<Rightarrow> tid \<Rightarrow> sched_event list" where
  "wp_handover t u =
     [CallWriteUnlock t, Act t, Act t, Act t, Act t, Act t, Act t, Act t, Act u, Act u, Act u]"

definition wp_starve_round :: "sched_event list" where
  "wp_starve_round = wp_queue 3 @ wp_handover 2 3 @ wp_queue 2 @ wp_handover 3 2"

definition wp_starve :: "nat \<Rightarrow> sched_event list" where
  "wp_starve n = wp_starve_prefix @ concat (replicate n wp_starve_round)"

definition wp_shut_out ::
    "int \<Rightarrow> wp_point phase \<Rightarrow> wp_point phase \<Rightarrow> (wp_lock, wp_point) lsys \<Rightarrow> bool" where
  "wp_shut_out n x y s \<longleftrightarrow>
     phase s 1 = InReadLock WpRL_rsem_wait \<and> phase s 2 = x \<and> phase s 3 = y
   \<and> sem_live (wp_mutex2 (shared s)) \<and> sem_count (wp_mutex2 (shared s)) = 1
   \<and> sem_live (wp_rsem (shared s)) \<and> sem_count (wp_rsem (shared s)) = 0
   \<and> sem_live (wp_wrt (shared s)) \<and> sem_count (wp_wrt (shared s)) = 0
   \<and> wp_writeCount (shared s) = n"

abbreviation wp_starving :: "(wp_lock, wp_point) lsys \<Rightarrow> bool" where
  "wp_starving \<equiv> wp_shut_out 1 Writing Outside"

lemma wp_starve_prefix_run:
  "\<exists>s. sched_run wp_class wp_starve_prefix wp_start = Done s \<and> wp_starving s"
  by (simp add: wp_starve_prefix_def wp_shut_out_def wp_run_simps)

lemma wp_queue_run:
  "wp_shut_out 1 Writing Outside s \<Longrightarrow> \<exists>s'. sched_run wp_class (wp_queue 3) s = Done s'
     \<and> wp_shut_out 2 Writing (InWriteLock WpWL_wrt_wait) s'"
  "wp_shut_out 1 Outside Writing s \<Longrightarrow> \<exists>s'. sched_run wp_class (wp_queue 2) s = Done s'
     \<and> wp_shut_out 2 (InWriteLock WpWL_wrt_wait) Writing s'"
  by (simp_all add: wp_queue_def wp_shut_out_def wp_run_simps)

lemma wp_handover_run:
  "wp_shut_out 2 Writing (InWriteLock WpWL_wrt_wait) s \<Longrightarrow>
     \<exists>s'. sched_run wp_class (wp_handover 2 3) s = Done s' \<and> wp_shut_out 1 Outside Writing s'"
  "wp_shut_out 2 (InWriteLock WpWL_wrt_wait) Writing s \<Longrightarrow>
     \<exists>s'. sched_run wp_class (wp_handover 3 2) s = Done s' \<and> wp_shut_out 1 Writing Outside s'"
  by (simp_all add: wp_handover_def wp_shut_out_def wp_run_simps)

lemma wp_starve_round_run:
  "wp_starving s \<Longrightarrow> \<exists>s'. sched_run wp_class wp_starve_round s = Done s' \<and> wp_starving s'"
  unfolding wp_starve_round_def sched_run_append bind_outcome_Done_iff
  using wp_queue_run wp_handover_run by metis

lemma wp_starve_rounds_run:
  "wp_starving s \<Longrightarrow>
     \<exists>s'. sched_run wp_class (concat (replicate n wp_starve_round)) s = Done s' \<and> wp_starving s'"
proof (induction n arbitrary: s)
  case (Suc n)
  then show ?case using wp_starve_round_run [of s] by (auto simp: sched_run_append)
qed simp

text \<open>
  Readers can starve under \<open>WriterPriorityLock\<close>: for every \<open>n\<close> there is an interleaving in which a
  reader that asked for the lock sleeps in \<open>rsem_.wait()\<close> throughout \<open>2 * n\<close> later write requests, all
  of them granted, and still cannot move at the end.
\<close>

lemma wp_reader_starves:
  "\<exists>s. sched_run wp_class (wp_starve n) (lock_start WriterPriorityLock) = Done s
     \<and> phase s 1 = InReadLock WpRL_rsem_wait \<and> advance wp_class 1 w s = Blocked
     \<and> length (filter (\<lambda>e. \<exists>t. e = CallWriteUnlock t) (wp_starve n)) = 2 * n"
proof -
  obtain s1 where s1: "sched_run wp_class wp_starve_prefix wp_start = Done s1" "wp_starving s1"
    using wp_starve_prefix_run by blast
  obtain s where s: "sched_run wp_class (concat (replicate n wp_starve_round)) s1 = Done s"
    "wp_starving s" using wp_starve_rounds_run [OF s1(2)] by blast
  have "sched_run wp_class (wp_starve n) wp_start = Done s"
    using s1 s by (simp add: wp_starve_def sched_run_append)
  moreover have "advance wp_class 1 w s = Blocked"
    using s(2) by (simp add: wp_shut_out_def advance_def run_method_def Semaphore_wait_unfold)
  moreover have "length (filter (\<lambda>e. \<exists>t. e = CallWriteUnlock t) (concat (replicate m wp_starve_round)))
      = 2 * m"
    for m by (induction m) (simp_all add: wp_starve_round_def wp_queue_def wp_handover_def)
  then have "length (filter (\<lambda>e. \<exists>t. e = CallWriteUnlock t) (wp_starve n)) = 2 * n"
    by (simp add: wp_starve_def wp_starve_prefix_def)
  ultimately show ?thesis using s(2) unfolding wp_shut_out_def by blast
qed

end
