(* ===== verification/Fair_Morris.thy ===== *)
theory Fair_Morris
  imports Lock_Base
begin

text \<open>
  \<open>include/fair_morris.hpp\<close> and \<open>src/fair_morris.cpp\<close>: one mutex and two condition variables.

  A pthread mutex is its owner, a condition variable the set of threads asleep on it.
  \<open>pthread_cond_wait\<close> is two actions: it releases the mutex and falls asleep in one, and returns,
  holding the mutex again, in the other.  A sleeper returns after a wakeup took it out of the set,
  or spuriously, which POSIX allows at any time.
\<close>

section \<open>Mutex and condition variables\<close>

type_synonym pthread_mutex = "tid option"
type_synonym pthread_cond = "tid set"

definition pthread_mutex_lock :: "tid \<Rightarrow> pthread_mutex \<Rightarrow> (errno, pthread_mutex) outcome" where
  "pthread_mutex_lock t m = (if m = None then Done (Some t) else Blocked)"

text \<open>\<open>pthread_cond_signal\<close> wakes one sleeper, chosen by the scheduler; nobody if none sleeps.\<close>

definition pthread_cond_signal :: "wakeup \<Rightarrow> pthread_cond \<Rightarrow> (errno, pthread_cond) outcome" where
  "pthread_cond_signal w W =
     (if W = {} then Done W
      else case w of Pick u \<Rightarrow> if u \<in> W then Done (W - {u}) else Blocked | Spurious \<Rightarrow> Blocked)"

definition pthread_cond_broadcast :: "pthread_cond \<Rightarrow> pthread_cond" where
  "pthread_cond_broadcast W = {}"

text \<open>May thread \<open>t\<close> return from its wait?\<close>

definition cond_woken :: "tid \<Rightarrow> wakeup \<Rightarrow> pthread_cond \<Rightarrow> bool" where
  "cond_woken t w W \<longleftrightarrow> t \<notin> W \<or> w = Spurious"

section \<open>The lock and its methods\<close>

record fa_lock =
  fa_mtx :: pthread_mutex
  fa_readCond :: pthread_cond
  fa_writeCond :: pthread_cond
  fa_activeReaders :: int
  fa_activeWriter :: bool
  fa_waitingReaders :: int
  fa_waitingWriters :: int
  fa_readerPhaseActive :: bool

datatype fa_point =
    FaRL_waiting | FaRL_lock | FaRL_test | FaRL_enqueue | FaRL_wait | FaRL_asleep | FaRL_dequeue
  | FaRL_fetch_add | FaRL_unlock int | FaRL_active int
  | FaRU_lock | FaRU_fetch_sub | FaRU_notify int | FaRU_unlock int | FaRU_releasing int
  | FaWL_waiting | FaWL_lock | FaWL_test | FaWL_enqueue | FaWL_wait | FaWL_asleep | FaWL_dequeue
  | FaWL_store | FaWL_unlock | FaWL_active
  | FaWU_lock | FaWU_store | FaWU_notify | FaWU_unlock | FaWU_releasing

definition FairMorrisLock :: fa_lock where
  "FairMorrisLock =
     \<lparr>fa_mtx = None, fa_readCond = {}, fa_writeCond = {}, fa_activeReaders = 0,
      fa_activeWriter = False, fa_waitingReaders = 0, fa_waitingWriters = 0,
      fa_readerPhaseActive = False\<rparr>"

fun fa_readLock :: "(fa_lock, fa_point) rw_method" where
  "fa_readLock FaRL_waiting t w (l, c) =
     Done (l, transitionWaiting ''Reader requesting lock (Morris FIFO)'' c, Some FaRL_lock)"
| "fa_readLock FaRL_lock t w (l, c) =
     bind_outcome (pthread_mutex_lock t (fa_mtx l))
       (\<lambda>m. Done (l\<lparr>fa_mtx := m\<rparr>, c, Some FaRL_test))"
| "fa_readLock FaRL_test t w (l, c) =
     (if fa_activeWriter l \<or> 0 < fa_waitingWriters l then Done (l, c, Some FaRL_enqueue)
      else Done (l, c, Some FaRL_fetch_add))"
| "fa_readLock FaRL_enqueue t w (l, c) =
     Done (l\<lparr>fa_waitingReaders := fa_waitingReaders l + 1\<rparr>, c, Some FaRL_wait)"
| "fa_readLock FaRL_wait t w (l, c) =
     Done (l\<lparr>fa_mtx := None, fa_readCond := insert t (fa_readCond l)\<rparr>, c, Some FaRL_asleep)"
| "fa_readLock FaRL_asleep t w (l, c) =
     (if cond_woken t w (fa_readCond l)
      then bind_outcome (pthread_mutex_lock t (fa_mtx l))
             (\<lambda>m. Done (l\<lparr>fa_mtx := m, fa_readCond := fa_readCond l - {t}\<rparr>, c, Some FaRL_dequeue))
      else Blocked)"
| "fa_readLock FaRL_dequeue t w (l, c) =
     Done (l\<lparr>fa_waitingReaders := fa_waitingReaders l - 1\<rparr>, c, Some FaRL_test)"
| "fa_readLock FaRL_fetch_add t w (l, c) =
     (let rc = fa_activeReaders l + 1
      in Done (l\<lparr>fa_activeReaders := rc\<rparr>, c, Some (FaRL_unlock rc)))"
| "fa_readLock (FaRL_unlock rc) t w (l, c) = Done (l\<lparr>fa_mtx := None\<rparr>, c, Some (FaRL_active rc))"
| "fa_readLock (FaRL_active rc) t w (l, c) =
     Done (l, transitionActive (''Reader acquired lock (FIFO), readers='' @ to_string rc) c, None)"
| "fa_readLock _ t w (l, c) = Blocked"

fun fa_readUnlock :: "(fa_lock, fa_point) rw_method" where
  "fa_readUnlock FaRU_lock t w (l, c) =
     bind_outcome (pthread_mutex_lock t (fa_mtx l))
       (\<lambda>m. Done (l\<lparr>fa_mtx := m\<rparr>, c, Some FaRU_fetch_sub))"
| "fa_readUnlock FaRU_fetch_sub t w (l, c) =
     (let rc = fa_activeReaders l - 1
      in Done (l\<lparr>fa_activeReaders := rc\<rparr>, c, Some (FaRU_notify rc)))"
| "fa_readUnlock (FaRU_notify rc) t w (l, c) =
     (if rc = 0
      then if 0 < fa_waitingWriters l
           then bind_outcome (pthread_cond_signal w (fa_writeCond l))
                  (\<lambda>W. Done (l\<lparr>fa_writeCond := W\<rparr>, c, Some (FaRU_unlock rc)))
           else if 0 < fa_waitingReaders l
           then Done (l\<lparr>fa_readCond := pthread_cond_broadcast (fa_readCond l)\<rparr>, c,
                      Some (FaRU_unlock rc))
           else Done (l, c, Some (FaRU_unlock rc))
      else Done (l, c, Some (FaRU_unlock rc)))"
| "fa_readUnlock (FaRU_unlock rc) t w (l, c) =
     Done (l\<lparr>fa_mtx := None\<rparr>, c, Some (FaRU_releasing rc))"
| "fa_readUnlock (FaRU_releasing rc) t w (l, c) =
     Done (l, transitionReleasing (''Reader released lock (FIFO), readers='' @ to_string rc) c, None)"
| "fa_readUnlock _ t w (l, c) = Blocked"

fun fa_writeLock :: "(fa_lock, fa_point) rw_method" where
  "fa_writeLock FaWL_waiting t w (l, c) =
     Done (l, transitionWaiting ''Writer requesting lock (Morris FIFO)'' c, Some FaWL_lock)"
| "fa_writeLock FaWL_lock t w (l, c) =
     bind_outcome (pthread_mutex_lock t (fa_mtx l))
       (\<lambda>m. Done (l\<lparr>fa_mtx := m\<rparr>, c, Some FaWL_test))"
| "fa_writeLock FaWL_test t w (l, c) =
     (if 0 < fa_activeReaders l \<or> fa_activeWriter l then Done (l, c, Some FaWL_enqueue)
      else Done (l, c, Some FaWL_store))"
| "fa_writeLock FaWL_enqueue t w (l, c) =
     Done (l\<lparr>fa_waitingWriters := fa_waitingWriters l + 1\<rparr>, c, Some FaWL_wait)"
| "fa_writeLock FaWL_wait t w (l, c) =
     Done (l\<lparr>fa_mtx := None, fa_writeCond := insert t (fa_writeCond l)\<rparr>, c, Some FaWL_asleep)"
| "fa_writeLock FaWL_asleep t w (l, c) =
     (if cond_woken t w (fa_writeCond l)
      then bind_outcome (pthread_mutex_lock t (fa_mtx l))
             (\<lambda>m. Done (l\<lparr>fa_mtx := m, fa_writeCond := fa_writeCond l - {t}\<rparr>, c,
                        Some FaWL_dequeue))
      else Blocked)"
| "fa_writeLock FaWL_dequeue t w (l, c) =
     Done (l\<lparr>fa_waitingWriters := fa_waitingWriters l - 1\<rparr>, c, Some FaWL_test)"
| "fa_writeLock FaWL_store t w (l, c) = Done (l\<lparr>fa_activeWriter := True\<rparr>, c, Some FaWL_unlock)"
| "fa_writeLock FaWL_unlock t w (l, c) = Done (l\<lparr>fa_mtx := None\<rparr>, c, Some FaWL_active)"
| "fa_writeLock FaWL_active t w (l, c) =
     Done (l, transitionActive ''Writer acquired exclusive lock (Morris FIFO)'' c, None)"
| "fa_writeLock _ t w (l, c) = Blocked"

fun fa_writeUnlock :: "(fa_lock, fa_point) rw_method" where
  "fa_writeUnlock FaWU_lock t w (l, c) =
     bind_outcome (pthread_mutex_lock t (fa_mtx l))
       (\<lambda>m. Done (l\<lparr>fa_mtx := m\<rparr>, c, Some FaWU_store))"
| "fa_writeUnlock FaWU_store t w (l, c) = Done (l\<lparr>fa_activeWriter := False\<rparr>, c, Some FaWU_notify)"
| "fa_writeUnlock FaWU_notify t w (l, c) =
     (if 0 < fa_waitingReaders l
      then Done (l\<lparr>fa_readCond := pthread_cond_broadcast (fa_readCond l)\<rparr>, c, Some FaWU_unlock)
      else if 0 < fa_waitingWriters l
      then bind_outcome (pthread_cond_signal w (fa_writeCond l))
             (\<lambda>W. Done (l\<lparr>fa_writeCond := W\<rparr>, c, Some FaWU_unlock))
      else Done (l, c, Some FaWU_unlock))"
| "fa_writeUnlock FaWU_unlock t w (l, c) = Done (l\<lparr>fa_mtx := None\<rparr>, c, Some FaWU_releasing)"
| "fa_writeUnlock FaWU_releasing t w (l, c) =
     Done (l, transitionReleasing ''Writer released exclusive lock (Morris FIFO)'' c, None)"
| "fa_writeUnlock _ t w (l, c) = Blocked"

definition fa_class :: "(fa_lock, fa_point) RWLockBase" where
  "fa_class =
     \<lparr>readLock = fa_readLock, readUnlock = fa_readUnlock, writeLock = fa_writeLock,
      writeUnlock = fa_writeUnlock, lock_algo = FAIR_MORRIS,
      readerCount = fa_activeReaders, writerActive = fa_activeWriter,
      readLock_entry = FaRL_waiting, readUnlock_entry = FaRU_lock,
      writeLock_entry = FaWL_waiting, writeUnlock_entry = FaWU_lock\<rparr>"

lemma fa_class_simps [simp]:
  "readLock fa_class = fa_readLock" "readUnlock fa_class = fa_readUnlock"
  "writeLock fa_class = fa_writeLock" "writeUnlock fa_class = fa_writeUnlock"
  "readLock_entry fa_class = FaRL_waiting" "readUnlock_entry fa_class = FaRU_lock"
  "writeLock_entry fa_class = FaWL_waiting" "writeUnlock_entry fa_class = FaWU_lock"
  "readerCount fa_class = fa_activeReaders" "writerActive fa_class = fa_activeWriter"
  by (simp_all add: fa_class_def)

section \<open>The invariant\<close>

text \<open>Who holds the mutex; who is counted as active or waiting.\<close>

definition fa_holds :: "fa_point phase \<Rightarrow> bool" where
  "fa_holds x \<longleftrightarrow> (case x of
       InReadLock p \<Rightarrow> (case p of FaRL_test \<Rightarrow> True | FaRL_enqueue \<Rightarrow> True | FaRL_wait \<Rightarrow> True
           | FaRL_dequeue \<Rightarrow> True | FaRL_fetch_add \<Rightarrow> True | FaRL_unlock rc \<Rightarrow> True | _ \<Rightarrow> False)
     | InReadUnlock p \<Rightarrow> (case p of FaRU_fetch_sub \<Rightarrow> True | FaRU_notify rc \<Rightarrow> True
           | FaRU_unlock rc \<Rightarrow> True | _ \<Rightarrow> False)
     | InWriteLock p \<Rightarrow> (case p of FaWL_test \<Rightarrow> True | FaWL_enqueue \<Rightarrow> True | FaWL_wait \<Rightarrow> True
           | FaWL_dequeue \<Rightarrow> True | FaWL_store \<Rightarrow> True | FaWL_unlock \<Rightarrow> True | _ \<Rightarrow> False)
     | InWriteUnlock p \<Rightarrow> (case p of FaWU_store \<Rightarrow> True | FaWU_notify \<Rightarrow> True
           | FaWU_unlock \<Rightarrow> True | _ \<Rightarrow> False)
     | _ \<Rightarrow> False)"

definition fa_ractive :: "fa_point phase \<Rightarrow> bool" where
  "fa_ractive x \<longleftrightarrow> (case x of
       InReadLock p \<Rightarrow> (case p of FaRL_unlock rc \<Rightarrow> True | FaRL_active rc \<Rightarrow> True | _ \<Rightarrow> False)
     | Reading \<Rightarrow> True
     | InReadUnlock p \<Rightarrow> (case p of FaRU_lock \<Rightarrow> True | FaRU_fetch_sub \<Rightarrow> True | _ \<Rightarrow> False)
     | _ \<Rightarrow> False)"

definition fa_wactive :: "fa_point phase \<Rightarrow> bool" where
  "fa_wactive x \<longleftrightarrow> (case x of
       InWriteLock p \<Rightarrow> (case p of FaWL_unlock \<Rightarrow> True | FaWL_active \<Rightarrow> True | _ \<Rightarrow> False)
     | Writing \<Rightarrow> True
     | InWriteUnlock p \<Rightarrow> (case p of FaWU_lock \<Rightarrow> True | FaWU_store \<Rightarrow> True | _ \<Rightarrow> False)
     | _ \<Rightarrow> False)"

definition fa_rqueued :: "fa_point phase \<Rightarrow> bool" where
  "fa_rqueued x \<longleftrightarrow> x = InReadLock FaRL_wait \<or> x = InReadLock FaRL_asleep
     \<or> x = InReadLock FaRL_dequeue"

definition fa_wqueued :: "fa_point phase \<Rightarrow> bool" where
  "fa_wqueued x \<longleftrightarrow> x = InWriteLock FaWL_wait \<or> x = InWriteLock FaWL_asleep
     \<or> x = InWriteLock FaWL_dequeue"

text \<open>What a thread that holds the mutex may rely on.\<close>

definition fa_local :: "fa_lock \<Rightarrow> fa_point phase \<Rightarrow> bool" where
  "fa_local l x \<longleftrightarrow> (case x of
       InReadLock p \<Rightarrow> (case p of
           FaRL_fetch_add \<Rightarrow> \<not> fa_activeWriter l \<and> fa_waitingWriters l = 0
         | FaRL_enqueue \<Rightarrow> fa_activeWriter l \<or> 0 < fa_waitingWriters l
         | FaRL_wait \<Rightarrow> fa_activeWriter l \<or> 0 < fa_waitingWriters l
         | _ \<Rightarrow> True)
     | InReadUnlock p \<Rightarrow> (case p of FaRU_notify rc \<Rightarrow> rc = fa_activeReaders l | _ \<Rightarrow> True)
     | InWriteLock p \<Rightarrow> (case p of
           FaWL_store \<Rightarrow> fa_activeReaders l = 0 \<and> \<not> fa_activeWriter l
         | FaWL_enqueue \<Rightarrow> 0 < fa_activeReaders l \<or> fa_activeWriter l
         | FaWL_wait \<Rightarrow> 0 < fa_activeReaders l \<or> fa_activeWriter l
         | _ \<Rightarrow> True)
     | _ \<Rightarrow> True)"

definition fa_placed :: "fa_point phase \<Rightarrow> bool" where
  "fa_placed x \<longleftrightarrow> (case x of
       InReadLock p \<Rightarrow> (case p of FaRL_waiting \<Rightarrow> True | FaRL_lock \<Rightarrow> True | FaRL_test \<Rightarrow> True
           | FaRL_enqueue \<Rightarrow> True | FaRL_wait \<Rightarrow> True | FaRL_asleep \<Rightarrow> True | FaRL_dequeue \<Rightarrow> True
           | FaRL_fetch_add \<Rightarrow> True | FaRL_unlock rc \<Rightarrow> True | FaRL_active rc \<Rightarrow> True | _ \<Rightarrow> False)
     | InReadUnlock p \<Rightarrow> (case p of FaRU_lock \<Rightarrow> True | FaRU_fetch_sub \<Rightarrow> True
           | FaRU_notify rc \<Rightarrow> True | FaRU_unlock rc \<Rightarrow> True | FaRU_releasing rc \<Rightarrow> True | _ \<Rightarrow> False)
     | InWriteLock p \<Rightarrow> (case p of FaWL_waiting \<Rightarrow> True | FaWL_lock \<Rightarrow> True | FaWL_test \<Rightarrow> True
           | FaWL_enqueue \<Rightarrow> True | FaWL_wait \<Rightarrow> True | FaWL_asleep \<Rightarrow> True | FaWL_dequeue \<Rightarrow> True
           | FaWL_store \<Rightarrow> True | FaWL_unlock \<Rightarrow> True | FaWL_active \<Rightarrow> True | _ \<Rightarrow> False)
     | InWriteUnlock p \<Rightarrow> (case p of FaWU_lock \<Rightarrow> True | FaWU_store \<Rightarrow> True | FaWU_notify \<Rightarrow> True
           | FaWU_unlock \<Rightarrow> True | FaWU_releasing \<Rightarrow> True | _ \<Rightarrow> False)
     | _ \<Rightarrow> True)"

lemmas fa_preds = fa_holds_def fa_ractive_def fa_wactive_def fa_rqueued_def fa_wqueued_def
  fa_local_def fa_placed_def

text \<open>The predicates are evaluated at a constructor only, never unfolded at a variable.\<close>

lemmas fa_holds_at [simp] =
  fa_holds_def [of Outside] fa_holds_def [of Reading] fa_holds_def [of Writing]
  fa_holds_def [of "InReadLock p" for p] fa_holds_def [of "InReadUnlock p" for p]
  fa_holds_def [of "InWriteLock p" for p] fa_holds_def [of "InWriteUnlock p" for p]

lemmas fa_ractive_at [simp] =
  fa_ractive_def [of Outside] fa_ractive_def [of Reading] fa_ractive_def [of Writing]
  fa_ractive_def [of "InReadLock p" for p] fa_ractive_def [of "InReadUnlock p" for p]
  fa_ractive_def [of "InWriteLock p" for p] fa_ractive_def [of "InWriteUnlock p" for p]

lemmas fa_wactive_at [simp] =
  fa_wactive_def [of Outside] fa_wactive_def [of Reading] fa_wactive_def [of Writing]
  fa_wactive_def [of "InReadLock p" for p] fa_wactive_def [of "InReadUnlock p" for p]
  fa_wactive_def [of "InWriteLock p" for p] fa_wactive_def [of "InWriteUnlock p" for p]

lemmas fa_rqueued_at [simp] =
  fa_rqueued_def [of Outside] fa_rqueued_def [of Reading] fa_rqueued_def [of Writing]
  fa_rqueued_def [of "InReadLock p" for p] fa_rqueued_def [of "InReadUnlock p" for p]
  fa_rqueued_def [of "InWriteLock p" for p] fa_rqueued_def [of "InWriteUnlock p" for p]

lemmas fa_wqueued_at [simp] =
  fa_wqueued_def [of Outside] fa_wqueued_def [of Reading] fa_wqueued_def [of Writing]
  fa_wqueued_def [of "InReadLock p" for p] fa_wqueued_def [of "InReadUnlock p" for p]
  fa_wqueued_def [of "InWriteLock p" for p] fa_wqueued_def [of "InWriteUnlock p" for p]

lemmas fa_placed_at [simp] =
  fa_placed_def [of Outside] fa_placed_def [of Reading] fa_placed_def [of Writing]
  fa_placed_def [of "InReadLock p" for p] fa_placed_def [of "InReadUnlock p" for p]
  fa_placed_def [of "InWriteLock p" for p] fa_placed_def [of "InWriteUnlock p" for p]

lemmas fa_local_at [simp] =
  fa_local_def [of l Outside for l] fa_local_def [of l Reading for l]
  fa_local_def [of l Writing for l] fa_local_def [of l "InReadLock p" for l p]
  fa_local_def [of l "InReadUnlock p" for l p] fa_local_def [of l "InWriteLock p" for l p]
  fa_local_def [of l "InWriteUnlock p" for l p]

lemma fa_outside:
  "\<not> fa_holds Outside" "\<not> fa_ractive Outside" "\<not> fa_wactive Outside" "\<not> fa_rqueued Outside"
  "\<not> fa_wqueued Outside"
  by simp_all

definition fa_inv :: "fa_lock \<Rightarrow> (tid \<Rightarrow> fa_point phase) \<Rightarrow> bool" where
  "fa_inv l ph \<longleftrightarrow>
     fin_support Outside ph
   \<and> (\<forall>t. fa_mtx l = Some t \<longleftrightarrow> fa_holds (ph t))
   \<and> fa_activeReaders l = int (tcount fa_ractive ph)
   \<and> of_bool (fa_activeWriter l) = int (tcount fa_wactive ph)
   \<and> fa_waitingReaders l = int (tcount fa_rqueued ph)
   \<and> fa_waitingWriters l = int (tcount fa_wqueued ph)
   \<and> (fa_activeWriter l \<longrightarrow> fa_activeReaders l = 0)
   \<and> (\<forall>t \<in> fa_readCond l. ph t = InReadLock FaRL_asleep)
   \<and> (\<forall>t \<in> fa_writeCond l. ph t = InWriteLock FaWL_asleep)
   \<and> (\<forall>t. fa_local l (ph t))
   \<and> (\<forall>t. fa_placed (ph t))"

lemma fa_inv_facts:
  assumes "fa_inv l ph"
  shows "fin_support Outside ph"
    and "fa_mtx l = Some t \<longleftrightarrow> fa_holds (ph t)"
    and "fa_local l (ph t)" and "fa_placed (ph t)"
  using assms unfolding fa_inv_def by blast+

lemma fa_inv_counts:
  assumes "fa_inv l ph"
  shows "fa_activeReaders l = int (tcount fa_ractive ph)"
    and "of_bool (fa_activeWriter l) = int (tcount fa_wactive ph)"
    and "fa_waitingReaders l = int (tcount fa_rqueued ph)"
    and "fa_waitingWriters l = int (tcount fa_wqueued ph)"
    and "fa_activeWriter l \<longrightarrow> fa_activeReaders l = 0"
    and "\<forall>t \<in> fa_readCond l. ph t = InReadLock FaRL_asleep"
    and "\<forall>t \<in> fa_writeCond l. ph t = InWriteLock FaWL_asleep"
  using assms unfolding fa_inv_def by blast+

lemma fa_init: "fa_inv FairMorrisLock (\<lambda>_. Outside)"
  by (simp add: fa_inv_def FairMorrisLock_def)

lemma fa_local_free: "\<not> fa_holds x \<Longrightarrow> fa_local l x"
  by (auto simp: fa_preds split: phase.splits fa_point.splits)

lemma fa_inv_move:
  assumes inv: "fa_inv l ph"
    and mtx: "fa_mtx l' = (if fa_holds x then Some t else if fa_holds (ph t) then None else fa_mtx l)"
    and free: "fa_holds x \<Longrightarrow> \<not> fa_holds (ph t) \<Longrightarrow> fa_mtx l = None"
    and ra: "fa_activeReaders l' - of_bool (fa_ractive x)
               = fa_activeReaders l - of_bool (fa_ractive (ph t))"
    and wa: "of_bool (fa_activeWriter l') - of_bool (fa_wactive x)
               = (of_bool (fa_activeWriter l) - of_bool (fa_wactive (ph t)) :: int)"
    and rq: "fa_waitingReaders l' - of_bool (fa_rqueued x)
               = fa_waitingReaders l - of_bool (fa_rqueued (ph t))"
    and wq: "fa_waitingWriters l' - of_bool (fa_wqueued x)
               = fa_waitingWriters l - of_bool (fa_wqueued (ph t))"
    and excl: "fa_activeWriter l' \<longrightarrow> fa_activeReaders l' = 0"
    and rc: "fa_readCond l' - {t} \<subseteq> fa_readCond l"
      "t \<in> fa_readCond l' \<Longrightarrow> x = InReadLock FaRL_asleep"
    and wc: "fa_writeCond l' - {t} \<subseteq> fa_writeCond l"
      "t \<in> fa_writeCond l' \<Longrightarrow> x = InWriteLock FaWL_asleep"
    and chg: "fa_holds (ph t) \<or> fa_activeReaders l' = fa_activeReaders l
       \<and> fa_activeWriter l' = fa_activeWriter l \<and> fa_waitingWriters l' = fa_waitingWriters l"
    and loc: "fa_local l' x" and plc: "fa_placed x"
  shows "fa_inv l' (ph(t := x))"
proof -
  note fin = fa_inv_facts(1) [OF inv]
  note upd = tcount_upd [OF fin]
  have local: "fa_local l' (ph u)" if "u \<noteq> t" for u
  proof (cases "fa_holds (ph u)")
    case True
    then have "fa_mtx l = Some u" using fa_inv_facts(2) [OF inv, of u] by simp
    then have "\<not> fa_holds (ph t)" using fa_inv_facts(2) [OF inv, of t] that by auto
    with chg fa_inv_facts(3) [OF inv, of u] show ?thesis
      by (auto simp: fa_local_def split: phase.splits fa_point.splits)
  qed (rule fa_local_free)
  have holder: "fa_mtx l' = Some u \<longleftrightarrow> fa_holds ((ph(t := x)) u)" for u
    using mtx free fa_inv_facts(2) [OF inv, of u] fa_inv_facts(2) [OF inv, of t]
    by auto
  show ?thesis
    unfolding fa_inv_def
  proof (intro conjI allI)
    show "fa_mtx l' = Some u \<longleftrightarrow> fa_holds ((ph(t := x)) u)" for u by (rule holder)
    show "fa_local l' ((ph(t := x)) u)" for u using local [of u] loc by simp
    show "fa_placed ((ph(t := x)) u)" for u using fa_inv_facts(4) [OF inv, of u] plc by simp
    show "\<forall>u \<in> fa_readCond l'. (ph(t := x)) u = InReadLock FaRL_asleep"
      using rc fa_inv_counts(6) [OF inv] by auto
    show "\<forall>u \<in> fa_writeCond l'. (ph(t := x)) u = InWriteLock FaWL_asleep"
      using wc fa_inv_counts(7) [OF inv] by auto
  qed (use ra wa rq wq excl fin fa_inv_counts(1-5) [OF inv] in
        \<open>simp_all add: upd fa_outside\<close>)
qed

lemmas fa_step_simps = outcome_simps pthread_mutex_lock_def pthread_cond_signal_def
  pthread_cond_broadcast_def cond_woken_def Let_def

lemma fa_counts_nonneg:
  "fa_inv l ph \<Longrightarrow> 0 \<le> fa_activeReaders l \<and> 0 \<le> fa_waitingReaders l \<and> 0 \<le> fa_waitingWriters l"
  using fa_inv_counts(1,3,4) [of l ph] by simp

lemma fa_ractive_pos:
  assumes inv: "fa_inv l ph" and "fa_ractive (ph t)"
  shows "1 \<le> fa_activeReaders l" and "\<not> fa_activeWriter l"
proof -
  show "1 \<le> fa_activeReaders l"
    using tcount_pos [OF fa_inv_facts(1) [OF inv] fa_outside(2) assms(2)]
      fa_inv_counts(1) [OF inv] by linarith
  then show "\<not> fa_activeWriter l" using fa_inv_counts(5) [OF inv] by auto
qed

lemma fa_wactive_flag:
  assumes inv: "fa_inv l ph" and "fa_wactive (ph t)"
  shows "fa_activeWriter l"
  using tcount_pos [OF fa_inv_facts(1) [OF inv] fa_outside(3) assms(2)] fa_inv_counts(2) [OF inv]
  by (cases "fa_activeWriter l") auto

section \<open>Every action keeps the invariant\<close>

lemma fa_mtx_at:
  "fa_inv l ph \<Longrightarrow> fa_holds (ph t) \<Longrightarrow> fa_mtx l = Some t"
  using fa_inv_facts(2) [of l ph t] by blast

lemma fa_cond_at:
  assumes "fa_inv l ph"
  shows "t \<in> fa_readCond l \<Longrightarrow> ph t = InReadLock FaRL_asleep"
    and "t \<in> fa_writeCond l \<Longrightarrow> ph t = InWriteLock FaWL_asleep"
  using fa_inv_counts(6,7) [OF assms] by auto

lemma fa_at_facts:
  assumes inv: "fa_inv l ph"
  shows "fa_local l (ph t) \<and> (fa_holds (ph t) \<longrightarrow> fa_mtx l = Some t)
   \<and> (fa_ractive (ph t) \<longrightarrow> 1 \<le> fa_activeReaders l \<and> \<not> fa_activeWriter l)
   \<and> (fa_wactive (ph t) \<longrightarrow> fa_activeWriter l)
   \<and> (ph t \<noteq> InReadLock FaRL_asleep \<longrightarrow> t \<notin> fa_readCond l)
   \<and> (ph t \<noteq> InWriteLock FaWL_asleep \<longrightarrow> t \<notin> fa_writeCond l)
   \<and> 0 \<le> fa_activeReaders l \<and> 0 \<le> fa_waitingReaders l \<and> 0 \<le> fa_waitingWriters l
   \<and> (fa_activeWriter l \<longrightarrow> fa_activeReaders l = 0)"
  using fa_inv_facts(3) [OF inv, of t] fa_mtx_at [OF inv, of t]
    fa_ractive_pos [OF inv, of t] fa_wactive_flag [OF inv, of t]
    fa_cond_at [OF inv, of t] fa_counts_nonneg [OF inv] fa_inv_counts(5) [OF inv] by blast

text \<open>The side conditions of \<open>fa_inv_move\<close> as one predicate of the lock and the moving thread.\<close>

definition fa_move :: "fa_lock \<Rightarrow> tid \<Rightarrow> fa_point phase \<Rightarrow> fa_lock \<Rightarrow> fa_point phase \<Rightarrow> bool" where
  "fa_move l t y l' x \<longleftrightarrow>
     fa_mtx l' = (if fa_holds x then Some t else if fa_holds y then None else fa_mtx l)
   \<and> (fa_holds x \<longrightarrow> \<not> fa_holds y \<longrightarrow> fa_mtx l = None)
   \<and> fa_activeReaders l' - of_bool (fa_ractive x) = fa_activeReaders l - of_bool (fa_ractive y)
   \<and> of_bool (fa_activeWriter l') - of_bool (fa_wactive x)
       = (of_bool (fa_activeWriter l) - of_bool (fa_wactive y) :: int)
   \<and> fa_waitingReaders l' - of_bool (fa_rqueued x) = fa_waitingReaders l - of_bool (fa_rqueued y)
   \<and> fa_waitingWriters l' - of_bool (fa_wqueued x) = fa_waitingWriters l - of_bool (fa_wqueued y)
   \<and> (fa_activeWriter l' \<longrightarrow> fa_activeReaders l' = 0)
   \<and> fa_readCond l' - {t} \<subseteq> fa_readCond l
   \<and> (t \<in> fa_readCond l' \<longrightarrow> x = InReadLock FaRL_asleep)
   \<and> fa_writeCond l' - {t} \<subseteq> fa_writeCond l
   \<and> (t \<in> fa_writeCond l' \<longrightarrow> x = InWriteLock FaWL_asleep)
   \<and> (fa_holds y \<or> fa_activeReaders l' = fa_activeReaders l
       \<and> fa_activeWriter l' = fa_activeWriter l \<and> fa_waitingWriters l' = fa_waitingWriters l)
   \<and> fa_local l' x \<and> fa_placed x"

lemma fa_inv_moved:
  assumes inv: "fa_inv l ph" and move: "fa_move l t (ph t) l' x"
  shows "fa_inv l' (ph(t := x))"
  by (rule fa_inv_move [OF inv]) (use move in \<open>unfold fa_move_def, blast+\<close>)

lemma fa_readLock_inv:
  assumes inv: "fa_inv l ph" and ph: "ph t = InReadLock p"
    and step: "fa_readLock p t w (l, c) = Done (l', c', r)"
  shows "fa_inv l' (ph(t := resume InReadLock Reading r))"
  using step fa_at_facts [OF inv, of t]
  by (intro fa_inv_moved [OF inv]; cases p;
      clarsimp simp: ph fa_step_simps split: if_splits wakeup.splits; auto simp: fa_move_def)

lemma fa_readUnlock_notify:
  assumes "fa_local l (InReadUnlock (FaRU_notify rc))" and "fa_mtx l = Some t"
    and "t \<notin> fa_readCond l" and "t \<notin> fa_writeCond l"
    and "fa_activeWriter l \<longrightarrow> fa_activeReaders l = 0"
    and step: "fa_readUnlock (FaRU_notify rc) t w (l, c) = Done (l', c', r)"
  shows "fa_move l t (InReadUnlock (FaRU_notify rc)) l' (resume InReadUnlock Outside r)"
  using step assms(1-5)
  by (clarsimp simp: fa_step_simps split: if_splits wakeup.splits) (auto simp: fa_move_def)

lemma fa_readUnlock_inv:
  assumes inv: "fa_inv l ph" and ph: "ph t = InReadUnlock p"
    and step: "fa_readUnlock p t w (l, c) = Done (l', c', r)"
  shows "fa_inv l' (ph(t := resume InReadUnlock Outside r))"
proof (rule fa_inv_moved [OF inv])
  note facts = fa_at_facts [OF inv, of t, unfolded ph]
  show "fa_move l t (ph t) l' (resume InReadUnlock Outside r)"
    unfolding ph
  proof (cases p)
    case FaRU_lock
    with step facts show "fa_move l t (InReadUnlock p) l' (resume InReadUnlock Outside r)"
      by (clarsimp simp: fa_step_simps split: if_splits) (auto simp: fa_move_def)
  next
    case FaRU_fetch_sub
    with step facts show "fa_move l t (InReadUnlock p) l' (resume InReadUnlock Outside r)"
      by (clarsimp simp: fa_step_simps) (auto simp: fa_move_def)
  next
    case (FaRU_notify rc)
    show "fa_move l t (InReadUnlock p) l' (resume InReadUnlock Outside r)"
      unfolding FaRU_notify
      by (rule fa_readUnlock_notify [OF _ _ _ _ _ step [unfolded FaRU_notify]])
         (use facts FaRU_notify in simp_all)
  next
    case (FaRU_unlock rc)
    with step facts show "fa_move l t (InReadUnlock p) l' (resume InReadUnlock Outside r)"
      by (clarsimp simp: fa_step_simps) (auto simp: fa_move_def)
  next
    case (FaRU_releasing rc)
    with step facts show "fa_move l t (InReadUnlock p) l' (resume InReadUnlock Outside r)"
      by (clarsimp simp: fa_step_simps) (auto simp: fa_move_def)
  qed (use step in simp_all)
qed

lemma fa_writeLock_inv:
  assumes inv: "fa_inv l ph" and ph: "ph t = InWriteLock p"
    and step: "fa_writeLock p t w (l, c) = Done (l', c', r)"
  shows "fa_inv l' (ph(t := resume InWriteLock Writing r))"
  using step fa_at_facts [OF inv, of t]
  by (intro fa_inv_moved [OF inv]; cases p;
      clarsimp simp: ph fa_step_simps split: if_splits wakeup.splits; auto simp: fa_move_def)

lemma fa_writeUnlock_inv:
  assumes inv: "fa_inv l ph" and ph: "ph t = InWriteUnlock p"
    and step: "fa_writeUnlock p t w (l, c) = Done (l', c', r)"
  shows "fa_inv l' (ph(t := resume InWriteUnlock Outside r))"
  using step fa_at_facts [OF inv, of t]
  by (intro fa_inv_moved [OF inv]; cases p;
      clarsimp simp: ph fa_step_simps split: if_splits wakeup.splits; auto simp: fa_move_def)

lemma fa_call_inv:
  assumes inv: "fa_inv l ph"
  shows "ph t = Outside \<Longrightarrow> fa_inv l (ph(t := InReadLock FaRL_waiting))"
    and "ph t = Reading \<Longrightarrow> fa_inv l (ph(t := InReadUnlock FaRU_lock))"
    and "ph t = Outside \<Longrightarrow> fa_inv l (ph(t := InWriteLock FaWL_waiting))"
    and "ph t = Writing \<Longrightarrow> fa_inv l (ph(t := InWriteUnlock FaWU_lock))"
  using fa_at_facts [OF inv, of t]
  by (auto intro!: fa_inv_moved [OF inv] simp: fa_move_def)

lemma fa_no_throw:
  "fa_readLock p t w (l, c) \<noteq> Threw e" "fa_readUnlock p t w (l, c) \<noteq> Threw e"
  "fa_writeLock p t w (l, c) \<noteq> Threw e" "fa_writeUnlock p t w (l, c) \<noteq> Threw e"
  by (cases p; auto simp: fa_step_simps split: wakeup.splits)+

lemma fa_excl:
  assumes inv: "fa_inv l ph" and t: "ph t = Writing" and u: "u \<noteq> t"
  shows "ph u \<noteq> Writing \<and> ph u \<noteq> Reading"
proof -
  have w: "fa_activeWriter l" using fa_wactive_flag [OF inv, of t] t by simp
  then have "tcount fa_wactive ph \<le> 1" using fa_inv_counts(2) [OF inv] by simp
  then have "ph u \<noteq> Writing"
    using tcount_unique [of Outside ph fa_wactive t u] fa_inv_facts(1) [OF inv] t u by auto
  moreover have "ph u \<noteq> Reading" using w fa_ractive_pos(2) [OF inv, of u] by auto
  ultimately show ?thesis by simp
qed

interpretation fa: rw_lock fa_class FairMorrisLock fa_inv
  by unfold_locales
     (auto intro: fa_inv_facts(1) fa_init fa_call_inv fa_readLock_inv fa_readUnlock_inv
       fa_writeLock_inv fa_writeUnlock_inv simp: fa_no_throw dest: fa_excl)

section \<open>What the algorithm promises, and what it does not\<close>

abbreviation fa_start :: "(fa_lock, fa_point) lsys" where
  "fa_start \<equiv> lock_start FairMorrisLock"

abbreviation fa_reachable :: "(fa_lock, fa_point) lsys \<Rightarrow> bool" where
  "fa_reachable \<equiv> reachable fa_start (lock_step fa_class)"

lemmas fa_run_simps = lock_start_def FairMorrisLock_def advance_def run_method_def
  pthread_mutex_lock_def pthread_cond_signal_def pthread_cond_broadcast_def cond_woken_def Let_def

lemma fa_run_reachable: "sched_run fa_class es fa_start = Done s \<Longrightarrow> fa_reachable s"
  by (rule sched_run_reachable [OF _ reachable_init])

text \<open>Writer 1 writes; writer 2 and reader 3 are asleep.\<close>

definition fa_demo_writer :: "sched_event list" where
  "fa_demo_writer =
     [CallWriteLock 1, Act 1, Act 1, Act 1, Act 1, Act 1, Act 1,
      CallWriteLock 2, Act 2, Act 2, Act 2, Act 2, Act 2,
      CallReadLock 3, Act 3, Act 3, Act 3, Act 3, Act 3]"

text \<open>Writer 1 unlocks; reader 3, whom it woke, tests again and goes back to sleep.\<close>

definition fa_demo_deadlock :: "sched_event list" where
  "fa_demo_deadlock =
     [CallWriteUnlock 1, Act 1, Act 1, Act 1, Act 1, Act 1, Act 3, Act 3, Act 3, Act 3, Act 3]"

lemma fa_demo_writer_run:
  "\<exists>s. sched_run fa_class fa_demo_writer fa_start = Done s
     \<and> phase s 1 = Writing \<and> phase s 2 = InWriteLock FaWL_asleep \<and> phase s 3 = InReadLock FaRL_asleep"
  by (simp add: fa_demo_writer_def fa_run_simps)

lemma fa_demo_deadlock_run:
  "\<exists>s. sched_run fa_class (fa_demo_writer @ fa_demo_deadlock) fa_start = Done s
     \<and> phase s = (\<lambda>t. if t = 2 then InWriteLock FaWL_asleep
                      else if t = 3 then InReadLock FaRL_asleep else Outside)
     \<and> fa_writeCond (shared s) = {2} \<and> fa_readCond (shared s) = {3}
     \<and> fa_waitingWriters (shared s) = 1 \<and> fa_waitingReaders (shared s) = 1"
  by (simp add: fa_demo_writer_def fa_demo_deadlock_def fa_run_simps fun_eq_iff)

text \<open>
  C3: Mutual exclusion of \<open>FairMorrisLock\<close>, for any number of threads and any interleaving, with any
  choice of the thread that \<open>pthread_cond_signal\<close> wakes and any spurious wakeups: while a thread
  writes, no other thread writes or reads.
\<close>

theorem fa_mutual_exclusion:
  assumes "reachable (lock_start FairMorrisLock) (lock_step fa_class) s"
    and "phase s t = Writing" and "u \<noteq> t"
  shows "phase s u \<noteq> Writing \<and> phase s u \<noteq> Reading"
  using assms by (rule fa.mutual_exclusion)

lemma fa_mutual_exclusion_witness:
  "\<exists>s. sched_run fa_class fa_demo_writer fa_start = Done s
     \<and> phase s 2 \<noteq> Writing \<and> phase s 2 \<noteq> Reading"
proof -
  obtain s where s: "sched_run fa_class fa_demo_writer fa_start = Done s" "phase s 1 = Writing"
    using fa_demo_writer_run by blast
  from fa_mutual_exclusion [OF fa_run_reachable [OF s(1)] s(2), of 2] s(1) show ?thesis by simp
qed

text \<open>
  C7: \<open>FairMorrisLock\<close> can deadlock.  Two writers and one reader suffice: \<open>writeUnlock\<close> broadcasts to
  the readers only, because one waits; the reader wakes, sees \<open>waitingWriters_ > 0\<close> and goes back to
  sleep; the waiting writer is never signalled.  In the state reached no thread holds the lock, both
  remaining calls are asleep, and no action is possible short of a spurious wakeup.
\<close>

theorem fa_deadlock_reachable:
  "\<exists>s. sched_run fa_class (fa_demo_writer @ fa_demo_deadlock) (lock_start FairMorrisLock) = Done s
     \<and> deadlocked fa_class s"
proof -
  obtain s where s: "sched_run fa_class (fa_demo_writer @ fa_demo_deadlock) fa_start = Done s"
    and ph: "phase s = (\<lambda>t. if t = 2 then InWriteLock FaWL_asleep
                      else if t = 3 then InReadLock FaRL_asleep else Outside)"
    and conds: "fa_writeCond (shared s) = {2}" "fa_readCond (shared s) = {3}"
    using fa_demo_deadlock_run by blast
  have "sched_do fa_class e s \<noteq> Done s'"
    if "\<not> starts_request e" "\<not> spurious_event e" for e s'
    using that conds
    by (cases e) (auto simp: starts_request_def spurious_event_def ph fa_run_simps split: phase.splits)
  moreover have "in_call (phase s 2)" "\<forall>t. phase s t \<noteq> Reading \<and> phase s t \<noteq> Writing"
    by (simp_all add: ph)
  ultimately have "deadlocked fa_class s" unfolding deadlocked_def by blast
  with s show ?thesis by blast
qed

text \<open>
  Admission of readers: a reader about to increment \<open>activeReaders_\<close> holds the mutex, no writer is
  active and no writer is queued on \<open>writeCond_\<close>; a writer about to set \<open>activeWriter_\<close> holds the
  mutex and no thread is active.
\<close>

lemma fa_admission:
  assumes "reachable (lock_start FairMorrisLock) (lock_step fa_class) s"
  shows "(phase s t = InReadLock FaRL_fetch_add \<longrightarrow>
            fa_mtx (shared s) = Some t \<and> (\<forall>u. phase s u \<noteq> Writing \<and> phase s u \<noteq> InWriteLock FaWL_asleep))
       \<and> (phase s t = InWriteLock FaWL_store \<longrightarrow>
            fa_mtx (shared s) = Some t \<and> (\<forall>u. phase s u \<noteq> Writing \<and> phase s u \<noteq> Reading))"
proof (intro conjI impI)
  note inv = fa.inv_reachable [OF assms]
  note facts = fa_at_facts [OF inv]
  assume t: "phase s t = InReadLock FaRL_fetch_add"
  then have l: "fa_mtx (shared s) = Some t" "\<not> fa_activeWriter (shared s)"
    "fa_waitingWriters (shared s) = 0" using facts [of t] by simp_all
  then have "tcount fa_wqueued (phase s) = 0" using fa_inv_counts(4) [OF inv] by simp
  then have q: "\<not> fa_wqueued (phase s u)" for u
    using tcount_eq_0 [of Outside "phase s" fa_wqueued] fa_inv_facts(1) [OF inv] by simp
  have "phase s u \<noteq> InWriteLock FaWL_asleep" for u using q [of u] by auto
  moreover have "phase s u \<noteq> Writing" for u using fa_wactive_flag [OF inv, of u] l(2) by auto
  ultimately have "phase s u \<noteq> Writing \<and> phase s u \<noteq> InWriteLock FaWL_asleep" for u by blast
  then show "fa_mtx (shared s) = Some t"
    "\<forall>u. phase s u \<noteq> Writing \<and> phase s u \<noteq> InWriteLock FaWL_asleep" using l by simp_all
next
  note inv = fa.inv_reachable [OF assms]
  note facts = fa_at_facts [OF inv]
  assume t: "phase s t = InWriteLock FaWL_store"
  then have l: "fa_mtx (shared s) = Some t" "\<not> fa_activeWriter (shared s)"
    "fa_activeReaders (shared s) = 0" using facts [of t] by simp_all
  have "phase s u \<noteq> Writing \<and> phase s u \<noteq> Reading" for u
    using fa_wactive_flag [OF inv, of u] fa_ractive_pos(1) [OF inv, of u] l(2,3) by auto
  then show "fa_mtx (shared s) = Some t" "\<forall>u. phase s u \<noteq> Writing \<and> phase s u \<noteq> Reading"
    using l by simp_all
qed

text \<open>One write request and admission of 4 readers meets the hypothesis.\<close>

subsection \<open>Not first-in first-out\<close>

text \<open>Writers 1 and 3 pass the lock between them while writer 2 queues.\<close>

definition fa_barge_prefix :: "sched_event list" where
  "fa_barge_prefix =
     [CallWriteLock 1, Act 1, Act 1, Act 1, Act 1, Act 1, Act 1,
      CallWriteLock 2, Act 2, Act 2, Act 2, Act 2, Act 2]"

text \<open>\<open>t\<close> unlocks and signals writer 2; \<open>u\<close> asks and enters first; writer 2 wakes and sleeps again.\<close>

definition fa_yield :: "tid \<Rightarrow> sched_event list" where
  "fa_yield t = [CallWriteUnlock t, Act t, Act t, ActWake t 2, Act t, Act t]"

definition fa_enter :: "tid \<Rightarrow> sched_event list" where
  "fa_enter u = [CallWriteLock u, Act u, Act u, Act u, Act u, Act u, Act u]"

definition fa_requeue :: "sched_event list" where
  "fa_requeue = [Act 2, Act 2, Act 2, Act 2, Act 2]"

definition fa_barge :: "tid \<Rightarrow> tid \<Rightarrow> sched_event list" where
  "fa_barge t u = fa_yield t @ fa_enter u @ fa_requeue"

definition fa_overtaken :: "nat \<Rightarrow> sched_event list" where
  "fa_overtaken n = fa_barge_prefix @ concat (replicate n (fa_barge 1 3 @ fa_barge 3 1))"

definition fa_behind ::
    "pthread_cond \<Rightarrow> bool \<Rightarrow> fa_point phase \<Rightarrow> fa_point phase \<Rightarrow> (fa_lock, fa_point) lsys \<Rightarrow> bool" where
  "fa_behind W a x y s \<longleftrightarrow>
     phase s 2 = InWriteLock FaWL_asleep \<and> phase s 1 = x \<and> phase s 3 = y
   \<and> fa_mtx (shared s) = None \<and> fa_writeCond (shared s) = W \<and> fa_readCond (shared s) = {}
   \<and> fa_activeReaders (shared s) = 0 \<and> fa_activeWriter (shared s) = a
   \<and> fa_waitingReaders (shared s) = 0 \<and> fa_waitingWriters (shared s) = 1"

lemma fa_barge_prefix_run:
  "\<exists>s. sched_run fa_class fa_barge_prefix fa_start = Done s \<and> fa_behind {2} True Writing Outside s"
  by (simp add: fa_barge_prefix_def fa_behind_def fa_run_simps)

lemma fa_yield_run:
  "fa_behind {2} True Writing y s \<Longrightarrow>
     \<exists>s'. sched_run fa_class (fa_yield 1) s = Done s' \<and> fa_behind {} False Outside y s'"
  "fa_behind {2} True x Writing s \<Longrightarrow>
     \<exists>s'. sched_run fa_class (fa_yield 3) s = Done s' \<and> fa_behind {} False x Outside s'"
  by (simp_all add: fa_yield_def fa_behind_def fa_run_simps)

lemma fa_enter_run:
  "fa_behind {} False Outside y s \<Longrightarrow>
     \<exists>s'. sched_run fa_class (fa_enter 1) s = Done s' \<and> fa_behind {} True Writing y s'"
  "fa_behind {} False x Outside s \<Longrightarrow>
     \<exists>s'. sched_run fa_class (fa_enter 3) s = Done s' \<and> fa_behind {} True x Writing s'"
  by (simp_all add: fa_enter_def fa_behind_def fa_run_simps)

lemma fa_requeue_run:
  "fa_behind {} True x y s \<Longrightarrow>
     \<exists>s'. sched_run fa_class fa_requeue s = Done s' \<and> fa_behind {2} True x y s'"
  by (simp add: fa_requeue_def fa_behind_def fa_run_simps)

lemma fa_barge_run:
  "fa_behind {2} True Writing Outside s \<Longrightarrow>
     \<exists>s'. sched_run fa_class (fa_barge 1 3) s = Done s' \<and> fa_behind {2} True Outside Writing s'"
  "fa_behind {2} True Outside Writing s \<Longrightarrow>
     \<exists>s'. sched_run fa_class (fa_barge 3 1) s = Done s' \<and> fa_behind {2} True Writing Outside s'"
  unfolding fa_barge_def sched_run_append bind_outcome_Done_iff
  using fa_yield_run fa_enter_run fa_requeue_run by metis+

lemma fa_barge_rounds_run:
  "fa_behind {2} True Writing Outside s \<Longrightarrow>
     \<exists>s'. sched_run fa_class (concat (replicate n (fa_barge 1 3 @ fa_barge 3 1))) s = Done s'
        \<and> fa_behind {2} True Writing Outside s'"
proof (induction n arbitrary: s)
  case (Suc n)
  obtain s1 where s1: "sched_run fa_class (fa_barge 1 3) s = Done s1" "fa_behind {2} True Outside Writing s1"
    using fa_barge_run(1) [OF Suc.prems] by blast
  obtain s2 where s2: "sched_run fa_class (fa_barge 3 1) s1 = Done s2" "fa_behind {2} True Writing Outside s2"
    using fa_barge_run(2) [OF s1(2)] by blast
  show ?case using Suc.IH [OF s2(2)] s1(1) s2(1) by (auto simp: sched_run_append)
qed simp

text \<open>
  C35: The lock is not first-in first-out, and a writer can starve: for every \<open>n\<close> there is an
  interleaving in which writer 2 queues, every \<open>writeUnlock\<close> signals it, and still \<open>2 * n\<close> writers that
  asked later are admitted before it.  A woken waiter competes with newcomers for the mutex; there
  is no queue.
\<close>

theorem fa_writer_overtaken:
  "\<exists>s. sched_run fa_class (fa_overtaken n) (lock_start FairMorrisLock) = Done s
     \<and> phase s 2 = InWriteLock FaWL_asleep \<and> phase s 1 = Writing
     \<and> length (filter (\<lambda>e. \<exists>t. e = CallWriteUnlock t) (fa_overtaken n)) = 2 * n"
proof -
  obtain s1 where s1: "sched_run fa_class fa_barge_prefix fa_start = Done s1"
    "fa_behind {2} True Writing Outside s1" using fa_barge_prefix_run by blast
  obtain s where s: "sched_run fa_class (concat (replicate n (fa_barge 1 3 @ fa_barge 3 1))) s1 = Done s"
    "fa_behind {2} True Writing Outside s" using fa_barge_rounds_run [OF s1(2)] by blast
  have "sched_run fa_class (fa_overtaken n) fa_start = Done s"
    using s1 s by (simp add: fa_overtaken_def sched_run_append)
  moreover have "length (filter (\<lambda>e. \<exists>t. e = CallWriteUnlock t)
      (concat (replicate m (fa_barge 1 3 @ fa_barge 3 1)))) = 2 * m" for m
    by (induction m) (simp_all add: fa_barge_def fa_yield_def fa_enter_def fa_requeue_def)
  then have "length (filter (\<lambda>e. \<exists>t. e = CallWriteUnlock t) (fa_overtaken n)) = 2 * n"
    by (simp add: fa_overtaken_def fa_barge_prefix_def)
  ultimately show ?thesis using s(2) unfolding fa_behind_def by blast
qed

subsection \<open>One writer: no deadlock\<close>

definition fa_writer :: "fa_point phase \<Rightarrow> bool" where
  "fa_writer x \<longleftrightarrow> x = Writing \<or> (\<exists>p. x = InWriteLock p \<or> x = InWriteUnlock p)"

text \<open>A writer that will notify the readers before it is done.\<close>

definition fa_committed :: "fa_point phase \<Rightarrow> bool" where
  "fa_committed x \<longleftrightarrow>
     x = Writing \<or> (\<exists>p. x = InWriteLock p \<and> p \<noteq> FaWL_waiting \<and> p \<noteq> FaWL_lock)
   \<or> (\<exists>p. x = InWriteUnlock p \<and> (p = FaWU_lock \<or> p = FaWU_store \<or> p = FaWU_notify))"

text \<open>
  With \<open>v\<close> the only writer: if it sleeps, a reader will still signal it; if a reader sleeps, \<open>v\<close> will
  still broadcast.
\<close>

definition fa_solo :: "tid \<Rightarrow> fa_lock \<Rightarrow> (tid \<Rightarrow> fa_point phase) \<Rightarrow> bool" where
  "fa_solo v l ph \<longleftrightarrow>
     fa_inv l ph \<and> (\<forall>t. t \<noteq> v \<longrightarrow> \<not> fa_writer (ph t))
   \<and> (v \<in> fa_writeCond l \<longrightarrow>
        0 < fa_activeReaders l \<or> (\<exists>t. ph t = InReadUnlock (FaRU_notify 0)))
   \<and> (fa_readCond l \<noteq> {} \<longrightarrow> fa_committed (ph v))"

lemma fa_solo_facts:
  assumes "fa_solo v l ph"
  shows "fa_inv l ph" and "t \<noteq> v \<Longrightarrow> \<not> fa_writer (ph t)"
    and "v \<in> fa_writeCond l \<Longrightarrow>
           0 < fa_activeReaders l \<or> (\<exists>t. ph t = InReadUnlock (FaRU_notify 0))"
    and "fa_readCond l \<noteq> {} \<Longrightarrow> fa_committed (ph v)"
  using assms unfolding fa_solo_def by blast+

lemma fa_writer_points:
  "fa_wactive x \<Longrightarrow> fa_writer x \<and> fa_committed x" "fa_wqueued x \<Longrightarrow> fa_writer x \<and> fa_committed x"
  by (auto simp: fa_preds fa_writer_def fa_committed_def split: phase.splits fa_point.splits)

lemma fa_solo_committed:
  assumes solo: "fa_solo v l ph" and "fa_activeWriter l \<or> 0 < fa_waitingWriters l"
  shows "fa_committed (ph v)"
proof -
  note inv = fa_solo_facts(1) [OF solo]
  have "1 \<le> tcount fa_wactive ph \<or> 1 \<le> tcount fa_wqueued ph"
    using assms(2) fa_inv_counts(2,4) [OF inv] by auto
  then obtain u where "fa_wactive (ph u) \<or> fa_wqueued (ph u)" by (metis tcount_obtain)
  then have "fa_writer (ph u) \<and> fa_committed (ph u)" using fa_writer_points by blast
  then show ?thesis using fa_solo_facts(2) [OF solo, of u] by (cases "u = v") auto
qed

lemma fa_solo_active_writer:
  assumes solo: "fa_solo v l ph" and "fa_activeWriter l"
  shows "fa_wactive (ph v)"
proof -
  have "1 \<le> tcount fa_wactive ph"
    using assms(2) fa_inv_counts(2) [OF fa_solo_facts(1) [OF solo]] by simp
  then obtain u where u: "fa_wactive (ph u)" by (rule tcount_obtain)
  with fa_writer_points(1) fa_solo_facts(2) [OF solo, of u] show ?thesis by (cases "u = v") auto
qed

lemma fa_solo_writeCond:
  assumes solo: "fa_solo v l ph" and "u \<in> fa_writeCond l"
  shows "u = v" and "ph v = InWriteLock FaWL_asleep" and "0 < fa_waitingWriters l"
proof -
  note inv = fa_solo_facts(1) [OF solo]
  have u: "ph u = InWriteLock FaWL_asleep" using fa_inv_counts(7) [OF inv] assms(2) by blast
  then show "u = v" using fa_solo_facts(2) [OF solo, of u] by (auto simp: fa_writer_def)
  with u show "ph v = InWriteLock FaWL_asleep" by simp
  have "1 \<le> tcount fa_wqueued ph"
    by (rule tcount_pos [of Outside _ _ u]) (use u fa_inv_facts(1) [OF inv] in simp_all)
  then show "0 < fa_waitingWriters l" using fa_inv_counts(4) [OF inv] by simp
qed

lemma fa_readCond_waiting:
  assumes inv: "fa_inv l ph" and "fa_waitingReaders l = 0"
  shows "fa_readCond l = {}"
proof -
  have "\<not> fa_rqueued (ph u)" for u
    using fa_inv_counts(3) [OF inv] assms(2) tcount_eq_0 [of Outside ph fa_rqueued]
      fa_inv_facts(1) [OF inv] by simp
  then show ?thesis using fa_inv_counts(6) [OF inv] by (metis equals0I fa_rqueued_def)
qed

text \<open>What a move of thread \<open>t\<close> has to respect.\<close>

lemma fa_solo_move:
  assumes solo: "fa_solo v l ph" and inv': "fa_inv l' (ph(t := x))"
    and "t \<noteq> v \<Longrightarrow> \<not> fa_writer x"
    and sleep: "v \<in> fa_writeCond l' \<Longrightarrow> 0 < fa_activeReaders l' \<or> x = InReadUnlock (FaRU_notify 0)
        \<or> v \<in> fa_writeCond l \<and> fa_activeReaders l \<le> fa_activeReaders l'
          \<and> ph t \<noteq> InReadUnlock (FaRU_notify 0)"
    and rsleep: "fa_readCond l' \<noteq> {} \<Longrightarrow> fa_committed ((ph(t := x)) v)"
  shows "fa_solo v l' (ph(t := x))"
  unfolding fa_solo_def
proof (intro conjI allI impI)
  show "fa_inv l' (ph(t := x))" by (rule inv')
  show "\<not> fa_writer ((ph(t := x)) u)" if "u \<noteq> v" for u
    using assms(3) that fa_solo_facts(2) [OF solo, of u] by simp
  show "fa_committed ((ph(t := x)) v)" if "fa_readCond l' \<noteq> {}" by (rule rsleep [OF that])
  assume v: "v \<in> fa_writeCond l'"
  show "0 < fa_activeReaders l' \<or> (\<exists>u. (ph(t := x)) u = InReadUnlock (FaRU_notify 0))"
  proof (cases "0 < fa_activeReaders l' \<or> x = InReadUnlock (FaRU_notify 0)")
    case False
    with sleep [OF v] have old: "v \<in> fa_writeCond l" "fa_activeReaders l \<le> fa_activeReaders l'"
      "ph t \<noteq> InReadUnlock (FaRU_notify 0)" by auto
    from False fa_solo_facts(3) [OF solo old(1)] old(2)
    obtain u where "ph u = InReadUnlock (FaRU_notify 0)" by auto
    with old(3) show ?thesis by (intro disjI2 exI [of _ u]) auto
  qed auto
qed

lemma fa_solo_readLock:
  assumes solo: "fa_solo v l ph" and ph: "ph t = InReadLock p"
    and step: "fa_readLock p t w (l, c) = Done (l', c', r)"
  shows "fa_solo v l' (ph(t := resume InReadLock Reading r))"
proof (rule fa_solo_move [OF solo fa_readLock_inv [OF fa_solo_facts(1) [OF solo] ph step]])
  note inv = fa_solo_facts(1) [OF solo]
  show "\<not> fa_writer (resume InReadLock Reading r)"
    by (cases r) (simp_all add: fa_writer_def)
  have frame: "fa_writeCond l' = fa_writeCond l \<and> fa_activeReaders l \<le> fa_activeReaders l'"
    using step by (cases p; clarsimp simp: fa_step_simps split: if_splits)
  then show "v \<in> fa_writeCond l' \<Longrightarrow> 0 < fa_activeReaders l'
      \<or> resume InReadLock Reading r = InReadUnlock (FaRU_notify 0)
      \<or> v \<in> fa_writeCond l \<and> fa_activeReaders l \<le> fa_activeReaders l'
        \<and> ph t \<noteq> InReadUnlock (FaRU_notify 0)" by (simp add: ph)
  assume r: "fa_readCond l' \<noteq> {}"
  have "fa_committed (ph v)"
  proof (cases "fa_readCond l = {}")
    case True
    then have "p = FaRL_wait" using step r by (cases p; clarsimp simp: fa_step_simps split: if_splits)
    then have "fa_activeWriter l \<or> 0 < fa_waitingWriters l"
      using fa_inv_facts(3) [OF inv, of t] ph by simp
    then show ?thesis by (rule fa_solo_committed [OF solo])
  qed (rule fa_solo_facts(4) [OF solo])
  moreover from this have "t \<noteq> v" using ph by (auto simp: fa_committed_def)
  ultimately show "fa_committed ((ph(t := resume InReadLock Reading r)) v)" by simp
qed

lemma fa_notify_done:
  assumes "fa_readUnlock (FaRU_notify rc) t w (l, c) = Done (l', c', r)"
  shows "fa_activeReaders l' = fa_activeReaders l \<and> fa_readCond l' \<subseteq> fa_readCond l
       \<and> fa_writeCond l' \<subseteq> fa_writeCond l
       \<and> (rc = 0 \<longrightarrow> 0 < fa_waitingWriters l \<longrightarrow> fa_writeCond l \<noteq> {} \<longrightarrow>
            (\<exists>u \<in> fa_writeCond l. fa_writeCond l' = fa_writeCond l - {u}))"
  using assms by (clarsimp simp: fa_step_simps split: if_splits wakeup.splits) blast

lemma fa_readUnlock_frame:
  assumes "fa_readUnlock p t w (l, c) = Done (l', c', r)"
  shows "fa_readCond l' \<subseteq> fa_readCond l \<and> fa_writeCond l' \<subseteq> fa_writeCond l
       \<and> (p = FaRU_fetch_sub \<and> fa_activeReaders l' = fa_activeReaders l - 1
            \<and> r = Some (FaRU_notify (fa_activeReaders l - 1))
        \<or> p \<noteq> FaRU_fetch_sub \<and> fa_activeReaders l' = fa_activeReaders l)"
proof (cases p)
  case (FaRU_notify rc)
  then show ?thesis using fa_notify_done [of rc t w l c l' c' r] assms by blast
qed (use assms in \<open>clarsimp simp: fa_step_simps split: if_splits\<close>)+

lemma fa_solo_readUnlock:
  assumes solo: "fa_solo v l ph" and ph: "ph t = InReadUnlock p"
    and step: "fa_readUnlock p t w (l, c) = Done (l', c', r)"
  shows "fa_solo v l' (ph(t := resume InReadUnlock Outside r))"
proof (rule fa_solo_move [OF solo fa_readUnlock_inv [OF fa_solo_facts(1) [OF solo] ph step]])
  note inv = fa_solo_facts(1) [OF solo]
  note frame = fa_readUnlock_frame [OF step]
  show "\<not> fa_writer (resume InReadUnlock Outside r)"
    by (cases r) (simp_all add: fa_writer_def)
  show "0 < fa_activeReaders l' \<or> resume InReadUnlock Outside r = InReadUnlock (FaRU_notify 0)
      \<or> v \<in> fa_writeCond l \<and> fa_activeReaders l \<le> fa_activeReaders l'
        \<and> ph t \<noteq> InReadUnlock (FaRU_notify 0)" if v: "v \<in> fa_writeCond l'"
  proof (cases "p = FaRU_fetch_sub")
    case True
    then have "1 \<le> fa_activeReaders l" using fa_ractive_pos(1) [OF inv, of t] ph by simp
    with True frame show ?thesis by (cases "fa_activeReaders l = 1") auto
  next
    case False
    have old: "v \<in> fa_writeCond l" using frame v by blast
    have "p \<noteq> FaRU_notify 0"
    proof
      assume "p = FaRU_notify 0"
      then obtain u where "u \<in> fa_writeCond l" "fa_writeCond l' = fa_writeCond l - {u}"
        using fa_notify_done step fa_solo_writeCond(3) [OF solo old] old by blast
      with v fa_solo_writeCond(1) [OF solo, of u] show False by simp
    qed
    with False frame old ph show ?thesis by simp
  qed
  assume "fa_readCond l' \<noteq> {}"
  then have "fa_readCond l \<noteq> {}" using frame by blast
  then have "fa_committed (ph v)" by (rule fa_solo_facts(4) [OF solo])
  moreover from this have "t \<noteq> v" using ph by (auto simp: fa_committed_def)
  ultimately show "fa_committed ((ph(t := resume InReadUnlock Outside r)) v)" by simp
qed

lemma fa_solo_is_writer: "fa_solo v l ph \<Longrightarrow> fa_writer (ph t) \<Longrightarrow> t = v"
  using fa_solo_facts(2) [of v l ph t] by blast

lemma fa_writeLock_frame:
  assumes "fa_writeLock p t w (l, c) = Done (l', c', r)"
  shows "fa_readCond l' = fa_readCond l
       \<and> (t \<in> fa_writeCond l' \<longrightarrow> p = FaWL_wait \<or> t \<in> fa_writeCond l \<and> p \<noteq> FaWL_asleep)
       \<and> (p = FaWL_wait \<longrightarrow> fa_activeReaders l' = fa_activeReaders l)
       \<and> (p \<noteq> FaWL_waiting \<and> p \<noteq> FaWL_lock \<longrightarrow> fa_committed (resume InWriteLock Writing r))"
  using assms
  by (cases p; clarsimp simp: fa_step_simps fa_committed_def split: if_splits)

lemma fa_solo_writeLock:
  assumes solo: "fa_solo v l ph" and ph: "ph t = InWriteLock p"
    and step: "fa_writeLock p t w (l, c) = Done (l', c', r)"
  shows "fa_solo v l' (ph(t := resume InWriteLock Writing r))"
proof (rule fa_solo_move [OF solo fa_writeLock_inv [OF fa_solo_facts(1) [OF solo] ph step]])
  note inv = fa_solo_facts(1) [OF solo]
  note frame = fa_writeLock_frame [OF step]
  have t: "t = v" by (rule fa_solo_is_writer [OF solo]) (simp add: ph fa_writer_def)
  then show "t \<noteq> v \<Longrightarrow> \<not> fa_writer (resume InWriteLock Writing r)" by simp
  show "0 < fa_activeReaders l' \<or> resume InWriteLock Writing r = InReadUnlock (FaRU_notify 0)
      \<or> v \<in> fa_writeCond l \<and> fa_activeReaders l \<le> fa_activeReaders l'
        \<and> ph t \<noteq> InReadUnlock (FaRU_notify 0)" if v: "v \<in> fa_writeCond l'"
  proof -
    have "v \<notin> fa_writeCond l" if "p \<noteq> FaWL_asleep"
      using fa_solo_writeCond(2) [OF solo, of v] that ph t by auto
    with frame v t have p: "p = FaWL_wait" by blast
    then have "0 < fa_activeReaders l \<or> fa_activeWriter l"
      using fa_inv_facts(3) [OF inv, of t] ph by simp
    moreover have "\<not> fa_activeWriter l"
      using fa_solo_active_writer [OF solo] ph t p by auto
    ultimately show ?thesis using frame p by simp
  qed
  assume "fa_readCond l' \<noteq> {}"
  then have "fa_committed (ph v)" using frame fa_solo_facts(4) [OF solo] by simp
  then have "p \<noteq> FaWL_waiting \<and> p \<noteq> FaWL_lock" using ph t by (auto simp: fa_committed_def)
  then show "fa_committed ((ph(t := resume InWriteLock Writing r)) v)" using frame t by simp
qed

lemma fa_writeUnlock_frame:
  assumes "fa_writeUnlock p t w (l, c) = Done (l', c', r)"
  shows "fa_writeCond l' \<subseteq> fa_writeCond l \<and> fa_readCond l' \<subseteq> fa_readCond l
       \<and> (p = FaWU_lock \<or> p = FaWU_store \<longrightarrow> fa_committed (resume InWriteUnlock Outside r))
       \<and> (p = FaWU_notify \<and> 0 < fa_waitingReaders l \<longrightarrow> fa_readCond l' = {})"
  using assms
  by (cases p; clarsimp simp: fa_step_simps fa_committed_def split: if_splits wakeup.splits; blast)

lemma fa_solo_writeUnlock:
  assumes solo: "fa_solo v l ph" and ph: "ph t = InWriteUnlock p"
    and step: "fa_writeUnlock p t w (l, c) = Done (l', c', r)"
  shows "fa_solo v l' (ph(t := resume InWriteUnlock Outside r))"
proof (rule fa_solo_move [OF solo fa_writeUnlock_inv [OF fa_solo_facts(1) [OF solo] ph step]])
  note inv = fa_solo_facts(1) [OF solo]
  note frame = fa_writeUnlock_frame [OF step]
  have t: "t = v" by (rule fa_solo_is_writer [OF solo]) (simp add: ph fa_writer_def)
  then show "t \<noteq> v \<Longrightarrow> \<not> fa_writer (resume InWriteUnlock Outside r)" by simp
  have "v \<notin> fa_writeCond l" using fa_solo_writeCond(2) [OF solo, of v] ph t by auto
  with frame show "v \<in> fa_writeCond l' \<Longrightarrow> 0 < fa_activeReaders l'
      \<or> resume InWriteUnlock Outside r = InReadUnlock (FaRU_notify 0)
      \<or> v \<in> fa_writeCond l \<and> fa_activeReaders l \<le> fa_activeReaders l'
        \<and> ph t \<noteq> InReadUnlock (FaRU_notify 0)" by blast
  assume r: "fa_readCond l' \<noteq> {}"
  then have old: "fa_readCond l \<noteq> {}" using frame by blast
  then have "fa_committed (ph v)" by (rule fa_solo_facts(4) [OF solo])
  then have "p = FaWU_lock \<or> p = FaWU_store \<or> p = FaWU_notify"
    using ph t by (auto simp: fa_committed_def)
  moreover have "p \<noteq> FaWU_notify"
    using frame r old fa_readCond_waiting [OF inv] fa_counts_nonneg [OF inv] by fastforce
  ultimately show "fa_committed ((ph(t := resume InWriteUnlock Outside r)) v)" using frame t by simp
qed

text \<open>A call can act without a spurious wakeup unless it wants a mutex that is taken, or sleeps.\<close>

lemma fa_can_act:
  assumes inv: "fa_inv (shared s) (phase s)" and call: "in_call (phase s t)"
    and mtx: "fa_holds (phase s t) \<or> fa_mtx (shared s) = None"
    and awake: "t \<notin> fa_readCond (shared s)" "t \<notin> fa_writeCond (shared s)"
  shows "\<exists>u s'. advance fa_class t (Pick u) s = Done s'"
proof -
  have "fa_mtx (shared s) = Some t" if "fa_holds (phase s t)" using fa_mtx_at [OF inv that] .
  obtain u where u: "fa_writeCond (shared s) \<noteq> {} \<longrightarrow> u \<in> fa_writeCond (shared s)" by blast
  have "\<exists>s'. advance fa_class t (Pick u) s = Done s'"
    using call mtx awake u fa_inv_facts(4) [OF inv, of t]
    by (cases "phase s t")
       (auto simp: advance_def run_method_def fa_step_simps split: fa_point.splits)
  then show ?thesis ..
qed

lemma fa_not_deadlocked:
  assumes solo: "fa_solo v (shared s) (phase s)"
  shows "\<not> deadlocked fa_class s"
proof
  assume dead: "deadlocked fa_class s"
  note inv = fa_solo_facts(1) [OF solo]
  have no_act: "advance fa_class t (Pick u) s \<noteq> Done s'" for t u s'
  proof -
    have "\<not> starts_request (ActWake t u)" "\<not> spurious_event (ActWake t u)"
      by (simp_all add: starts_request_def spurious_event_def)
    then have "sched_do fa_class (ActWake t u) s \<noteq> Done s'"
      using dead unfolding deadlocked_def by blast
    then show ?thesis by simp
  qed
  have idle: "phase s t \<noteq> Reading" "phase s t \<noteq> Writing" for t
    using dead unfolding deadlocked_def by blast+
  have holds_awake: "fa_holds x \<Longrightarrow> in_call x \<and> x \<noteq> InReadLock FaRL_asleep \<and> x \<noteq> InWriteLock FaWL_asleep"
    for x by (cases x) auto
  have free: "fa_mtx (shared s) = None"
  proof (rule ccontr)
    assume "fa_mtx (shared s) \<noteq> None"
    then obtain t where "fa_mtx (shared s) = Some t" by auto
    then have t: "fa_holds (phase s t)" using fa_inv_facts(2) [OF inv] by blast
    with fa_can_act [OF inv] holds_awake [OF t] fa_cond_at [OF inv] no_act show False by metis
  qed
  have asleep: "t \<in> fa_readCond (shared s) \<or> t \<in> fa_writeCond (shared s)" if "in_call (phase s t)" for t
    using fa_can_act [OF inv that disjI2 [OF free]] no_act by blast
  have cond: "phase s t = InReadLock FaRL_asleep \<or> phase s t = InWriteLock FaWL_asleep"
    if "in_call (phase s t)" for t
    using asleep [OF that] fa_cond_at [OF inv] by blast
  have "fa_activeReaders (shared s) = 0"
  proof -
    have "\<not> fa_ractive (phase s t)" for t
      using cond [of t] idle [of t] by (cases "phase s t") auto
    then show ?thesis
      using fa_inv_counts(1) [OF inv] tcount_eq_0 [of Outside "phase s" fa_ractive]
        fa_inv_facts(1) [OF inv] by simp
  qed
  moreover have "phase s t \<noteq> InReadUnlock (FaRU_notify 0)" for t using cond [of t] by auto
  ultimately have w: "v \<notin> fa_writeCond (shared s)" using fa_solo_facts(3) [OF solo] by auto
  obtain t where "in_call (phase s t)" using dead unfolding deadlocked_def by blast
  from asleep [OF this] fa_solo_writeCond(1) [OF solo] w
  have "fa_readCond (shared s) \<noteq> {}" by blast
  then have c: "fa_committed (phase s v)" by (rule fa_solo_facts(4) [OF solo])
  then have "in_call (phase s v)" using idle [of v] by (auto simp: fa_committed_def)
  with cond [OF this] c w asleep [OF this] fa_cond_at(1) [OF inv, of v] show False
    by (auto simp: fa_committed_def)
qed

lemma fa_solo_calls:
  assumes solo: "fa_solo v (shared s) (phase s)" and step: "sched_do fa_class e s = Done s'"
    and only: "\<forall>t. e = CallWriteLock t \<longrightarrow> t = v"
  shows "fa_solo v (shared s') (phase s')"
proof -
  have adv: "fa_solo v (shared s') (phase s')" if "advance fa_class t w s = Done s'" for t w
    using that by (cases rule: advance_cases)
      (auto intro: fa_solo_readLock [OF solo] fa_solo_readUnlock [OF solo]
         fa_solo_writeLock [OF solo] fa_solo_writeUnlock [OF solo])
  have inv': "fa_inv (shared s') (phase s')"
    by (rule fa.inv_lock_step [OF sched_do_step [OF step] fa_solo_facts(1) [OF solo]])
  have call: "fa_solo v (shared s) ((phase s)(t := x))"
    if "fa_inv (shared s) ((phase s)(t := x))" "\<not> in_call (phase s t)"
      "fa_committed (phase s t) \<longrightarrow> fa_committed x" "t \<noteq> v \<longrightarrow> \<not> fa_writer x" for t x
  proof (rule fa_solo_move [OF solo that(1)])
    show "t \<noteq> v \<Longrightarrow> \<not> fa_writer x" using that(4) by blast
    show "fa_readCond (shared s) \<noteq> {} \<Longrightarrow> fa_committed (((phase s)(t := x)) v)"
      using fa_solo_facts(4) [OF solo] that(3) by auto
    show "v \<in> fa_writeCond (shared s) \<Longrightarrow> 0 < fa_activeReaders (shared s)
      \<or> x = InReadUnlock (FaRU_notify 0)
      \<or> v \<in> fa_writeCond (shared s) \<and> fa_activeReaders (shared s) \<le> fa_activeReaders (shared s)
        \<and> phase s t \<noteq> InReadUnlock (FaRU_notify 0)" using that(2) by auto
  qed
  have own: "t = v" if "phase s t = Writing" for t
    by (rule fa_solo_is_writer [OF solo]) (simp add: that fa_writer_def)
  show ?thesis
  proof (cases e)
    case (CallReadLock t)
    with step inv' show ?thesis
      by (auto simp: fa_committed_def fa_writer_def split: phase.splits intro!: call)
  next
    case (CallReadUnlock t)
    with step inv' show ?thesis
      by (auto simp: fa_committed_def fa_writer_def split: phase.splits intro!: call)
  next
    case (CallWriteLock t)
    with step inv' only show ?thesis
      by (auto simp: fa_committed_def fa_writer_def split: phase.splits intro!: call)
  next
    case (CallWriteUnlock t)
    with step have t: "phase s t = Writing"
      and s': "s' = s\<lparr>phase := (phase s)(t := InWriteUnlock FaWU_lock)\<rparr>"
      by (auto split: phase.splits)
    have "fa_solo v (shared s) ((phase s)(t := InWriteUnlock FaWU_lock))"
      by (rule call) (use inv' own [OF t] t s' in \<open>simp_all add: fa_committed_def\<close>)
    then show ?thesis by (simp add: s')
  qed (use step adv in auto)
qed

lemma fa_solo_run:
  "sched_run fa_class es s = Done s' \<Longrightarrow> fa_solo v (shared s) (phase s) \<Longrightarrow>
     \<forall>t. CallWriteLock t \<in> set es \<longrightarrow> t = v \<Longrightarrow> fa_solo v (shared s') (phase s')"
proof (induction es arbitrary: s)
  case (Cons e es)
  then obtain s1 where s1: "sched_do fa_class e s = Done s1" "sched_run fa_class es s1 = Done s'"
    by (auto simp: outcome_simps)
  have "fa_solo v (shared s1) (phase s1)"
    by (rule fa_solo_calls [OF Cons.prems(2) s1(1)]) (use Cons.prems(3) in auto)
  from Cons.IH [OF s1(2) this] Cons.prems(3) show ?case by simp
qed simp

lemma fa_solo_start: "fa_solo v (shared fa_start) (phase fa_start)"
  using fa_init by (simp add: fa_solo_def lock_start_def fa_writer_def FairMorrisLock_def)

text \<open>
  With a single writer \<open>FairMorrisLock\<close> cannot deadlock: however many readers there are, and
  whatever the interleaving, in every state reached by a schedule in which only thread \<open>v\<close> calls
  \<open>writeLock\<close>, either a thread holds the lock or some call in progress can act without a spurious
  wakeup.
\<close>

lemma fa_single_writer_deadlock_free:
  assumes "sched_run fa_class es (lock_start FairMorrisLock) = Done s"
    and "\<forall>t. CallWriteLock t \<in> set es \<longrightarrow> t = v"
  shows "\<not> deadlocked fa_class s"
  by (rule fa_not_deadlocked [OF fa_solo_run [OF assms(1) fa_solo_start assms(2)]])

text \<open>The interleaving of the deadlock with its second writer left out.\<close>

end
