(* ===== verification/Shared_Resource.thy ===== *)
theory Shared_Resource
  imports RW_Prelude
begin

text \<open>
  \<open>include/shared_resource.hpp\<close>: the data the locks protect, one integer and two operation counters,
  none of them atomic.  A C++ \<open>++x\<close> on a plain \<open>int\<close> loads and then stores; each member function that
  increments is given both as one update, and as its two halves for the use under concurrency.
\<close>

record SharedResource =
  sr_data :: int
  sr_readCount :: int
  sr_writeCount :: int

definition SharedResource_ctor :: SharedResource where
  "SharedResource_ctor = \<lparr>sr_data = 0, sr_readCount = 0, sr_writeCount = 0\<rparr>"

definition resource_read :: "SharedResource \<Rightarrow> int" where
  "resource_read r = sr_data r"

definition recordRead :: "SharedResource \<Rightarrow> SharedResource" where
  "recordRead r = r\<lparr>sr_readCount := sr_readCount r + 1\<rparr>"

definition resource_write :: "int \<Rightarrow> SharedResource \<Rightarrow> SharedResource" where
  "resource_write v r = r\<lparr>sr_data := v\<rparr>"

definition increment :: "SharedResource \<Rightarrow> SharedResource" where
  "increment r = r\<lparr>sr_data := sr_data r + 1\<rparr>"

definition recordWrite :: "SharedResource \<Rightarrow> SharedResource" where
  "recordWrite r = r\<lparr>sr_writeCount := sr_writeCount r + 1\<rparr>"

definition resource_reset :: "SharedResource \<Rightarrow> SharedResource" where
  "resource_reset r = r\<lparr>sr_data := 0, sr_readCount := 0, sr_writeCount := 0\<rparr>"

text \<open>The store half of each increment, given the value the load half saw.\<close>

definition recordRead_store :: "int \<Rightarrow> SharedResource \<Rightarrow> SharedResource" where
  "recordRead_store v r = r\<lparr>sr_readCount := v + 1\<rparr>"

definition increment_store :: "int \<Rightarrow> SharedResource \<Rightarrow> SharedResource" where
  "increment_store v r = r\<lparr>sr_data := v + 1\<rparr>"

definition recordWrite_store :: "int \<Rightarrow> SharedResource \<Rightarrow> SharedResource" where
  "recordWrite_store v r = r\<lparr>sr_writeCount := v + 1\<rparr>"

lemma undisturbed_increments:
  "recordRead_store (sr_readCount r) r = recordRead r"
  "increment_store (sr_data r) r = increment r"
  "recordWrite_store (sr_writeCount r) r = recordWrite r"
  by (simp_all add: recordRead_store_def recordRead_def increment_store_def increment_def
        recordWrite_store_def recordWrite_def)

lemma resource_stores [simp]:
  "sr_data (recordRead_store v r) = sr_data r"
  "sr_readCount (recordRead_store v r) = v + 1"
  "sr_writeCount (recordRead_store v r) = sr_writeCount r"
  "sr_data (increment_store v r) = v + 1"
  "sr_readCount (increment_store v r) = sr_readCount r"
  "sr_writeCount (increment_store v r) = sr_writeCount r"
  "sr_data (recordWrite_store v r) = sr_data r"
  "sr_readCount (recordWrite_store v r) = sr_readCount r"
  "sr_writeCount (recordWrite_store v r) = v + 1"
  by (simp_all add: recordRead_store_def increment_store_def recordWrite_store_def)

lemma resource_start [simp]:
  "sr_data SharedResource_ctor = 0" "sr_readCount SharedResource_ctor = 0"
  "sr_writeCount SharedResource_ctor = 0"
  by (simp_all add: SharedResource_ctor_def)

end
