(* ===== verification/Worker.thy ===== *)
theory Worker
  imports Lock_Base Shared_Resource
begin

text \<open>
  The thread functions of \<open>src/main.cpp\<close>, \<open>readerThread\<close> and \<open>writerThread\<close>, over any lock class, and
  the system of all workers of one simulation.  A worker runs one atomic action at a time: an access
  to the shared operation counter \<open>opsRemaining\<close>, a load or a store of the shared resource, one
  action of a lock call, or an update of its own record together with the log line that goes with it.
  \<open>usleep\<close> changes nothing.
\<close>

section \<open>Threads of a simulation\<close>

record ThreadArg =
  arg_type :: ThreadType
  arg_isAbortTarget :: bool

definition thread_arg :: "SimConfig \<Rightarrow> tid \<Rightarrow> ThreadArg" where
  "thread_arg cfg t =
     (if int t < cfg_numReaders cfg then \<lparr>arg_type = READER, arg_isAbortTarget = False\<rparr>
      else \<lparr>arg_type = WRITER,
            arg_isAbortTarget = (int t = cfg_numReaders cfg \<and> cfg_enableAbortTest cfg)\<rparr>)"

definition num_threads :: "SimConfig \<Rightarrow> nat" where
  "num_threads cfg = nat (cfg_numReaders cfg + cfg_numWriters cfg)"

text \<open>The records as \<open>runSimulation\<close> fills them in: ids from 1, readers first.\<close>

definition initial_info :: "SimConfig \<Rightarrow> tid \<Rightarrow> ThreadInfo" where
  "initial_info cfg t =
     default_ThreadInfo\<lparr>ti_tid := int t + 1, ti_type := arg_type (thread_arg cfg t),
                        ti_algo := cfg_algo cfg\<rparr>"

text \<open>Where a worker stands in its thread function; \<open>W_new\<close> before \<open>pthread_create\<close>.\<close>

datatype worker_point =
    W_new | W_init | W_top | W_fetch | W_refund | W_call_lock | W_in_lock | W_locked
  | W_read | W_load | W_store int | W_count_load | W_count_store int | W_done_op
  | W_call_unlock | W_in_unlock | W_finish | W_exit
  | W_abort_unlock | W_in_abort_unlock | W_abort_exit | W_aborted

record ('l, 'p) sim =
  lk :: "('l, 'p) lsys"
  res :: SharedResource
  opsRemaining :: "32 word"
  points :: "tid \<Rightarrow> worker_point"
  abortSignal :: bool

definition goto :: "tid \<Rightarrow> worker_point \<Rightarrow> ('l, 'p) sim \<Rightarrow> ('l, 'p) sim" where
  "goto t p s = s\<lparr>points := (points s)(t := p)\<rparr>"

definition set_info :: "tid \<Rightarrow> (ThreadInfo \<Rightarrow> ThreadInfo) \<Rightarrow> ('l, 'p) sim \<Rightarrow> ('l, 'p) sim" where
  "set_info t f s = s\<lparr>lk := (lk s)\<lparr>infos := (infos (lk s))(t := f (infos (lk s) t))\<rparr>\<rparr>"

definition worker_log ::
    "tid \<Rightarrow> ThreadState \<Rightarrow> int \<Rightarrow> string \<Rightarrow> ('l, 'p) sim \<Rightarrow> ('l, 'p) sim" where
  "worker_log t st w msg s =
     s\<lparr>lk := (lk s)\<lparr>logger := log_record (infos (lk s) t) st w msg (logger (lk s))\<rparr>\<rparr>"

definition worker_summary :: "tid \<Rightarrow> ('l, 'p) sim \<Rightarrow> ('l, 'p) sim" where
  "worker_summary t s =
     s\<lparr>lk := (lk s)\<lparr>logger := log_summary (infos (lk s) t) (logger (lk s))\<rparr>\<rparr>"

definition enter_call :: "tid \<Rightarrow> 'p phase \<Rightarrow> ('l, 'p) sim \<Rightarrow> ('l, 'p) sim" where
  "enter_call t x s = s\<lparr>lk := (lk s)\<lparr>phase := (phase (lk s))(t := x)\<rparr>\<rparr>"

text \<open>One action of the lock call in progress; the worker moves on when the call has returned.\<close>

definition in_lock_call ::
    "('l, 'p) RWLockBase \<Rightarrow> tid \<Rightarrow> wakeup \<Rightarrow> 'p phase \<Rightarrow> worker_point \<Rightarrow> worker_point
       \<Rightarrow> ('l, 'p) sim \<Rightarrow> (errno, ('l, 'p) sim) outcome" where
  "in_lock_call L t w returned after during s =
     bind_outcome (advance L t w (lk s))
       (\<lambda>k. Done (goto t (if phase k t = returned then after else during) (s\<lparr>lk := k\<rparr>)))"

text \<open>\<open>opsRemaining->fetch_sub(1)\<close> and the test of the value it returns.\<close>

definition fetch_op :: "tid \<Rightarrow> ('l, 'p) sim \<Rightarrow> ('l, 'p) sim" where
  "fetch_op t s =
     (let remaining = opsRemaining s
      in goto t (if sint remaining \<le> 0 then W_refund else W_call_lock)
           (s\<lparr>opsRemaining := remaining - 1\<rparr>))"

definition refund_op :: "tid \<Rightarrow> ('l, 'p) sim \<Rightarrow> ('l, 'p) sim" where
  "refund_op t s = goto t W_finish (s\<lparr>opsRemaining := opsRemaining s + 1\<rparr>)"

definition complete_op :: "ThreadInfo \<Rightarrow> ThreadInfo" where
  "complete_op i = i\<lparr>ti_opsCompleted := ti_opsCompleted i + 1\<rparr>"

section \<open>readerThread\<close>

text \<open>
  \<open>W_finish\<close> is the end of the function as one action: the store of \<open>DONE\<close>, \<open>doneTime\<close>, the last record and the
  summary.  \<open>Record_Grain\<close> and \<open>Log_Threads\<close> treat stores to a record and calls of the logger singly.
\<close>

fun readerThread ::
    "('l, 'p) RWLockBase \<Rightarrow> tid \<Rightarrow> wakeup \<Rightarrow> worker_point \<Rightarrow> ('l, 'p) sim
       \<Rightarrow> (errno, ('l, 'p) sim) outcome" where
  "readerThread L t w W_init s =
     Done (goto t W_fetch (worker_log t INIT 0 ''Reader thread started''
             (set_info t (\<lambda>i. i\<lparr>ti_state := INIT\<rparr>) s)))"
| "readerThread L t w W_fetch s = Done (fetch_op t s)"
| "readerThread L t w W_refund s = Done (refund_op t s)"
| "readerThread L t w W_call_lock s =
     Done (goto t W_in_lock (enter_call t (InReadLock (readLock_entry L)) s))"
| "readerThread L t w W_in_lock s = in_lock_call L t w Reading W_read W_in_lock s"
| "readerThread L t w W_read s = Done (goto t W_count_load s)"
| "readerThread L t w W_count_load s = Done (goto t (W_count_store (sr_readCount (res s))) s)"
| "readerThread L t w (W_count_store v) s =
     Done (goto t W_done_op (s\<lparr>res := recordRead_store v (res s)\<rparr>))"
| "readerThread L t w W_done_op s = Done (goto t W_call_unlock (set_info t complete_op s))"
| "readerThread L t w W_call_unlock s =
     Done (goto t W_in_unlock (enter_call t (InReadUnlock (readUnlock_entry L)) s))"
| "readerThread L t w W_in_unlock s = in_lock_call L t w Outside W_fetch W_in_unlock s"
| "readerThread L t w W_finish s =
     Done (goto t W_exit (worker_summary t (worker_log t DONE (- 1) ''Reader thread finished''
             (set_info t (\<lambda>i. i\<lparr>ti_state := DONE, ti_doneTime := now (lk s)\<rparr>) s))))"
| "readerThread L t w _ s = Blocked"

section \<open>writerThread\<close>

text \<open>The argument \<open>target\<close> is \<open>isAbortTarget\<close>.\<close>

fun writerThread ::
    "('l, 'p) RWLockBase \<Rightarrow> bool \<Rightarrow> tid \<Rightarrow> wakeup \<Rightarrow> worker_point \<Rightarrow> ('l, 'p) sim
       \<Rightarrow> (errno, ('l, 'p) sim) outcome" where
  "writerThread L target t w W_init s =
     (let s1 = (if target
                then worker_log t INIT 0 ''Writer TC-12 abort target: SIGUSR1 handler installed'' s
                else s)
      in Done (goto t W_top (worker_log t INIT 0 ''Writer thread started''
                (set_info t (\<lambda>i. i\<lparr>ti_state := INIT\<rparr>) s1))))"
| "writerThread L target t w W_top s =
     (if target \<and> abortSignal s
      then Done (goto t W_finish
             (worker_log t DONE (- 1) ''Writer TC-12: abort signal received, exiting cleanly'' s))
      else Done (goto t W_fetch s))"
| "writerThread L target t w W_fetch s = Done (fetch_op t s)"
| "writerThread L target t w W_refund s = Done (refund_op t s)"
| "writerThread L target t w W_call_lock s =
     Done (goto t W_in_lock (enter_call t (InWriteLock (writeLock_entry L)) s))"
| "writerThread L target t w W_in_lock s = in_lock_call L t w Writing W_locked W_in_lock s"
| "writerThread L target t w W_locked s =
     Done (goto t (if target \<and> abortSignal s then W_abort_unlock else W_load) s)"
| "writerThread L target t w W_load s = Done (goto t (W_store (sr_data (res s))) s)"
| "writerThread L target t w (W_store v) s =
     Done (goto t W_count_load (s\<lparr>res := increment_store v (res s)\<rparr>))"
| "writerThread L target t w W_count_load s = Done (goto t (W_count_store (sr_writeCount (res s))) s)"
| "writerThread L target t w (W_count_store v) s =
     Done (goto t W_done_op (s\<lparr>res := recordWrite_store v (res s)\<rparr>))"
| "writerThread L target t w W_done_op s = Done (goto t W_call_unlock (set_info t complete_op s))"
| "writerThread L target t w W_call_unlock s =
     Done (goto t W_in_unlock (enter_call t (InWriteUnlock (writeUnlock_entry L)) s))"
| "writerThread L target t w W_in_unlock s = in_lock_call L t w Outside W_top W_in_unlock s"
| "writerThread L target t w W_finish s =
     Done (goto t W_exit (worker_summary t (worker_log t DONE (- 1) ''Writer thread finished''
             (set_info t (\<lambda>i. i\<lparr>ti_state := DONE, ti_doneTime := now (lk s)\<rparr>) s))))"
| "writerThread L target t w W_abort_unlock s =
     Done (goto t W_in_abort_unlock (enter_call t (InWriteUnlock (writeUnlock_entry L)) s))"
| "writerThread L target t w W_in_abort_unlock s =
     in_lock_call L t w Outside W_abort_exit W_in_abort_unlock s"
| "writerThread L target t w W_abort_exit s =
     Done (goto t W_aborted (worker_summary t (worker_log t DONE (- 1)
             ''Writer TC-12: abort signal received mid-operation, lock released cleanly''
             (set_info t (\<lambda>i. i\<lparr>ti_state := DONE\<rparr>) s))))"
| "writerThread L target t w _ s = Blocked"

section \<open>All workers together\<close>

definition worker_act ::
    "('l, 'p) RWLockBase \<Rightarrow> SimConfig \<Rightarrow> tid \<Rightarrow> wakeup \<Rightarrow> ('l, 'p) sim
       \<Rightarrow> (errno, ('l, 'p) sim) outcome" where
  "worker_act L cfg t w s =
     (if num_threads cfg \<le> t then Blocked
      else if points s t = W_new then Done (goto t W_init s)
      else if arg_type (thread_arg cfg t) = READER then readerThread L t w (points s t) s
      else writerThread L (arg_isAbortTarget (thread_arg cfg t)) t w (points s t) s)"

text \<open>
  What other parts of the program may change in a worker's record while it runs: the watchdog writes
  the state and the starvation count.
\<close>

definition watchdog_may_change :: "ThreadInfo \<Rightarrow> ThreadInfo \<Rightarrow> bool" where
  "watchdog_may_change i j \<longleftrightarrow> j\<lparr>ti_state := ti_state i, ti_starveCount := ti_starveCount i\<rparr> = i"

definition handler_installed :: "SimConfig \<Rightarrow> ('l, 'p) sim \<Rightarrow> bool" where
  "handler_installed cfg s \<longleftrightarrow>
     (\<exists>t < num_threads cfg. arg_isAbortTarget (thread_arg cfg t)
        \<and> points s t \<noteq> W_new \<and> points s t \<noteq> W_init)"

text \<open>The signal handler sets the flag; before the handler is installed \<open>SIGUSR1\<close> ends the process.\<close>

inductive sim_step ::
    "('l, 'p) RWLockBase \<Rightarrow> SimConfig \<Rightarrow> ('l, 'p) sim \<Rightarrow> ('l, 'p) sim \<Rightarrow> bool" for L cfg where
  work: "worker_act L cfg t w s = Done s' \<Longrightarrow> sim_step L cfg s s'"
| sigusr1: "handler_installed cfg s \<Longrightarrow> sim_step L cfg s (s\<lparr>abortSignal := True\<rparr>)"
| environment: "(\<And>t. watchdog_may_change (infos (lk s) t) (i t)) \<Longrightarrow>
     sim_step L cfg s (s\<lparr>lk := (lk s)\<lparr>infos := i, logger := g, now := n, later := n'\<rparr>\<rparr>)"

inductive_cases sim_stepE: "sim_step L cfg s s'"

text \<open>
  The state before the first worker runs.  \<open>g_abortSignalReceived\<close> is one flag for the whole process that no
  statement resets; here it starts cleared in each simulation.  Only the abort target reads it, after it has
  installed the handler, and from then on \<open>sigusr1\<close> may set it at any time, also before the first read: a
  simulation that starts with the flag still set behaves like one in which the signal arrives at that moment.
\<close>

definition sim_start :: "'l \<Rightarrow> SimConfig \<Rightarrow> Logger \<Rightarrow> ('l, 'p) sim" where
  "sim_start l0 cfg g =
     \<lparr>lk = (lock_start l0)\<lparr>infos := initial_info cfg, logger := g\<rparr>, res = SharedResource_ctor,
      opsRemaining = word_of_int (cfg_totalOps cfg), points = (\<lambda>_. W_new), abortSignal = False\<rparr>"

section \<open>Workers are clients of the lock\<close>

text \<open>Which phases of the lock belong to which points of a thread function.\<close>

definition coherent :: "ThreadType \<Rightarrow> worker_point \<Rightarrow> 'p phase \<Rightarrow> bool" where
  "coherent ty p x \<longleftrightarrow> (case p of
       W_in_lock \<Rightarrow> if ty = READER then \<exists>q. x = InReadLock q else \<exists>q. x = InWriteLock q
     | W_in_unlock \<Rightarrow> if ty = READER then \<exists>q. x = InReadUnlock q else \<exists>q. x = InWriteUnlock q
     | W_in_abort_unlock \<Rightarrow> ty = WRITER \<and> (\<exists>q. x = InWriteUnlock q)
     | W_abort_unlock \<Rightarrow> ty = WRITER \<and> x = Writing
     | W_abort_exit \<Rightarrow> ty = WRITER \<and> x = Outside
     | W_aborted \<Rightarrow> ty = WRITER \<and> x = Outside
     | W_top \<Rightarrow> ty = WRITER \<and> x = Outside
     | W_locked \<Rightarrow> ty = WRITER \<and> x = Writing
     | W_load \<Rightarrow> ty = WRITER \<and> x = Writing
     | W_store v \<Rightarrow> ty = WRITER \<and> x = Writing
     | W_read \<Rightarrow> ty = READER \<and> x = Reading
     | W_count_load \<Rightarrow> x = (if ty = READER then Reading else Writing)
     | W_count_store v \<Rightarrow> x = (if ty = READER then Reading else Writing)
     | W_done_op \<Rightarrow> x = (if ty = READER then Reading else Writing)
     | W_call_unlock \<Rightarrow> x = (if ty = READER then Reading else Writing)
     | _ \<Rightarrow> x = Outside)"

lemma goto_simps [simp]:
  "lk (goto t p s) = lk s" "res (goto t p s) = res s" "opsRemaining (goto t p s) = opsRemaining s"
  "points (goto t p s) = (points s)(t := p)" "abortSignal (goto t p s) = abortSignal s"
  by (simp_all add: goto_def)

lemma set_info_simps [simp]:
  "shared (lk (set_info t f s)) = shared (lk s)" "phase (lk (set_info t f s)) = phase (lk s)"
  "infos (lk (set_info t f s)) = (infos (lk s))(t := f (infos (lk s) t))"
  "res (set_info t f s) = res s" "opsRemaining (set_info t f s) = opsRemaining s"
  "points (set_info t f s) = points s"
  by (simp_all add: set_info_def)

lemma worker_log_simps [simp]:
  "shared (lk (worker_log t st w m s)) = shared (lk s)"
  "phase (lk (worker_log t st w m s)) = phase (lk s)"
  "infos (lk (worker_log t st w m s)) = infos (lk s)"
  "res (worker_log t st w m s) = res s" "opsRemaining (worker_log t st w m s) = opsRemaining s"
  "points (worker_log t st w m s) = points s"
  "shared (lk (worker_summary t s)) = shared (lk s)"
  "phase (lk (worker_summary t s)) = phase (lk s)"
  "infos (lk (worker_summary t s)) = infos (lk s)"
  "res (worker_summary t s) = res s" "opsRemaining (worker_summary t s) = opsRemaining s"
  "points (worker_summary t s) = points s"
  by (simp_all add: worker_log_def worker_summary_def)

lemma enter_call_simps [simp]:
  "shared (lk (enter_call t x s)) = shared (lk s)"
  "phase (lk (enter_call t x s)) = (phase (lk s))(t := x)"
  "infos (lk (enter_call t x s)) = infos (lk s)"
  "res (enter_call t x s) = res s" "opsRemaining (enter_call t x s) = opsRemaining s"
  "points (enter_call t x s) = points s"
  by (simp_all add: enter_call_def)

lemma fetch_op_simps [simp]:
  "lk (fetch_op t s) = lk s" "res (fetch_op t s) = res s"
  "opsRemaining (fetch_op t s) = opsRemaining s - 1"
  "points (fetch_op t s)
     = (points s)(t := if sint (opsRemaining s) \<le> 0 then W_refund else W_call_lock)"
  by (simp_all add: fetch_op_def Let_def)

lemma refund_op_simps [simp]:
  "lk (refund_op t s) = lk s" "res (refund_op t s) = res s"
  "opsRemaining (refund_op t s) = opsRemaining s + 1" "points (refund_op t s) = (points s)(t := W_finish)"
  by (simp_all add: refund_op_def)

lemma lock_step_same:
  "shared s' = shared s \<Longrightarrow> phase s' = phase s \<Longrightarrow> lock_step L s s'"
  using lock_step.other [where L = L and s = s and i = "infos s'" and g = "logger s'"
      and n = "now s'" and n' = "later s'"]
  by (cases s; cases s') simp

lemma enter_call_lk: "lk (enter_call t x s) = (lk s)\<lparr>phase := (phase (lk s))(t := x)\<rparr>"
  by (simp add: enter_call_def)

lemma enter_readLock:
  assumes "phase (lk s) t = Outside"
  shows "lock_step L (lk s) (lk (enter_call t (InReadLock (readLock_entry L)) s))"
  unfolding enter_call_lk by (rule lock_step.call_readLock [OF assms])

lemma enter_readUnlock:
  assumes "phase (lk s) t = Reading"
  shows "lock_step L (lk s) (lk (enter_call t (InReadUnlock (readUnlock_entry L)) s))"
  unfolding enter_call_lk by (rule lock_step.call_readUnlock [OF assms])

lemma enter_writeLock:
  assumes "phase (lk s) t = Outside"
  shows "lock_step L (lk s) (lk (enter_call t (InWriteLock (writeLock_entry L)) s))"
  unfolding enter_call_lk by (rule lock_step.call_writeLock [OF assms])

lemma enter_writeUnlock:
  assumes "phase (lk s) t = Writing"
  shows "lock_step L (lk s) (lk (enter_call t (InWriteUnlock (writeUnlock_entry L)) s))"
  unfolding enter_call_lk by (rule lock_step.call_writeUnlock [OF assms])

lemmas enter_call_step = enter_readLock enter_readUnlock enter_writeLock enter_writeUnlock

lemma in_lock_call_Done:
  "in_lock_call L t w returned after during s = Done s' \<longleftrightarrow>
     (\<exists>k. advance L t w (lk s) = Done k
        \<and> s' = goto t (if phase k t = returned then after else during) (s\<lparr>lk := k\<rparr>))"
  unfolding in_lock_call_def bind_outcome_Done_iff outcome.inject by blast

text \<open>What one action of a call does to phases: it moves the calling thread only, within its call or out.\<close>

lemma advance_phase:
  assumes "advance L t w s = Done s'"
  shows "u \<noteq> t \<Longrightarrow> phase s' u = phase s u" and "u \<noteq> t \<Longrightarrow> infos s' u = infos s u"
    and "phase s t = InReadLock p \<Longrightarrow> (\<exists>q. phase s' t = InReadLock q) \<or> phase s' t = Reading"
    and "phase s t = InReadUnlock p \<Longrightarrow> (\<exists>q. phase s' t = InReadUnlock q) \<or> phase s' t = Outside"
    and "phase s t = InWriteLock p \<Longrightarrow> (\<exists>q. phase s' t = InWriteLock q) \<or> phase s' t = Writing"
    and "phase s t = InWriteUnlock p \<Longrightarrow> (\<exists>q. phase s' t = InWriteUnlock q) \<or> phase s' t = Outside"
  using assms by (auto elim!: advance_cases simp: resume_def split: option.splits)

text \<open>A worker's action is one step of the lock's most general client, and keeps \<open>coherent\<close>.\<close>

lemma reader_lock_step:
  assumes "readerThread L t w p s = Done s'" and "coherent READER p (phase (lk s) t)"
    and "points s t = p"
  shows "lock_step L (lk s) (lk s') \<and> coherent READER (points s' t) (phase (lk s') t)
       \<and> (\<forall>u. u \<noteq> t \<longrightarrow> points s' u = points s u \<and> phase (lk s') u = phase (lk s) u
            \<and> infos (lk s') u = infos (lk s) u)"
proof (cases p)
  case W_in_lock
  then obtain k where "advance L t w (lk s) = Done k"
    "s' = goto t (if phase k t = Reading then W_read else W_in_lock) (s\<lparr>lk := k\<rparr>)"
    using assms(1) by (auto simp: in_lock_call_Done)
  with W_in_lock assms(2) advance_phase [of L t w "lk s" k] show ?thesis
    by (auto simp: coherent_def intro: lock_step.run)
next
  case W_in_unlock
  then obtain k where "advance L t w (lk s) = Done k"
    "s' = goto t (if phase k t = Outside then W_fetch else W_in_unlock) (s\<lparr>lk := k\<rparr>)"
    using assms(1) by (auto simp: in_lock_call_Done)
  with W_in_unlock assms(2) advance_phase [of L t w "lk s" k] show ?thesis
    by (auto simp: coherent_def intro: lock_step.run)
qed (use assms in \<open>auto simp: coherent_def intro: lock_step_same enter_call_step\<close>)

lemma writer_lock_step:
  assumes "writerThread L target t w p s = Done s'" and "coherent WRITER p (phase (lk s) t)"
    and "points s t = p"
  shows "lock_step L (lk s) (lk s') \<and> coherent WRITER (points s' t) (phase (lk s') t)
       \<and> (\<forall>u. u \<noteq> t \<longrightarrow> points s' u = points s u \<and> phase (lk s') u = phase (lk s) u
            \<and> infos (lk s') u = infos (lk s) u)"
proof (cases p)
  case W_in_lock
  then obtain k where "advance L t w (lk s) = Done k"
    "s' = goto t (if phase k t = Writing then W_locked else W_in_lock) (s\<lparr>lk := k\<rparr>)"
    using assms(1) by (auto simp: in_lock_call_Done)
  with W_in_lock assms(2) advance_phase [of L t w "lk s" k] show ?thesis
    by (auto simp: coherent_def intro: lock_step.run)
next
  case W_in_unlock
  then obtain k where "advance L t w (lk s) = Done k"
    "s' = goto t (if phase k t = Outside then W_top else W_in_unlock) (s\<lparr>lk := k\<rparr>)"
    using assms(1) by (auto simp: in_lock_call_Done)
  with W_in_unlock assms(2) advance_phase [of L t w "lk s" k] show ?thesis
    by (auto simp: coherent_def intro: lock_step.run)
next
  case W_in_abort_unlock
  then obtain k where "advance L t w (lk s) = Done k"
    "s' = goto t (if phase k t = Outside then W_abort_exit else W_in_abort_unlock) (s\<lparr>lk := k\<rparr>)"
    using assms(1) by (auto simp: in_lock_call_Done)
  with W_in_abort_unlock assms(2) advance_phase [of L t w "lk s" k] show ?thesis
    by (auto simp: coherent_def intro: lock_step.run)
qed (use assms in \<open>auto simp: coherent_def Let_def intro: lock_step_same enter_call_step split: if_splits\<close>)

section \<open>Accounting for operations\<close>

text \<open>
  A configuration whose numbers make sense: no negative counts, and the number of threads and the
  number of operations fit an \<open>int\<close>.
\<close>

definition valid_cfg :: "SimConfig \<Rightarrow> bool" where
  "valid_cfg cfg \<longleftrightarrow> 0 \<le> cfg_numReaders cfg \<and> 0 \<le> cfg_numWriters cfg
     \<and> cfg_numReaders cfg + cfg_numWriters cfg < 2 ^ 31
     \<and> 0 \<le> cfg_totalOps cfg \<and> cfg_totalOps cfg < 2 ^ 31"

text \<open>Has the worker taken an operation it has not yet counted (or has given up)?\<close>

definition holds_op :: "worker_point \<Rightarrow> bool" where
  "holds_op p \<longleftrightarrow> (case p of
       W_call_lock \<Rightarrow> True | W_in_lock \<Rightarrow> True | W_locked \<Rightarrow> True | W_read \<Rightarrow> True | W_load \<Rightarrow> True
     | W_store v \<Rightarrow> True | W_count_load \<Rightarrow> True | W_count_store v \<Rightarrow> True | W_done_op \<Rightarrow> True
     | W_abort_unlock \<Rightarrow> True | W_in_abort_unlock \<Rightarrow> True | W_abort_exit \<Rightarrow> True | W_aborted \<Rightarrow> True
     | _ \<Rightarrow> False)"

text \<open>The worker found the counter exhausted.\<close>

definition exhausted :: "bool \<Rightarrow> worker_point \<Rightarrow> bool" where
  "exhausted target p \<longleftrightarrow> p = W_refund \<or> \<not> target \<and> (p = W_finish \<or> p = W_exit)"

definition op_account :: "('l, 'p) sim \<Rightarrow> tid \<Rightarrow> int" where
  "op_account s t = ti_opsCompleted (infos (lk s) t) + of_bool (holds_op (points s t))"

definition claimed :: "SimConfig \<Rightarrow> ('l, 'p) sim \<Rightarrow> int" where
  "claimed cfg s = (\<Sum>t<num_threads cfg. op_account s t)"

definition refunds :: "SimConfig \<Rightarrow> ('l, 'p) sim \<Rightarrow> int" where
  "refunds cfg s = (\<Sum>t<num_threads cfg. of_bool (points s t = W_refund))"

definition ops_inv :: "SimConfig \<Rightarrow> ('l, 'p) sim \<Rightarrow> bool" where
  "ops_inv cfg s \<longleftrightarrow>
     opsRemaining s = word_of_int (cfg_totalOps cfg - claimed cfg s - refunds cfg s)
   \<and> claimed cfg s \<le> cfg_totalOps cfg \<and> (\<forall>t. 0 \<le> ti_opsCompleted (infos (lk s) t))
   \<and> (\<forall>t < num_threads cfg. exhausted (arg_isAbortTarget (thread_arg cfg t)) (points s t)
        \<longrightarrow> claimed cfg s = cfg_totalOps cfg)"

lemma sum_change_one:
  fixes F :: "nat \<Rightarrow> int"
  assumes "t < n" and "\<And>u. u \<noteq> t \<Longrightarrow> F' u = F u"
  shows "(\<Sum>u<n. F' u) = (\<Sum>u<n. F u) + (F' t - F t)"
proof -
  have "(\<Sum>u<n. F' u) = F' t + (\<Sum>u\<in>{..<n} - {t}. F' u)"
    and "(\<Sum>u<n. F u) = F t + (\<Sum>u\<in>{..<n} - {t}. F u)"
    using assms(1) by (simp_all add: sum.remove)
  moreover have "(\<Sum>u\<in>{..<n} - {t}. F' u) = (\<Sum>u\<in>{..<n} - {t}. F u)"
    using assms(2) by (intro sum.cong) auto
  ultimately show ?thesis by simp
qed

text \<open>The three ways an action can matter to the accounts.\<close>

definition account_step :: "bool \<Rightarrow> tid \<Rightarrow> ('l, 'p) sim \<Rightarrow> ('l, 'p) sim \<Rightarrow> bool" where
  "account_step target t s s' \<longleftrightarrow>
     (points s t = W_fetch \<and> opsRemaining s' = opsRemaining s - 1
        \<and> points s' t = (if sint (opsRemaining s) \<le> 0 then W_refund else W_call_lock)
        \<and> ti_opsCompleted (infos (lk s') t) = ti_opsCompleted (infos (lk s) t))
   \<or> (points s t = W_refund \<and> opsRemaining s' = opsRemaining s + 1 \<and> points s' t = W_finish
        \<and> ti_opsCompleted (infos (lk s') t) = ti_opsCompleted (infos (lk s) t))
   \<or> (points s t \<noteq> W_refund \<and> points s' t \<noteq> W_refund \<and> opsRemaining s' = opsRemaining s
        \<and> op_account s' t = op_account s t
        \<and> ti_opsCompleted (infos (lk s) t) \<le> ti_opsCompleted (infos (lk s') t)
        \<and> (exhausted target (points s' t) \<longrightarrow> exhausted target (points s t)))"

lemma ops_inv_step:
  assumes inv: "ops_inv cfg s" and cfg: "valid_cfg cfg" and t: "t < num_threads cfg"
    and others: "\<And>u. u \<noteq> t \<Longrightarrow> points s' u = points s u \<and> infos (lk s') u = infos (lk s) u"
    and step: "account_step (arg_isAbortTarget (thread_arg cfg t)) t s s'"
  shows "ops_inv cfg s'"
proof -
  define T where "T = cfg_totalOps cfg"
  define c where "c = claimed cfg s"
  define r where "r = refunds cfg s"
  have acct: "op_account s' u = op_account s u" if "u \<noteq> t" for u
    using others [OF that] by (simp add: op_account_def)
  have c': "claimed cfg s' = c + (op_account s' t - op_account s t)"
    unfolding claimed_def c_def by (rule sum_change_one [OF t acct])
  have r': "refunds cfg s' = r + (of_bool (points s' t = W_refund) - of_bool (points s t = W_refund))"
    unfolding refunds_def r_def by (rule sum_change_one [OF t]) (use others in simp)
  have word: "opsRemaining s = word_of_int (T - c - r)" and cT: "c \<le> T"
    and pos: "\<And>u. 0 \<le> ti_opsCompleted (infos (lk s) u)"
    and all: "\<And>u. u < num_threads cfg \<Longrightarrow>
       exhausted (arg_isAbortTarget (thread_arg cfg u)) (points s u) \<Longrightarrow> c = T"
    using inv by (simp_all add: ops_inv_def c_def r_def T_def)
  have T: "0 \<le> T" "T < 2 ^ 31" using cfg by (simp_all add: valid_cfg_def T_def)
  have mono: "ti_opsCompleted (infos (lk s) t) \<le> ti_opsCompleted (infos (lk s') t)"
    using step by (auto simp: account_step_def)
  have keep: "ops_inv cfg s'"
    if "opsRemaining s' = word_of_int (T - claimed cfg s' - refunds cfg s')" and "claimed cfg s' \<le> T"
      and "claimed cfg s' = T
       \<or> c \<noteq> T \<and> \<not> exhausted (arg_isAbortTarget (thread_arg cfg t)) (points s' t)
       \<or> claimed cfg s' = c \<and>
         (exhausted (arg_isAbortTarget (thread_arg cfg t)) (points s' t) \<longrightarrow>
          exhausted (arg_isAbortTarget (thread_arg cfg t)) (points s t) \<or> c = T)"
    unfolding ops_inv_def T_def [symmetric]
  proof (intro conjI allI impI)
    fix u assume u: "u < num_threads cfg"
      "exhausted (arg_isAbortTarget (thread_arg cfg u)) (points s' u)"
    show "claimed cfg s' = T"
      using that(3) u all [of u] all [OF t] others [of u] by (cases "u = t") auto
  next
    fix u show "0 \<le> ti_opsCompleted (infos (lk s') u)"
      using mono pos [of u] pos [of t] others [of u] by (cases "u = t") auto
  qed (use that in auto)
  have same: "op_account s' t = op_account s t + of_bool (holds_op (points s' t))
        - of_bool (holds_op (points s t))"
    if "ti_opsCompleted (infos (lk s') t) = ti_opsCompleted (infos (lk s) t)"
    using that by (simp add: op_account_def)
  from step consider
    (fetch) "points s t = W_fetch" "opsRemaining s' = opsRemaining s - 1"
      "points s' t = (if sint (opsRemaining s) \<le> 0 then W_refund else W_call_lock)"
      "ti_opsCompleted (infos (lk s') t) = ti_opsCompleted (infos (lk s) t)"
  | (refund) "points s t = W_refund" "opsRemaining s' = opsRemaining s + 1" "points s' t = W_finish"
      "ti_opsCompleted (infos (lk s') t) = ti_opsCompleted (infos (lk s) t)"
  | (plain) "points s t \<noteq> W_refund" "points s' t \<noteq> W_refund" "opsRemaining s' = opsRemaining s"
      "op_account s' t = op_account s t"
      "ti_opsCompleted (infos (lk s) t) \<le> ti_opsCompleted (infos (lk s') t)"
      "exhausted (arg_isAbortTarget (thread_arg cfg t)) (points s' t) \<longrightarrow>
       exhausted (arg_isAbortTarget (thread_arg cfg t)) (points s t)"
    unfolding account_step_def by blast
  then show ?thesis
  proof cases
    case fetch
    have r0: "0 \<le> r" unfolding r_def refunds_def by (rule sum_nonneg) simp
    have "r \<le> (\<Sum>u<num_threads cfg. (1 :: int))"
      unfolding r_def refunds_def by (rule sum_mono) simp
    then have r1: "r \<le> 2 ^ 31" using cfg by (simp add: valid_cfg_def num_threads_def)
    have c0: "0 \<le> c" unfolding c_def claimed_def by (rule sum_nonneg) (simp add: op_account_def pos)
    have sint: "sint (opsRemaining s) = T - c - r"
      unfolding word by (rule sint_word_of_int_32) (use T cT r0 r1 c0 in simp_all)
    have "r = 0 \<or> c = T"
    proof (cases "r = 0")
      case False
      then have "\<exists>u < num_threads cfg. points s u = W_refund"
        unfolding r_def refunds_def by (auto intro: ccontr)
      then show ?thesis using all by (auto simp: exhausted_def)
    qed simp
    then show ?thesis
      using fetch sint same c' r' word cT r0
      by (intro keep) (auto simp: holds_op_def exhausted_def split: if_splits)
  next
    case refund
    then show ?thesis
      using same c' r' word all [OF t] by (intro keep) (auto simp: holds_op_def exhausted_def)
  next
    case plain
    then show ?thesis using c' r' word cT by (intro keep) auto
  qed
qed

section \<open>The shared data\<close>

text \<open>What a writer has contributed to \<open>data_\<close> and to \<open>writeCount_\<close>.\<close>

definition wrote :: "SimConfig \<Rightarrow> ('l, 'p) sim \<Rightarrow> tid \<Rightarrow> int" where
  "wrote cfg s t =
     (if arg_type (thread_arg cfg t) = WRITER
      then ti_opsCompleted (infos (lk s) t)
           + (case points s t of W_count_load \<Rightarrow> 1 | W_count_store v \<Rightarrow> 1 | W_done_op \<Rightarrow> 1 | _ \<Rightarrow> 0)
      else 0)"

definition recorded :: "SimConfig \<Rightarrow> ('l, 'p) sim \<Rightarrow> tid \<Rightarrow> int" where
  "recorded cfg s t =
     (if arg_type (thread_arg cfg t) = WRITER
      then ti_opsCompleted (infos (lk s) t) + (case points s t of W_done_op \<Rightarrow> 1 | _ \<Rightarrow> 0)
      else 0)"

text \<open>The registers of the two increments in progress hold the current values.\<close>

definition fresh_registers :: "ThreadType \<Rightarrow> worker_point \<Rightarrow> SharedResource \<Rightarrow> bool" where
  "fresh_registers ty p r \<longleftrightarrow> (ty = WRITER \<longrightarrow> (case p of
       W_store v \<Rightarrow> v = sr_data r | W_count_store v \<Rightarrow> v = sr_writeCount r | _ \<Rightarrow> True))"

definition data_inv :: "SimConfig \<Rightarrow> ('l, 'p) sim \<Rightarrow> bool" where
  "data_inv cfg s \<longleftrightarrow>
     sr_data (res s) = (\<Sum>t<num_threads cfg. wrote cfg s t)
   \<and> sr_writeCount (res s) = (\<Sum>t<num_threads cfg. recorded cfg s t)
   \<and> (\<forall>t. fresh_registers (arg_type (thread_arg cfg t)) (points s t) (res s))"

definition data_step :: "SimConfig \<Rightarrow> tid \<Rightarrow> ('l, 'p) sim \<Rightarrow> ('l, 'p) sim \<Rightarrow> bool" where
  "data_step cfg t s s' \<longleftrightarrow>
     sr_data (res s') - sr_data (res s) = wrote cfg s' t - wrote cfg s t
   \<and> sr_writeCount (res s') - sr_writeCount (res s) = recorded cfg s' t - recorded cfg s t
   \<and> fresh_registers (arg_type (thread_arg cfg t)) (points s' t) (res s')
   \<and> (sr_data (res s') = sr_data (res s) \<and> sr_writeCount (res s') = sr_writeCount (res s)
      \<or> arg_type (thread_arg cfg t) = WRITER \<and> phase (lk s) t = Writing)"

lemma data_inv_step:
  assumes inv: "data_inv cfg s" and t: "t < num_threads cfg"
    and others: "\<And>u. u \<noteq> t \<Longrightarrow> points s' u = points s u \<and> infos (lk s') u = infos (lk s) u"
    and step: "data_step cfg t s s'"
    and excl: "\<And>u. u \<noteq> t \<Longrightarrow> phase (lk s) t = Writing \<Longrightarrow> phase (lk s) u \<noteq> Writing"
    and coh: "\<And>u. coherent (arg_type (thread_arg cfg u)) (points s u) (phase (lk s) u)"
  shows "data_inv cfg s'"
proof -
  have "wrote cfg s' u = wrote cfg s u" "recorded cfg s' u = recorded cfg s u" if "u \<noteq> t" for u
    using others [OF that] by (simp_all add: wrote_def recorded_def)
  then have sums:
    "(\<Sum>u<num_threads cfg. wrote cfg s' u)
       = (\<Sum>u<num_threads cfg. wrote cfg s u) + (wrote cfg s' t - wrote cfg s t)"
    "(\<Sum>u<num_threads cfg. recorded cfg s' u)
       = (\<Sum>u<num_threads cfg. recorded cfg s u) + (recorded cfg s' t - recorded cfg s t)"
    by (auto intro: sum_change_one [OF t])
  have "fresh_registers (arg_type (thread_arg cfg u)) (points s' u) (res s')" if u: "u \<noteq> t" for u
  proof (cases "arg_type (thread_arg cfg u) = WRITER \<and> (\<exists>v. points s u = W_store v \<or> points s u = W_count_store v)")
    case True
    then have "phase (lk s) u = Writing" using coh [of u] by (auto simp: coherent_def)
    then have "phase (lk s) t \<noteq> Writing" using excl [OF u] by auto
    then have "sr_data (res s') = sr_data (res s)" "sr_writeCount (res s') = sr_writeCount (res s)"
      using step by (auto simp: data_step_def)
    moreover have "fresh_registers (arg_type (thread_arg cfg u)) (points s u) (res s)"
      using inv by (simp add: data_inv_def)
    ultimately show ?thesis
      using others [OF u] by (simp add: fresh_registers_def split: worker_point.splits)
  next
    case False
    then show ?thesis using others [OF u] by (auto simp: fresh_registers_def split: worker_point.splits)
  qed
  moreover have "fresh_registers (arg_type (thread_arg cfg t)) (points s' t) (res s')"
    using step by (simp add: data_step_def)
  ultimately have "fresh_registers (arg_type (thread_arg cfg u)) (points s' u) (res s')" for u
    by (cases "u = t") auto
  then show ?thesis using inv step sums by (simp add: data_inv_def data_step_def)
qed

section \<open>The invariant of a simulation\<close>

definition sim_inv :: "('l, 'p) RWLockBase \<Rightarrow> 'l \<Rightarrow> SimConfig \<Rightarrow> ('l, 'p) sim \<Rightarrow> bool" where
  "sim_inv L l0 cfg s \<longleftrightarrow>
     reachable (lock_start l0) (lock_step L) (lk s)
   \<and> (\<forall>t. coherent (arg_type (thread_arg cfg t)) (points s t) (phase (lk s) t))
   \<and> (\<forall>t \<ge> num_threads cfg. points s t = W_new)
   \<and> ops_inv cfg s \<and> data_inv cfg s"

lemma sim_inv_facts:
  assumes "sim_inv L l0 cfg s"
  shows "reachable (lock_start l0) (lock_step L) (lk s)"
    and "coherent (arg_type (thread_arg cfg t)) (points s t) (phase (lk s) t)"
    and "num_threads cfg \<le> t \<Longrightarrow> points s t = W_new"
    and "ops_inv cfg s" and "data_inv cfg s"
  using assms unfolding sim_inv_def by blast+

lemma target_is_writer: "arg_isAbortTarget (thread_arg cfg t) \<Longrightarrow> arg_type (thread_arg cfg t) = WRITER"
  by (auto simp: thread_arg_def split: if_splits)

lemma accounts_cong:
  assumes "points s' = points s" and "\<And>t. ti_opsCompleted (infos (lk s') t) = ti_opsCompleted (infos (lk s) t)"
    and "opsRemaining s' = opsRemaining s" and "res s' = res s"
  shows "ops_inv cfg s' = ops_inv cfg s" and "data_inv cfg s' = data_inv cfg s"
  using assms
  by (simp_all add: ops_inv_def claimed_def refunds_def op_account_def data_inv_def wrote_def
        recorded_def cong: if_cong worker_point.case_cong)

lemma watchdog_keeps_ops: "watchdog_may_change i j \<Longrightarrow> ti_opsCompleted j = ti_opsCompleted i"
  unfolding watchdog_may_change_def by (metis ThreadInfo.select_convs(9) ThreadInfo.surjective ThreadInfo.update_convs(10,4))

lemma sim_start_simps:
  "points (sim_start l0 cfg g) = (\<lambda>_. W_new)" "res (sim_start l0 cfg g) = SharedResource_ctor"
  "opsRemaining (sim_start l0 cfg g) = word_of_int (cfg_totalOps cfg)"
  "phase (lk (sim_start l0 cfg g)) = (\<lambda>_. Outside)" "shared (lk (sim_start l0 cfg g)) = l0"
  "ti_opsCompleted (infos (lk (sim_start l0 cfg g)) t) = 0"
  by (simp_all add: sim_start_def lock_start_def initial_info_def default_ThreadInfo_def)

lemma sim_inv_start:
  fixes L :: "('l, 'p) RWLockBase"
  assumes "valid_cfg cfg"
  shows "sim_inv L l0 cfg (sim_start l0 cfg g)"
proof -
  let ?s = "sim_start l0 cfg g :: ('l, 'p) sim"
  have "lock_step L (lock_start l0) (lk ?s)"
    by (rule lock_step_same) (simp_all add: sim_start_def lock_start_def)
  then have start: "reachable (lock_start l0) (lock_step L) (lk ?s)"
    by (rule reachable_step [OF reachable_init])
  have at: "op_account ?s t = 0" "wrote cfg ?s t = 0"
    "recorded cfg ?s t = 0" for t
    by (simp_all add: op_account_def holds_op_def wrote_def recorded_def sim_start_simps)
  have "claimed cfg ?s = 0" "refunds cfg ?s = 0"
    "(\<Sum>t<num_threads cfg. wrote cfg ?s t) = 0"
    "(\<Sum>t<num_threads cfg. recorded cfg ?s t) = 0"
    unfolding claimed_def refunds_def by (rule sum.neutral; simp add: at sim_start_simps)+
  with start show ?thesis
    using assms
    by (simp add: sim_inv_def coherent_def ops_inv_def exhausted_def
        data_inv_def fresh_registers_def valid_cfg_def sim_start_simps)
qed

text \<open>Points whose next action reads or writes the shared resource.\<close>

definition touches :: "worker_point \<Rightarrow> bool" where
  "touches p \<longleftrightarrow> (case p of
       W_read \<Rightarrow> True | W_load \<Rightarrow> True | W_store v \<Rightarrow> True | W_count_load \<Rightarrow> True
     | W_count_store v \<Rightarrow> True | _ \<Rightarrow> False)"

section \<open>The contract a simulation needs from its lock\<close>

text \<open>Besides the laws of a readers-writers lock: no method touches \<open>opsCompleted\<close>.\<close>

locale sim_lock = rw_lock +
  assumes frame_readLock: "readLock L p t w (l, c) = Done (l', c', r) \<Longrightarrow>
        ti_opsCompleted (c_info c') = ti_opsCompleted (c_info c)"
    and frame_readUnlock: "readUnlock L p t w (l, c) = Done (l', c', r) \<Longrightarrow>
        ti_opsCompleted (c_info c') = ti_opsCompleted (c_info c)"
    and frame_writeLock: "writeLock L p t w (l, c) = Done (l', c', r) \<Longrightarrow>
        ti_opsCompleted (c_info c') = ti_opsCompleted (c_info c)"
    and frame_writeUnlock: "writeUnlock L p t w (l, c) = Done (l', c', r) \<Longrightarrow>
        ti_opsCompleted (c_info c') = ti_opsCompleted (c_info c)"
begin

lemma frame_advance:
  "advance L t w s = Done s' \<Longrightarrow> ti_opsCompleted (infos s' u) = ti_opsCompleted (infos s u)"
  by (erule advance_cases)
     (auto dest: frame_readLock frame_readUnlock frame_writeLock frame_writeUnlock)

lemma reader_account:
  assumes step: "readerThread L t w p s = Done s'" and p: "points s t = p"
  shows "account_step False t s s'"
proof (cases p)
  case W_in_lock
  then obtain k where "advance L t w (lk s) = Done k"
    "s' = goto t (if phase k t = Reading then W_read else W_in_lock) (s\<lparr>lk := k\<rparr>)"
    using step by (auto simp: in_lock_call_Done)
  with frame_advance [of t w "lk s" k t] W_in_lock p show ?thesis
    by (auto simp: account_step_def op_account_def holds_op_def exhausted_def)
next
  case W_in_unlock
  then obtain k where "advance L t w (lk s) = Done k"
    "s' = goto t (if phase k t = Outside then W_fetch else W_in_unlock) (s\<lparr>lk := k\<rparr>)"
    using step by (auto simp: in_lock_call_Done)
  with frame_advance [of t w "lk s" k t] W_in_unlock p show ?thesis
    by (auto simp: account_step_def op_account_def holds_op_def exhausted_def)
qed (use step p in \<open>auto simp: account_step_def op_account_def holds_op_def exhausted_def complete_op_def\<close>)

lemma writer_account:
  assumes step: "writerThread L target t w p s = Done s'" and p: "points s t = p"
  shows "account_step target t s s'"
proof (cases p)
  case W_in_lock
  then obtain k where "advance L t w (lk s) = Done k"
    "s' = goto t (if phase k t = Writing then W_locked else W_in_lock) (s\<lparr>lk := k\<rparr>)"
    using step by (auto simp: in_lock_call_Done)
  with frame_advance [of t w "lk s" k t] W_in_lock p show ?thesis
    by (auto simp: account_step_def op_account_def holds_op_def exhausted_def)
next
  case W_in_unlock
  then obtain k where "advance L t w (lk s) = Done k"
    "s' = goto t (if phase k t = Outside then W_top else W_in_unlock) (s\<lparr>lk := k\<rparr>)"
    using step by (auto simp: in_lock_call_Done)
  with frame_advance [of t w "lk s" k t] W_in_unlock p show ?thesis
    by (auto simp: account_step_def op_account_def holds_op_def exhausted_def)
next
  case W_in_abort_unlock
  then obtain k where "advance L t w (lk s) = Done k"
    "s' = goto t (if phase k t = Outside then W_abort_exit else W_in_abort_unlock) (s\<lparr>lk := k\<rparr>)"
    using step by (auto simp: in_lock_call_Done)
  with frame_advance [of t w "lk s" k t] W_in_abort_unlock p show ?thesis
    by (auto simp: account_step_def op_account_def holds_op_def exhausted_def)
qed (use step p in \<open>auto simp: account_step_def op_account_def holds_op_def exhausted_def
       complete_op_def Let_def split: if_splits\<close>)

lemma reader_data:
  assumes step: "readerThread L t w p s = Done s'" and p: "points s t = p"
    and ty: "arg_type (thread_arg cfg t) = READER"
  shows "data_step cfg t s s'"
proof -
  have "sr_data (res s') = sr_data (res s) \<and> sr_writeCount (res s') = sr_writeCount (res s)"
    using step by (cases p) (auto simp: in_lock_call_Done)
  with ty show ?thesis by (simp add: data_step_def wrote_def recorded_def fresh_registers_def)
qed

lemma writer_data:
  assumes step: "writerThread L target t w p s = Done s'" and p: "points s t = p"
    and ty: "arg_type (thread_arg cfg t) = WRITER"
    and coh: "coherent WRITER p (phase (lk s) t)" and fresh: "fresh_registers WRITER p (res s)"
  shows "data_step cfg t s s'"
proof -
  note defs = data_step_def wrote_def recorded_def fresh_registers_def complete_op_def
    coherent_def ty p Let_def
  have call: "data_step cfg t s s'"
    if c: "in_lock_call L t w returned after p s = Done s'"
      "\<forall>v. p \<noteq> W_count_load \<and> p \<noteq> W_count_store v \<and> p \<noteq> W_done_op \<and> p \<noteq> W_store v"
      "after = W_locked \<or> after = W_top \<or> after = W_abort_exit" for returned after
  proof -
    obtain k where k: "advance L t w (lk s) = Done k"
      "s' = goto t (if phase k t = returned then after else p) (s\<lparr>lk := k\<rparr>)"
      using c(1) by (auto simp: in_lock_call_Done)
    with frame_advance [of t w "lk s" k t] c(2,3) show ?thesis
      by (cases p) (auto simp: defs)
  qed
  show ?thesis
  proof (cases p)
    case W_in_lock
    then show ?thesis using step by (intro call [of Writing W_locked]) simp_all
  next
    case W_in_unlock
    then show ?thesis using step by (intro call [of Outside W_top]) simp_all
  next
    case W_in_abort_unlock
    then show ?thesis using step by (intro call [of Outside W_abort_exit]) simp_all
  qed (use step coh fresh in \<open>auto simp: defs split: if_splits\<close>)
qed

lemma worker_act_effect:
  assumes act: "worker_act L cfg t w s = Done s'" and inv: "sim_inv L l0 cfg s"
  shows "t < num_threads cfg" and "lock_step L (lk s) (lk s')"
    and "coherent (arg_type (thread_arg cfg t)) (points s' t) (phase (lk s') t)"
    and "u \<noteq> t \<Longrightarrow> points s' u = points s u \<and> phase (lk s') u = phase (lk s) u
           \<and> infos (lk s') u = infos (lk s) u"
    and "account_step (arg_isAbortTarget (thread_arg cfg t)) t s s'" and "data_step cfg t s s'"
proof -
  let ?ty = "arg_type (thread_arg cfg t)" and ?target = "arg_isAbortTarget (thread_arg cfg t)"
  show t: "t < num_threads cfg" using act by (simp add: worker_act_def split: if_splits)
  note coh = sim_inv_facts(2) [OF inv, of t]
  have fresh: "fresh_registers ?ty (points s t) (res s)"
    using sim_inv_facts(5) [OF inv] by (simp add: data_inv_def)
  consider (new) "points s t = W_new" "s' = goto t W_init s"
    | (reader) "?ty = READER" "readerThread L t w (points s t) s = Done s'"
    | (writer) "?ty = WRITER" "writerThread L ?target t w (points s t) s = Done s'"
    using act t by (cases "points s t = W_new"; cases ?ty) (simp_all add: worker_act_def)
  then have "lock_step L (lk s) (lk s') \<and> coherent ?ty (points s' t) (phase (lk s') t)
      \<and> (\<forall>u. u \<noteq> t \<longrightarrow> points s' u = points s u \<and> phase (lk s') u = phase (lk s) u
            \<and> infos (lk s') u = infos (lk s) u)
      \<and> account_step ?target t s s' \<and> data_step cfg t s s'"
  proof cases
    case new
    with coh show ?thesis
      by (auto simp: coherent_def account_step_def op_account_def holds_op_def exhausted_def
          data_step_def wrote_def recorded_def fresh_registers_def intro: lock_step_same)
  next
    case reader
    then have "\<not> ?target" using target_is_writer [of cfg t] by auto
    with reader reader_lock_step [OF reader(2)] reader_account [OF reader(2) refl]
      reader_data [OF reader(2) refl reader(1)] coh show ?thesis by simp
  next
    case writer
    with writer_lock_step [OF writer(2)] writer_account [OF writer(2) refl]
      writer_data [OF writer(2) refl writer(1)] coh fresh show ?thesis by simp
  qed
  then show "lock_step L (lk s) (lk s')"
    and "coherent ?ty (points s' t) (phase (lk s') t)"
    and "u \<noteq> t \<Longrightarrow> points s' u = points s u \<and> phase (lk s') u = phase (lk s) u
           \<and> infos (lk s') u = infos (lk s) u"
    and "account_step ?target t s s'" and "data_step cfg t s s'" by blast+
qed

lemma sim_inv_work:
  assumes cfg: "valid_cfg cfg" and inv: "sim_inv L l0 cfg s" and act: "worker_act L cfg t w s = Done s'"
  shows "sim_inv L l0 cfg s'"
  unfolding sim_inv_def
proof (intro conjI allI impI)
  note eff = worker_act_effect [OF act inv]
  note facts = sim_inv_facts [OF inv]
  have others: "points s' u = points s u \<and> infos (lk s') u = infos (lk s) u" if "u \<noteq> t" for u
    using eff(4) [OF that] by blast
  show "reachable (lock_start l0) (lock_step L) (lk s')"
    by (rule reachable_step [OF facts(1) eff(2)])
  show "coherent (arg_type (thread_arg cfg u)) (points s' u) (phase (lk s') u)" for u
    using eff(3) eff(4) [of u] facts(2) [of u] by (cases "u = t") auto
  show "points s' u = W_new" if "num_threads cfg \<le> u" for u
    using that eff(1) others [of u] facts(3) [of u] by (cases "u = t") auto
  show "ops_inv cfg s'"
    by (rule ops_inv_step [OF facts(4) cfg eff(1) others eff(5)])
  show "data_inv cfg s'"
    by (rule data_inv_step [OF facts(5) eff(1) others eff(6) _ facts(2)])
       (auto dest: mutual_exclusion [OF facts(1)])
qed

lemma sim_inv_step:
  assumes cfg: "valid_cfg cfg" and inv: "sim_inv L l0 cfg s" and step: "sim_step L cfg s s'"
  shows "sim_inv L l0 cfg s'"
  using step
proof (cases rule: sim_step.cases)
  case (work t w)
  then show ?thesis by (rule sim_inv_work [OF cfg inv])
next
  case sigusr1
  then show ?thesis
    using inv accounts_cong [of s' s] by (simp add: sim_inv_def)
next
  case (environment i g n n')
  have "lock_step L (lk s) (lk s')" unfolding environment(1) by (simp add: lock_step.other)
  with sim_inv_facts(1) [OF inv] have "reachable (lock_start l0) (lock_step L) (lk s')"
    by (rule reachable_step)
  with inv environment watchdog_keeps_ops accounts_cong [of s' s] show ?thesis
    by (simp add: sim_inv_def)
qed

lemma sim_inv_reachable:
  assumes cfg: "valid_cfg cfg" and "reachable (sim_start l0 cfg g) (sim_step L cfg) s"
  shows "sim_inv L l0 cfg s"
  using assms(2)
  by (induction rule: reachable.induct) (auto intro: sim_inv_start [OF cfg] sim_inv_step [OF cfg])

lemma sim_no_data_race:
  assumes inv: "sim_inv L l0 cfg s" and t: "touches (points s t)" and u: "touches (points s u)"
    and ne: "t \<noteq> u"
  shows "arg_type (thread_arg cfg t) = READER"
proof (rule ccontr)
  have at: "touches (points s v) \<Longrightarrow>
      phase (lk s) v = (if arg_type (thread_arg cfg v) = READER then Reading else Writing)" for v
    using sim_inv_facts(2) [OF inv, of v]
    by (cases "points s v") (auto simp: coherent_def touches_def)
  assume "arg_type (thread_arg cfg t) \<noteq> READER"
  then have "phase (lk s) t = Writing" using at [OF t] by simp
  then show False
    using mutual_exclusion [OF sim_inv_facts(1) [OF inv], of t u] ne at [OF u] by (simp split: if_splits)
qed

lemma sim_ops_bound:
  assumes inv: "sim_inv L l0 cfg s"
  shows "(\<Sum>t<num_threads cfg. ti_opsCompleted (infos (lk s) t)) \<le> cfg_totalOps cfg"
proof -
  have "(\<Sum>t<num_threads cfg. ti_opsCompleted (infos (lk s) t)) \<le> claimed cfg s"
    unfolding claimed_def by (rule sum_mono) (simp add: op_account_def)
  then show ?thesis using sim_inv_facts(4) [OF inv] by (simp add: ops_inv_def)
qed

lemma sim_complete:
  assumes inv: "sim_inv L l0 cfg s" and exit: "\<forall>t < num_threads cfg. points s t = W_exit"
    and some: "t < num_threads cfg" "\<not> arg_isAbortTarget (thread_arg cfg t)"
  shows "(\<Sum>t<num_threads cfg. ti_opsCompleted (infos (lk s) t)) = cfg_totalOps cfg"
proof -
  have "claimed cfg s = (\<Sum>t<num_threads cfg. ti_opsCompleted (infos (lk s) t))"
    unfolding claimed_def using exit by (intro sum.cong) (auto simp: op_account_def holds_op_def)
  moreover have "claimed cfg s = cfg_totalOps cfg"
    using sim_inv_facts(4) [OF inv] some exit by (auto simp: ops_inv_def exhausted_def)
  ultimately show ?thesis by simp
qed

lemma sim_data_exact:
  assumes inv: "sim_inv L l0 cfg s"
    and idle: "\<forall>t < num_threads cfg. arg_type (thread_arg cfg t) = WRITER \<longrightarrow> \<not> touches (points s t)
        \<and> points s t \<noteq> W_done_op"
  shows "sr_data (res s) = (\<Sum>t | t < num_threads cfg \<and> arg_type (thread_arg cfg t) = WRITER.
             ti_opsCompleted (infos (lk s) t))"
    and "sr_writeCount (res s) = sr_data (res s)"
proof -
  have at: "wrote cfg s t = (if arg_type (thread_arg cfg t) = WRITER then ti_opsCompleted (infos (lk s) t) else 0)"
    "recorded cfg s t = (if arg_type (thread_arg cfg t) = WRITER then ti_opsCompleted (infos (lk s) t) else 0)"
    if "t < num_threads cfg" for t
    using idle that by (auto simp: wrote_def recorded_def touches_def split: worker_point.splits)
  have sums: "(\<Sum>t<num_threads cfg. wrote cfg s t) = (\<Sum>t<num_threads cfg. recorded cfg s t)"
    using at by (intro sum.cong) auto
  then show "sr_writeCount (res s) = sr_data (res s)"
    using sim_inv_facts(5) [OF inv] by (simp add: data_inv_def)
  have "sr_data (res s) = (\<Sum>t<num_threads cfg.
      if arg_type (thread_arg cfg t) = WRITER then ti_opsCompleted (infos (lk s) t) else 0)"
    using sim_inv_facts(5) [OF inv] at by (simp add: data_inv_def)
  also have "\<dots> = (\<Sum>t | t < num_threads cfg \<and> arg_type (thread_arg cfg t) = WRITER.
             ti_opsCompleted (infos (lk s) t))"
    by (simp add: sum.inter_filter [symmetric])
  finally show "sr_data (res s) = (\<Sum>t | t < num_threads cfg \<and> arg_type (thread_arg cfg t) = WRITER.
             ti_opsCompleted (infos (lk s) t))" .
qed

end

end
