(* ===== verification/Progress.thy ===== *)
theory Progress
  imports Worker
begin

text \<open>
  Termination of a simulation over a lock whose calls always finish: every action of a worker lowers
  a measure, and a worker can always act until all have returned.
\<close>

section \<open>The measure\<close>

definition call_bound :: "('l, 'p) RWLockBase \<Rightarrow> ('p \<Rightarrow> nat) \<Rightarrow> nat" where
  "call_bound L rank =
     rank (readLock_entry L) + rank (readUnlock_entry L) + rank (writeLock_entry L)
     + rank (writeUnlock_entry L)"

definition call_rank :: "('p \<Rightarrow> nat) \<Rightarrow> 'p phase \<Rightarrow> nat" where
  "call_rank rank x =
     (case x of InReadLock p \<Rightarrow> rank p | InReadUnlock p \<Rightarrow> rank p | InWriteLock p \<Rightarrow> rank p
        | InWriteUnlock p \<Rightarrow> rank p | _ \<Rightarrow> 0)"

text \<open>Actions left to a worker if it takes no further operation; \<open>B\<close> bounds the length of a call.\<close>

definition point_work :: "nat \<Rightarrow> ('p \<Rightarrow> nat) \<Rightarrow> worker_point \<Rightarrow> 'p phase \<Rightarrow> nat" where
  "point_work B rank p x =
     (case p of
        W_exit \<Rightarrow> 0 | W_aborted \<Rightarrow> 0 | W_finish \<Rightarrow> 1 | W_abort_exit \<Rightarrow> 1 | W_refund \<Rightarrow> 2 | W_fetch \<Rightarrow> 3
      | W_top \<Rightarrow> 4 | W_init \<Rightarrow> 5 | W_new \<Rightarrow> 6
      | W_in_unlock \<Rightarrow> 5 + call_rank rank x | W_in_abort_unlock \<Rightarrow> 2 + call_rank rank x
      | W_abort_unlock \<Rightarrow> 3 + B | W_call_unlock \<Rightarrow> 6 + B | W_done_op \<Rightarrow> 7 + B
      | W_count_store v \<Rightarrow> 8 + B | W_count_load \<Rightarrow> 9 + B | W_store v \<Rightarrow> 10 + B | W_read \<Rightarrow> 10 + B
      | W_load \<Rightarrow> 11 + B | W_locked \<Rightarrow> 12 + B
      | W_in_lock \<Rightarrow> 13 + B + call_rank rank x | W_call_lock \<Rightarrow> 14 + 2 * B)"

definition op_cost :: "nat \<Rightarrow> nat" where
  "op_cost B = 14 + 2 * B"

text \<open>\<open>rk t\<close> ranks the points of a call of thread \<open>t\<close>; it may depend on the state of the lock.\<close>

definition work_with :: "nat \<Rightarrow> (tid \<Rightarrow> 'p \<Rightarrow> nat) \<Rightarrow> SimConfig \<Rightarrow> ('l, 'p) sim \<Rightarrow> nat" where
  "work_with B rk cfg s =
     nat (cfg_totalOps cfg - claimed cfg s) * op_cost B
     + (\<Sum>t<num_threads cfg. point_work B (rk t) (points s t) (phase (lk s) t))"

definition sim_work ::
    "('l, 'p) RWLockBase \<Rightarrow> ('p \<Rightarrow> nat) \<Rightarrow> SimConfig \<Rightarrow> ('l, 'p) sim \<Rightarrow> nat" where
  "sim_work L rank = work_with (call_bound L rank) (\<lambda>_. rank)"

lemma call_rank_simps [simp]:
  "call_rank rank Outside = 0" "call_rank rank Reading = 0" "call_rank rank Writing = 0"
  "call_rank rank (InReadLock p) = rank p" "call_rank rank (InReadUnlock p) = rank p"
  "call_rank rank (InWriteLock p) = rank p" "call_rank rank (InWriteUnlock p) = rank p"
  by (simp_all add: call_rank_def)

text \<open>A run of a simulation with \<open>k\<close> actions of workers, other steps in between.\<close>

inductive sim_run ::
    "('l, 'p) RWLockBase \<Rightarrow> SimConfig \<Rightarrow> nat \<Rightarrow> ('l, 'p) sim \<Rightarrow> ('l, 'p) sim \<Rightarrow> bool" for L cfg where
  run_none: "sim_run L cfg 0 s s"
| run_work: "sim_run L cfg k s s1 \<Longrightarrow> worker_act L cfg t w s1 = Done s2 \<Longrightarrow> sim_run L cfg (Suc k) s s2"
| run_other: "sim_run L cfg k s s1 \<Longrightarrow> sim_step L cfg s1 s2 \<Longrightarrow>
     points s2 = points s1 \<Longrightarrow> phase (lk s2) = phase (lk s1) \<Longrightarrow>
     (\<And>t. ti_opsCompleted (infos (lk s2) t) = ti_opsCompleted (infos (lk s1) t)) \<Longrightarrow> sim_run L cfg k s s2"

lemma sim_run_reachable:
  "sim_run L cfg k s s' \<Longrightarrow> reachable s0 (sim_step L cfg) s \<Longrightarrow> reachable s0 (sim_step L cfg) s'"
  by (induction rule: sim_run.induct) (auto intro: reachable_step sim_step.work)

definition worker_done :: "worker_point \<Rightarrow> bool" where
  "worker_done p \<longleftrightarrow> p = W_exit \<or> p = W_aborted"

text \<open>When a worker can act, over any lock: outside calls always, inside one if the call can.\<close>

lemma acts_outside_calls:
  assumes "t < num_threads cfg"
    and "coherent (arg_type (thread_arg cfg t)) (points s t) (phase (lk s) t)"
    and "\<not> worker_done (points s t)" and "\<not> in_call (phase (lk s) t)"
  shows "\<exists>s'. worker_act L cfg t w s = Done s'"
  using assms
  by (cases "arg_type (thread_arg cfg t)"; cases "points s t")
     (auto simp: worker_act_def worker_done_def coherent_def Let_def)

lemma acts_in_call:
  assumes t: "t < num_threads cfg" and adv: "advance L t w (lk s) = Done k"
    and coh: "coherent (arg_type (thread_arg cfg t)) (points s t) (phase (lk s) t)"
  shows "\<exists>s'. worker_act L cfg t w s = Done s'"
proof -
  have "in_call (phase (lk s) t)" using adv by (auto elim!: advance_cases)
  with assms show ?thesis
    by (cases "arg_type (thread_arg cfg t)"; cases "points s t")
       (auto simp: worker_act_def coherent_def in_lock_call_def)
qed

text \<open>If every worker that has not returned is inside a call, all other threads are outside.\<close>

lemma all_in_calls:
  assumes inv: "sim_inv L l0 cfg s"
    and calls: "\<not> (\<exists>u < num_threads cfg. \<not> worker_done (points s u) \<and> \<not> in_call (phase (lk s) u))"
  shows "phase (lk s) u = Outside \<or> u < num_threads cfg \<and> in_call (phase (lk s) u)"
proof -
  have "phase (lk s) u = Outside" if "worker_done (points s u)"
    using sim_inv_facts(2) [OF inv, of u] that by (auto simp: coherent_def worker_done_def)
  moreover have "phase (lk s) u = Outside" if "num_threads cfg \<le> u"
    using sim_inv_facts(2) [OF inv, of u] sim_inv_facts(3) [OF inv that] by (simp add: coherent_def)
  ultimately show ?thesis using calls by (metis not_le)
qed

section \<open>What an action does to the work of a thread\<close>

text \<open>
  An action inside a call lowers the rank of its point, or it returns; \<open>c\<close> is what the action has to pay for
  in the ranks of other threads, \<open>g\<close> what it is granted.
\<close>

definition lowers :: "('p \<Rightarrow> nat) \<Rightarrow> ('p \<Rightarrow> nat) \<Rightarrow> nat \<Rightarrow> nat \<Rightarrow> 'p phase \<Rightarrow> 'p phase \<Rightarrow> bool" where
  "lowers rk rk' c g x x' \<longleftrightarrow> (if in_call x' then call_rank rk' x' + c < call_rank rk x + g else c = 0)"

definition entries_within :: "('l, 'p) RWLockBase \<Rightarrow> nat \<Rightarrow> ('p \<Rightarrow> nat) \<Rightarrow> bool" where
  "entries_within L B rk \<longleftrightarrow> rk (readLock_entry L) \<le> B \<and> rk (readUnlock_entry L) \<le> B
     \<and> rk (writeLock_entry L) \<le> B \<and> rk (writeUnlock_entry L) \<le> B"

lemma in_call_work:
  assumes call: "in_lock_call L t w returned after p s = Done s'"
    and coh: "coherent ty p (phase (lk s) t)"
    and low: "\<And>k. advance L t w (lk s) = Done k \<Longrightarrow> lowers rk rk' c g (phase (lk s) t) (phase k t)"
    and p: "p = W_in_lock \<and> returned = (if ty = READER then Reading else Writing)
              \<and> (after = W_read \<or> after = W_locked)
          \<or> p = W_in_unlock \<and> returned = Outside \<and> (after = W_fetch \<or> after = W_top)
          \<or> p = W_in_abort_unlock \<and> returned = Outside \<and> after = W_abort_exit"
  shows "point_work B rk' (points s' t) (phase (lk s') t) + c < point_work B rk p (phase (lk s) t) + g"
proof -
  obtain k where k: "advance L t w (lk s) = Done k"
    "s' = goto t (if phase k t = returned then after else p) (s\<lparr>lk := k\<rparr>)"
    using call by (auto simp: in_lock_call_Done)
  from p coh advance_phase(3-6) [OF k(1)] low [OF k(1)] show ?thesis
    by (elim disjE; cases ty; fastforce simp: k(2) coherent_def point_work_def lowers_def)
qed

lemma reader_work:
  assumes step: "readerThread L t w p s = Done s'" and p: "points s t = p"
    and coh: "coherent READER p (phase (lk s) t)" and entries: "entries_within L B rk'"
    and low: "\<And>k. advance L t w (lk s) = Done k \<Longrightarrow> lowers rk rk' c g (phase (lk s) t) (phase k t)"
    and free: "\<not> in_call (phase (lk s) t) \<Longrightarrow> c = 0"
  shows "point_work B rk' (points s' t) (phase (lk s') t) + c
       < point_work B rk p (phase (lk s) t) + g
         + (if p = W_fetch \<and> points s' t = W_call_lock then op_cost B else 0)"
proof (cases p)
  case W_in_lock
  with step coh low have "point_work B rk' (points s' t) (phase (lk s') t) + c < point_work B rk p (phase (lk s) t) + g"
    by (intro in_call_work [of L t w Reading W_read p s s' READER]) simp_all
  then show ?thesis by simp
next
  case W_in_unlock
  with step coh low have "point_work B rk' (points s' t) (phase (lk s') t) + c < point_work B rk p (phase (lk s) t) + g"
    by (intro in_call_work [of L t w Outside W_fetch p s s' READER]) simp_all
  then show ?thesis by simp
qed (use step coh entries free in
      \<open>auto simp: point_work_def op_cost_def coherent_def entries_within_def split: if_splits\<close>)

lemma writer_work:
  assumes step: "writerThread L target t w p s = Done s'" and p: "points s t = p"
    and coh: "coherent WRITER p (phase (lk s) t)" and entries: "entries_within L B rk'"
    and low: "\<And>k. advance L t w (lk s) = Done k \<Longrightarrow> lowers rk rk' c g (phase (lk s) t) (phase k t)"
    and free: "\<not> in_call (phase (lk s) t) \<Longrightarrow> c = 0"
  shows "point_work B rk' (points s' t) (phase (lk s') t) + c
       < point_work B rk p (phase (lk s) t) + g
         + (if p = W_fetch \<and> points s' t = W_call_lock then op_cost B else 0)"
proof (cases p)
  case W_in_lock
  with step coh low have "point_work B rk' (points s' t) (phase (lk s') t) + c < point_work B rk p (phase (lk s) t) + g"
    by (intro in_call_work [of L t w Writing W_locked p s s' WRITER]) simp_all
  then show ?thesis by simp
next
  case W_in_unlock
  with step coh low have "point_work B rk' (points s' t) (phase (lk s') t) + c < point_work B rk p (phase (lk s) t) + g"
    by (intro in_call_work [of L t w Outside W_top p s s' WRITER]) simp_all
  then show ?thesis by simp
next
  case W_in_abort_unlock
  with step coh low have "point_work B rk' (points s' t) (phase (lk s') t) + c < point_work B rk p (phase (lk s) t) + g"
    by (intro in_call_work [of L t w Outside W_abort_exit p s s' WRITER]) simp_all
  then show ?thesis by simp
qed (use step coh entries free in
      \<open>auto simp: point_work_def op_cost_def coherent_def entries_within_def Let_def split: if_splits\<close>)

lemma act_work:
  assumes act: "worker_act L cfg t w s = Done s'"
    and coh: "coherent (arg_type (thread_arg cfg t)) (points s t) (phase (lk s) t)"
    and entries: "entries_within L B rk'"
    and low: "\<And>k. advance L t w (lk s) = Done k \<Longrightarrow> lowers rk rk' c g (phase (lk s) t) (phase k t)"
    and free: "\<not> in_call (phase (lk s) t) \<Longrightarrow> c = 0"
  shows "point_work B rk' (points s' t) (phase (lk s') t) + c
       < point_work B rk (points s t) (phase (lk s) t) + g
         + (if points s t = W_fetch \<and> points s' t = W_call_lock then op_cost B else 0)"
proof -
  let ?ty = "arg_type (thread_arg cfg t)"
  have t: "t < num_threads cfg" using act by (simp add: worker_act_def split: if_splits)
  consider (new) "points s t = W_new" "s' = goto t W_init s"
    | (reader) "?ty = READER" "readerThread L t w (points s t) s = Done s'"
    | (writer) "?ty = WRITER"
        "writerThread L (arg_isAbortTarget (thread_arg cfg t)) t w (points s t) s = Done s'"
    using act t by (cases "points s t = W_new"; cases ?ty) (simp_all add: worker_act_def)
  then show ?thesis
  proof cases
    case new
    with coh have "\<not> in_call (phase (lk s) t)" by (simp add: coherent_def)
    then show ?thesis using free new by (simp add: point_work_def)
  next
    case reader
    then show ?thesis using reader_work [OF reader(2) refl _ entries low free] coh by simp
  next
    case writer
    then show ?thesis using writer_work [OF writer(2) refl _ entries low free] coh by simp
  qed
qed

text \<open>The work of all: the acting thread pays for what its action adds to that of the others.\<close>

context sim_lock
begin

lemma work_with_decreases:
  assumes cfg: "valid_cfg cfg" and act: "worker_act L cfg t w s = Done s'" and inv: "sim_inv L l0 cfg s"
    and entries: "entries_within L B (rk' t)"
    and low: "\<And>k. advance L t w (lk s) = Done k \<Longrightarrow> lowers (rk t) (rk' t) c g (phase (lk s) t) (phase k t)"
    and free: "\<not> in_call (phase (lk s) t) \<Longrightarrow> c = 0"
    and others: "\<And>u. u < num_threads cfg \<Longrightarrow> u \<noteq> t \<Longrightarrow>
       call_rank (rk' u) (phase (lk s) u) \<le> call_rank (rk u) (phase (lk s) u) + e"
    and paid: "e * num_threads cfg \<le> c"
  shows "work_with B rk' cfg s' < work_with B rk cfg s + g"
proof -
  define F where "F u = point_work B (rk u) (points s u) (phase (lk s) u)" for u
  define F' where "F' u = point_work B (rk' u) (points s' u) (phase (lk s') u)" for u
  define T where "T = cfg_totalOps cfg"
  let ?n = "num_threads cfg"
  note eff = worker_act_effect [OF act inv]
  have "F' u \<le> F u + e" if "u < ?n" "u \<noteq> t" for u
    using others [OF that] eff(4) [OF that(2)] by (simp add: F_def F'_def point_work_def split: worker_point.split)
  then have "(\<Sum>u\<in>{..<?n} - {t}. F' u) \<le> (\<Sum>u\<in>{..<?n} - {t}. F u + e)" by (intro sum_mono) auto
  also have "\<dots> \<le> (\<Sum>u\<in>{..<?n} - {t}. F u) + c"
  proof -
    have "e * (?n - Suc 0) \<le> c" by (rule le_trans [OF mult_le_mono2 paid]) simp
    then show ?thesis using eff(1) by (simp add: sum.distrib mult.commute)
  qed
  finally have rest: "(\<Sum>u\<in>{..<?n} - {t}. F' u) \<le> (\<Sum>u\<in>{..<?n} - {t}. F u) + c" .
  have split: "(\<Sum>u<?n. G u) = G t + (\<Sum>u\<in>{..<?n} - {t}. G u)" for G :: "nat \<Rightarrow> nat"
    using eff(1) by (simp add: sum.remove)
  have own: "F' t + c < F t + g + (if points s t = W_fetch \<and> points s' t = W_call_lock then op_cost B else 0)"
    unfolding F_def F'_def by (rule act_work [OF act sim_inv_facts(2) [OF inv] entries low free])
  have sum: "(\<Sum>u<?n. F' u) < (\<Sum>u<?n. F u) + g
      + (if points s t = W_fetch \<and> points s' t = W_call_lock then op_cost B else 0)"
    using rest own split [of F] split [of F'] by linarith
  have claimed: "claimed cfg s' = claimed cfg s + (op_account s' t - op_account s t)"
    unfolding claimed_def
    by (rule sum_change_one [OF eff(1)]) (use eff(4) in \<open>simp add: op_account_def\<close>)
  have le: "claimed cfg s' \<le> T"
    using sim_inv_facts(4) [OF sim_inv_work [OF cfg inv act]] by (simp add: ops_inv_def T_def)
  show ?thesis
  proof (cases "points s t = W_fetch \<and> points s' t = W_call_lock")
    case True
    then have "op_account s' t = op_account s t + 1"
      using eff(5) by (auto simp: account_step_def op_account_def holds_op_def)
    then have "nat (T - claimed cfg s) = Suc (nat (T - claimed cfg s'))" using claimed le by simp
    then show ?thesis using sum True by (simp add: work_with_def F_def F'_def T_def)
  next
    case False
    then have "op_account s' t = op_account s t"
      using eff(5) by (auto simp: account_step_def op_account_def holds_op_def split: if_splits)
    then show ?thesis using sum False claimed by (simp add: work_with_def F_def F'_def)
  qed
qed

end

section \<open>Every action lowers the measure\<close>

locale live_sim_lock = sim_lock L l0 inv + live_rw_lock L l0 inv rank
  for L :: "('l, 'p) RWLockBase" and l0 inv and rank :: "'p \<Rightarrow> nat"
begin

abbreviation B :: nat where
  "B \<equiv> call_bound L rank"

lemma entry_ranks: "entries_within L B rank"
  by (simp add: entries_within_def call_bound_def)

lemma advance_rank:
  assumes "advance L t w s = Done s'"
  shows "lowers rank rank 0 0 (phase s t) (phase s' t)"
  using assms
  by (auto elim!: advance_cases simp: resume_def lowers_def split: option.splits
      dest: rank_readLock rank_readUnlock rank_writeLock rank_writeUnlock)

lemma sim_work_decreases:
  assumes "valid_cfg cfg" and "worker_act L cfg t w s = Done s'" and "sim_inv L l0 cfg s"
  shows "sim_work L rank cfg s' < sim_work L rank cfg s"
  using work_with_decreases [OF assms entry_ranks, of "\<lambda>_. rank" 0 0 0] advance_rank
  by (simp add: sim_work_def)

lemma sim_run_work:
  "sim_run L cfg k s s' \<Longrightarrow> valid_cfg cfg \<Longrightarrow> sim_inv L l0 cfg s \<Longrightarrow>
     sim_inv L l0 cfg s' \<and> k + sim_work L rank cfg s' \<le> sim_work L rank cfg s"
proof (induction rule: sim_run.induct)
  case (run_work k s s1 t w s2)
  then show ?case
    using sim_inv_work [of cfg s1 t w s2] sim_work_decreases [of cfg t w s1 s2] by simp
next
  case (run_other k s s1 s2)
  then have "sim_work L rank cfg s2 = sim_work L rank cfg s1"
    by (simp add: sim_work_def work_with_def claimed_def op_account_def)
  with run_other show ?case using sim_inv_step [of cfg s1 s2] by simp
qed simp

section \<open>Some worker can always act\<close>

lemma some_worker_acts:
  assumes inv: "sim_inv L l0 cfg s" and t: "t < num_threads cfg" "\<not> worker_done (points s t)"
  shows "\<exists>u w s'. worker_act L cfg u w s = Done s'"
proof (cases "\<exists>u < num_threads cfg. \<not> worker_done (points s u) \<and> \<not> in_call (phase (lk s) u)")
  case True
  then obtain u where "u < num_threads cfg" "\<not> worker_done (points s u)" "\<not> in_call (phase (lk s) u)"
    by blast
  then show ?thesis using acts_outside_calls sim_inv_facts(2) [OF inv] by blast
next
  case False
  note inside = all_in_calls [OF inv False]
  have idle: "\<forall>u. phase (lk s) u \<noteq> Reading \<and> phase (lk s) u \<noteq> Writing"
  proof
    fix u show "phase (lk s) u \<noteq> Reading \<and> phase (lk s) u \<noteq> Writing"
      using inside [of u] by (auto simp: in_call_def)
  qed
  have "in_call (phase (lk s) t)" using False t by blast
  from not_stuck [OF inv_reachable [OF sim_inv_facts(1) [OF inv]] this idle]
  obtain u w k where k: "advance L u w (lk s) = Done k" by blast
  then have "in_call (phase (lk s) u)" by (auto elim!: advance_cases)
  then have "u < num_threads cfg" using inside [of u] by auto
  then show ?thesis using acts_in_call [OF _ k sim_inv_facts(2) [OF inv]] by blast
qed

text \<open>
  Every run over such a lock has a bounded number of worker actions, and while a worker has not
  returned, some worker can act.
\<close>

lemma sim_terminates:
  assumes cfg: "valid_cfg cfg" and run: "sim_run L cfg k (sim_start l0 cfg g) s"
  shows "k \<le> nat (cfg_totalOps cfg) * op_cost B + 6 * num_threads cfg"
    and "t < num_threads cfg \<Longrightarrow> \<not> worker_done (points s t) \<Longrightarrow>
           \<exists>u w s'. worker_act L cfg u w s = Done s'"
proof -
  have start: "claimed cfg (sim_start l0 cfg g :: ('l, 'p) sim) = 0"
    unfolding claimed_def
    by (rule sum.neutral) (simp add: op_account_def holds_op_def sim_start_simps)
  note bound = sim_run_work [OF run cfg sim_inv_start [OF cfg]]
  then show "k \<le> nat (cfg_totalOps cfg) * op_cost B + 6 * num_threads cfg"
    by (simp add: sim_work_def work_with_def [of _ _ cfg "sim_start l0 cfg g"] start sim_start_simps point_work_def)
  show "t < num_threads cfg \<Longrightarrow> \<not> worker_done (points s t) \<Longrightarrow>
           \<exists>u w s'. worker_act L cfg u w s = Done s'"
    using some_worker_acts bound by blast
qed

end

end
