(* ===== verification/Simulation.thy ===== *)
theory Simulation
  imports Progress Reader_Priority Writer_Priority Fair_Morris
begin

text \<open>
  \<open>runSimulation\<close> of \<open>src/main.cpp\<close> up to the join of its workers: the \<open>switch\<close> over the algorithm is
  the choice of the lock class, so each result is stated for the three classes it can choose.
\<close>

section \<open>The three locks meet the contract\<close>

lemma transitions_keep_ops [simp]:
  "ti_opsCompleted (c_info (transitionWaiting m c)) = ti_opsCompleted (c_info c)"
  "ti_opsCompleted (c_info (transitionActive m c)) = ti_opsCompleted (c_info c)"
  "ti_opsCompleted (c_info (transitionReleasing m c)) = ti_opsCompleted (c_info c)"
  by (simp_all add: transitionWaiting_def transitionActive_def transitionReleasing_def
        enterWaiting_def enterActive_def Let_def)

lemma rp_frame:
  "rp_readLock p t w (l, c) = Done (l', c', r) \<Longrightarrow> ti_opsCompleted (c_info c') = ti_opsCompleted (c_info c)"
  "rp_readUnlock p t w (l, c) = Done (l', c', r) \<Longrightarrow> ti_opsCompleted (c_info c') = ti_opsCompleted (c_info c)"
  "rp_writeLock p t w (l, c) = Done (l', c', r) \<Longrightarrow> ti_opsCompleted (c_info c') = ti_opsCompleted (c_info c)"
  "rp_writeUnlock p t w (l, c) = Done (l', c', r) \<Longrightarrow> ti_opsCompleted (c_info c') = ti_opsCompleted (c_info c)"
  by (cases p; auto simp: outcome_simps Let_def split: if_splits)+

lemma wp_frame:
  "wp_readLock p t w (l, c) = Done (l', c', r) \<Longrightarrow> ti_opsCompleted (c_info c') = ti_opsCompleted (c_info c)"
  "wp_readUnlock p t w (l, c) = Done (l', c', r) \<Longrightarrow> ti_opsCompleted (c_info c') = ti_opsCompleted (c_info c)"
  "wp_writeLock p t w (l, c) = Done (l', c', r) \<Longrightarrow> ti_opsCompleted (c_info c') = ti_opsCompleted (c_info c)"
  "wp_writeUnlock p t w (l, c) = Done (l', c', r) \<Longrightarrow> ti_opsCompleted (c_info c') = ti_opsCompleted (c_info c)"
  by (cases p; auto simp: outcome_simps Let_def split: if_splits)+

lemma fa_frame:
  "fa_readLock p t w (l, c) = Done (l', c', r) \<Longrightarrow> ti_opsCompleted (c_info c') = ti_opsCompleted (c_info c)"
  "fa_readUnlock p t w (l, c) = Done (l', c', r) \<Longrightarrow> ti_opsCompleted (c_info c') = ti_opsCompleted (c_info c)"
  "fa_writeLock p t w (l, c) = Done (l', c', r) \<Longrightarrow> ti_opsCompleted (c_info c') = ti_opsCompleted (c_info c)"
  "fa_writeUnlock p t w (l, c) = Done (l', c', r) \<Longrightarrow> ti_opsCompleted (c_info c') = ti_opsCompleted (c_info c)"
  by (cases p; auto simp: outcome_simps Let_def split: if_splits)+

interpretation rp_sim: live_sim_lock rp_class ReaderPriorityLock rp_inv rp_rank
  by unfold_locales (auto intro: rp_frame)

interpretation wp_sim: live_sim_lock wp_class WriterPriorityLock wp_inv wp_rank
  by unfold_locales (auto intro: wp_frame)

interpretation fa_sim: sim_lock fa_class FairMorrisLock fa_inv
  by unfold_locales (auto intro: fa_frame)

section \<open>Results for every run\<close>

text \<open>
  A finite run of workers as a list of who acts and with which choice; executable.
\<close>

fun worker_run ::
    "('l, 'p) RWLockBase \<Rightarrow> SimConfig \<Rightarrow> (tid \<times> wakeup) list \<Rightarrow> ('l, 'p) sim
       \<Rightarrow> (errno, ('l, 'p) sim) outcome" where
  "worker_run L cfg [] s = Done s"
| "worker_run L cfg ((t, w) # ws) s = bind_outcome (worker_act L cfg t w s) (worker_run L cfg ws)"

lemma worker_run_append:
  "worker_run L cfg (xs @ ys) s = bind_outcome (worker_run L cfg xs s) (worker_run L cfg ys)"
proof (induction L cfg xs s rule: worker_run.induct)
  case (2 L cfg t w ws s)
  then show ?case by (cases "worker_act L cfg t w s") simp_all
qed simp

lemma worker_run_reachable:
  "worker_run L cfg ws s = Done s' \<Longrightarrow> reachable s0 (sim_step L cfg) s \<Longrightarrow> reachable s0 (sim_step L cfg) s'"
proof (induction L cfg ws s rule: worker_run.induct)
  case (2 L cfg t w ws s)
  from "2.prems"(1) obtain s3 where s3: "worker_act L cfg t w s = Done s3"
    "worker_run L cfg ws s3 = Done s'" by (auto simp: outcome_simps)
  from "2.IH" [OF s3(2) reachable_step [OF "2.prems"(2) sim_step.work [OF s3(1)]]] show ?case .
qed simp

lemma worker_run_sim_run:
  "worker_run L cfg ws s1 = Done s2 \<Longrightarrow> sim_run L cfg k s s1 \<Longrightarrow> sim_run L cfg (k + length ws) s s2"
proof (induction L cfg ws s1 arbitrary: k rule: worker_run.induct)
  case (2 L cfg t w ws s1)
  from "2.prems"(1) obtain s3 where s3: "worker_act L cfg t w s1 = Done s3"
    "worker_run L cfg ws s3 = Done s2" by (auto simp: outcome_simps)
  from "2.IH" [OF s3(2) run_work [OF "2.prems"(2) s3(1)]] show ?case by simp
qed simp

text \<open>What the program is meant to guarantee, of one lock class and one configuration.\<close>

definition writers_exclusive :: "('l, 'p) RWLockBase \<Rightarrow> 'l \<Rightarrow> SimConfig \<Rightarrow> bool" where
  "writers_exclusive L l0 cfg \<longleftrightarrow>
     (\<forall>g s t u. reachable (sim_start l0 cfg g) (sim_step L cfg) s \<longrightarrow>
        touches (points s t) \<longrightarrow> touches (points s u) \<longrightarrow> t \<noteq> u \<longrightarrow>
        arg_type (thread_arg cfg t) = READER \<and> arg_type (thread_arg cfg u) = READER)"

definition all_returned :: "SimConfig \<Rightarrow> ('l, 'p) sim \<Rightarrow> bool" where
  "all_returned cfg s \<longleftrightarrow> (\<forall>t < num_threads cfg. worker_done (points s t))"

definition ops_completed :: "SimConfig \<Rightarrow> ('l, 'p) sim \<Rightarrow> int" where
  "ops_completed cfg s = (\<Sum>t<num_threads cfg. ti_opsCompleted (infos (lk s) t))"

definition writer_ops :: "SimConfig \<Rightarrow> ('l, 'p) sim \<Rightarrow> int" where
  "writer_ops cfg s =
     (\<Sum>t | t < num_threads cfg \<and> arg_type (thread_arg cfg t) = WRITER. ti_opsCompleted (infos (lk s) t))"

definition ops_accounted :: "('l, 'p) RWLockBase \<Rightarrow> 'l \<Rightarrow> SimConfig \<Rightarrow> bool" where
  "ops_accounted L l0 cfg \<longleftrightarrow>
     (\<forall>g s. reachable (sim_start l0 cfg g) (sim_step L cfg) s \<longrightarrow>
        ops_completed cfg s \<le> cfg_totalOps cfg
      \<and> (\<not> cfg_enableAbortTest cfg \<longrightarrow> 0 < num_threads cfg \<longrightarrow> all_returned cfg s \<longrightarrow>
           ops_completed cfg s = cfg_totalOps cfg))"

definition data_counts_writes :: "('l, 'p) RWLockBase \<Rightarrow> 'l \<Rightarrow> SimConfig \<Rightarrow> bool" where
  "data_counts_writes L l0 cfg \<longleftrightarrow>
     (\<forall>g s. reachable (sim_start l0 cfg g) (sim_step L cfg) s \<longrightarrow> all_returned cfg s \<longrightarrow>
        sr_data (res s) = writer_ops cfg s \<and> sr_writeCount (res s) = writer_ops cfg s)"

text \<open>Only the abort target ever takes the abort path.\<close>

definition aborting :: "worker_point \<Rightarrow> bool" where
  "aborting p \<longleftrightarrow> p = W_abort_unlock \<or> p = W_in_abort_unlock \<or> p = W_abort_exit \<or> p = W_aborted"

lemma reader_not_aborting:
  assumes "readerThread L t w p s = Done s'" and "points s t = p"
  shows "\<not> aborting (points s' t)"
  using assms by (cases p) (auto simp: in_lock_call_Done aborting_def split: if_splits)

lemma writer_not_aborting:
  assumes "writerThread L False t w p s = Done s'" and "points s t = p" and "\<not> aborting p"
  shows "\<not> aborting (points s' t)"
  using assms by (cases p) (auto simp: in_lock_call_Done aborting_def Let_def split: if_splits)

lemma act_not_aborting:
  assumes act: "worker_act L cfg t w s = Done s'" and "\<not> arg_isAbortTarget (thread_arg cfg t)"
    and "\<not> aborting (points s t)"
  shows "\<not> aborting (points s' t)"
proof -
  have t: "\<not> num_threads cfg \<le> t" using act by (auto simp: worker_act_def)
  show ?thesis
  proof (cases "points s t = W_new")
    case True
    then show ?thesis using act t by (auto simp: worker_act_def aborting_def)
  next
    case False
    then show ?thesis
      using act t assms(2,3) reader_not_aborting [of L t w "points s t" s s']
        writer_not_aborting [of L t w "points s t" s s']
      by (simp add: worker_act_def split: if_splits)
  qed
qed

context sim_lock
begin

lemma never_aborted:
  assumes cfg: "valid_cfg cfg" and r: "reachable (sim_start l0 cfg g) (sim_step L cfg) s"
    and target: "\<not> arg_isAbortTarget (thread_arg cfg t)"
  shows "points s t \<noteq> W_aborted"
proof -
  have "\<not> aborting (points s t)"
    using r
  proof (induction rule: reachable.induct)
    case reachable_init
    show ?case by (simp add: aborting_def sim_start_simps)
  next
    case (reachable_step s s')
    note inv = sim_inv_reachable [OF cfg reachable_step.hyps(1)]
    from reachable_step.hyps(2) show ?case
    proof (cases rule: sim_step.cases)
      case (work u w)
      then show ?thesis
        using act_not_aborting [OF work] target reachable_step.IH worker_act_effect(4) [OF work inv, of t]
        by (cases "u = t") auto
    qed (use reachable_step.IH in simp_all)
  qed
  then show ?thesis by (auto simp: aborting_def)
qed

lemma exclusive: "valid_cfg cfg \<Longrightarrow> writers_exclusive L l0 cfg"
  unfolding writers_exclusive_def using sim_inv_reachable sim_no_data_race by metis

lemma accounted:
  assumes cfg: "valid_cfg cfg"
  shows "ops_accounted L l0 cfg"
  unfolding ops_accounted_def
proof (intro allI impI conjI)
  fix g s
  assume r: "reachable (sim_start l0 cfg g) (sim_step L cfg) s"
  note inv = sim_inv_reachable [OF cfg r]
  show "ops_completed cfg s \<le> cfg_totalOps cfg"
    unfolding ops_completed_def by (rule sim_ops_bound [OF inv])
  assume abort: "\<not> cfg_enableAbortTest cfg" and n: "0 < num_threads cfg"
    and ret: "all_returned cfg s"
  have no_target: "\<not> arg_isAbortTarget (thread_arg cfg t)" for t
    using abort by (simp add: thread_arg_def)
  show "ops_completed cfg s = cfg_totalOps cfg"
    unfolding ops_completed_def
  proof (rule sim_complete [OF inv _ n no_target])
    show "\<forall>t < num_threads cfg. points s t = W_exit"
    proof (intro allI impI)
      fix t assume t: "t < num_threads cfg"
      have "points s t \<noteq> W_aborted" using never_aborted [OF cfg r no_target] .
      then show "points s t = W_exit" using ret t by (auto simp: all_returned_def worker_done_def)
    qed
  qed
qed

lemma counts_writes:
  assumes cfg: "valid_cfg cfg"
  shows "data_counts_writes L l0 cfg"
  unfolding data_counts_writes_def
proof (intro allI impI)
  fix g s
  assume r: "reachable (sim_start l0 cfg g) (sim_step L cfg) s" and ret: "all_returned cfg s"
  have "\<forall>t < num_threads cfg. arg_type (thread_arg cfg t) = WRITER \<longrightarrow> \<not> touches (points s t)
        \<and> points s t \<noteq> W_done_op"
    using ret by (auto simp: all_returned_def worker_done_def touches_def)
  from sim_data_exact [OF sim_inv_reachable [OF cfg r] this]
  show "sr_data (res s) = writer_ops cfg s \<and> sr_writeCount (res s) = writer_ops cfg s"
    by (simp add: writer_ops_def)
qed

end

section \<open>The guarantees, for each algorithm\<close>

definition small_cfg :: SimConfig where
  "small_cfg = default_SimConfig\<lparr>cfg_numReaders := 1, cfg_numWriters := 2, cfg_totalOps := 3\<rparr>"

lemma small_cfg_valid: "valid_cfg small_cfg"
  by (simp add: small_cfg_def valid_cfg_def default_SimConfig_def)

text \<open>
  C17: With any of the three algorithms, whenever two different workers are both about to read or write
  the shared resource, both are readers: a writer has the resource to itself, for any number of
  threads, any interleaving, and with the abort signal at any time.
\<close>

theorem simulation_writers_exclusive:
  assumes "valid_cfg cfg"
  shows "writers_exclusive rp_class ReaderPriorityLock cfg
       \<and> writers_exclusive wp_class WriterPriorityLock cfg
       \<and> writers_exclusive fa_class FairMorrisLock cfg"
  using rp_sim.exclusive wp_sim.exclusive fa_sim.exclusive assms by blast

lemma simulation_writers_exclusive_witness: "writers_exclusive fa_class FairMorrisLock small_cfg"
  using simulation_writers_exclusive [OF small_cfg_valid] by blast

text \<open>
  C6: Operations are accounted for exactly, although workers overdraw the 32-bit counter and refund it:
  at no time do the workers' \<open>opsCompleted\<close> add up to more than \<open>totalOps\<close>, and when all workers have
  returned (without the abort test) they add up to \<open>totalOps\<close>.
\<close>

theorem simulation_ops_accounted:
  assumes "valid_cfg cfg"
  shows "ops_accounted rp_class ReaderPriorityLock cfg \<and> ops_accounted wp_class WriterPriorityLock cfg
       \<and> ops_accounted fa_class FairMorrisLock cfg"
  using rp_sim.accounted wp_sim.accounted fa_sim.accounted assms by blast

lemma simulation_ops_accounted_witness: "ops_accounted wp_class WriterPriorityLock small_cfg"
  using simulation_ops_accounted [OF small_cfg_valid] by blast

text \<open>
  C18: No write is lost: when all workers have returned, also after an abort, \<open>data_\<close> and \<open>writeCount_\<close>
  both equal the number of operations the writers completed, although both are plain integers.
\<close>

theorem simulation_data_counts_writes:
  assumes "valid_cfg cfg"
  shows "data_counts_writes rp_class ReaderPriorityLock cfg
       \<and> data_counts_writes wp_class WriterPriorityLock cfg
       \<and> data_counts_writes fa_class FairMorrisLock cfg"
  using rp_sim.counts_writes wp_sim.counts_writes fa_sim.counts_writes assms by blast

lemma simulation_data_counts_writes_witness: "data_counts_writes rp_class ReaderPriorityLock small_cfg"
  using simulation_data_counts_writes [OF small_cfg_valid] by blast

lemma small_cfg_simps [simp]:
  "num_threads small_cfg = 3" "cfg_totalOps small_cfg = 3" "thread_arg small_cfg 0 = \<lparr>arg_type = READER, arg_isAbortTarget = False\<rparr>"
  "thread_arg small_cfg 1 = \<lparr>arg_type = WRITER, arg_isAbortTarget = False\<rparr>"
  "thread_arg small_cfg (Suc 0) = \<lparr>arg_type = WRITER, arg_isAbortTarget = False\<rparr>"
  "thread_arg small_cfg 2 = \<lparr>arg_type = WRITER, arg_isAbortTarget = False\<rparr>"
  by (simp_all add: num_threads_def thread_arg_def small_cfg_def default_SimConfig_def)

end
