(* ===== verification/Metrics.thy ===== *)
theory Metrics
  imports Complex_Main Thread_State
begin

text \<open>
  \<open>include/metrics.hpp\<close> and \<open>src/metrics.cpp\<close>: the figures computed from the thread records after a
  simulation, and their text, CSV and table forms.  A \<open>double\<close> is a \<open>real\<close>: rounding in the arithmetic is
  not modelled, rounding when a number is printed is.
\<close>

section \<open>The result of a run\<close>

record MetricsResult =
  mr_algo :: AlgoType
  mr_numReaders :: int
  mr_numWriters :: int
  mr_totalOps :: int
  mr_avgReaderWaitMs :: real
  mr_avgWriterWaitMs :: real
  mr_throughputOpsPerSec :: real
  mr_jainsFairnessIndex :: real
  mr_starvationCount :: int
  mr_contextSwitchesVol :: int
  mr_contextSwitchesInv :: int
  mr_simulationDurationMs :: real

text \<open>\<open>MetricsResult r{}\<close>: every member zero; the enumerator with value 0 is \<open>READER_PRIORITY\<close>.\<close>

definition zero_MetricsResult :: MetricsResult where
  "zero_MetricsResult =
     \<lparr>mr_algo = READER_PRIORITY, mr_numReaders = 0, mr_numWriters = 0, mr_totalOps = 0,
      mr_avgReaderWaitMs = 0, mr_avgWriterWaitMs = 0, mr_throughputOpsPerSec = 0,
      mr_jainsFairnessIndex = 0, mr_starvationCount = 0, mr_contextSwitchesVol = 0,
      mr_contextSwitchesInv = 0, mr_simulationDurationMs = 0\<rparr>"

text \<open>\<open>getrusage\<close> gives the two counters or fails.\<close>

definition captureContextSwitches :: "(int \<times> int) option \<Rightarrow> int \<times> int" where
  "captureContextSwitches usage = (case usage of None \<Rightarrow> (-1, -1) | Some (nvcsw, nivcsw) \<Rightarrow> (nvcsw, nivcsw))"

section \<open>The calculation\<close>

text \<open>The local variables of the loop over the records; \<open>None\<close> is a null pointer.\<close>

record metric_sums =
  ms_readerWaitSum :: real
  ms_readerCount :: int
  ms_writerWaitSum :: real
  ms_writerCount :: int
  ms_totalOpsActual :: int
  ms_starveEvents :: int
  ms_perThreadOps :: "real list"

definition no_sums :: metric_sums where
  "no_sums = \<lparr>ms_readerWaitSum = 0, ms_readerCount = 0, ms_writerWaitSum = 0, ms_writerCount = 0,
     ms_totalOpsActual = 0, ms_starveEvents = 0, ms_perThreadOps = []\<rparr>"

definition avg_wait :: "ThreadInfo \<Rightarrow> real" where
  "avg_wait t = (let ops = ti_opsCompleted t
     in if 0 < ops then real_of_int (ti_totalWaitMs t) / real_of_int ops else 0)"

fun metric_step :: "metric_sums \<Rightarrow> ThreadInfo option \<Rightarrow> metric_sums" where
  "metric_step m None = m"
| "metric_step m (Some t) =
     (let ops = ti_opsCompleted t;
          m1 = m\<lparr>ms_totalOpsActual := ms_totalOpsActual m + ops,
                 ms_starveEvents := ms_starveEvents m + ti_starveCount t,
                 ms_perThreadOps := ms_perThreadOps m @ [real_of_int ops]\<rparr>
      in if ti_type t = READER
         then m1\<lparr>ms_readerWaitSum := ms_readerWaitSum m1 + avg_wait t,
                 ms_readerCount := ms_readerCount m1 + 1\<rparr>
         else m1\<lparr>ms_writerWaitSum := ms_writerWaitSum m1 + avg_wait t,
                 ms_writerCount := ms_writerCount m1 + 1\<rparr>)"

text \<open>Jain's index; the field keeps its initial 0 when there is no thread.\<close>

definition jains_index :: "real list \<Rightarrow> real" where
  "jains_index xs =
     (let n = length xs; sumX = foldl (+) 0 xs; sumX2 = foldl (\<lambda>s x. s + x * x) 0 xs
      in if 0 < n then (if 0 < sumX2 then (sumX * sumX) / (real n * sumX2) else 1) else 0)"

definition Metrics_compute ::
    "ThreadInfo option list \<Rightarrow> SimConfig \<Rightarrow> real \<Rightarrow> int \<Rightarrow> int \<Rightarrow> MetricsResult" where
  "Metrics_compute threads cfg wallMs ctxVol ctxInv =
     (let r = zero_MetricsResult\<lparr>mr_algo := cfg_algo cfg, mr_numReaders := cfg_numReaders cfg,
                mr_numWriters := cfg_numWriters cfg, mr_totalOps := cfg_totalOps cfg,
                mr_simulationDurationMs := wallMs, mr_contextSwitchesVol := ctxVol,
                mr_contextSwitchesInv := ctxInv\<rparr>;
          m = foldl metric_step no_sums threads;
          r1 = r\<lparr>mr_avgReaderWaitMs := (if 0 < ms_readerCount m
                   then ms_readerWaitSum m / real_of_int (ms_readerCount m) else 0),
                 mr_avgWriterWaitMs := (if 0 < ms_writerCount m
                   then ms_writerWaitSum m / real_of_int (ms_writerCount m) else 0)\<rparr>;
          r2 = (if 0 < wallMs
                then r1\<lparr>mr_throughputOpsPerSec := real_of_int (ms_totalOpsActual m) / wallMs * 1000\<rparr>
                else r1)
      in r2\<lparr>mr_starvationCount := ms_starveEvents m,
            mr_jainsFairnessIndex := jains_index (ms_perThreadOps m)\<rparr>)"

section \<open>Printing\<close>

text \<open>\<open>%.df\<close>: \<open>d\<close> decimals, the nearest decimal, an even last digit on a tie.\<close>

definition round_half_even :: "real \<Rightarrow> int" where
  "round_half_even x = (let n = \<lfloor>x\<rfloor>; f = x - of_int n
     in if f < 1 / 2 then n else if 1 / 2 < f then n + 1 else if even n then n else n + 1)"

definition fixed :: "nat \<Rightarrow> real \<Rightarrow> string" where
  "fixed d x =
     (let m = nat (round_half_even (\<bar>x\<bar> * 10 ^ d))
      in (if x < 0 then ''-'' else '''') @ show_nat (m div 10 ^ d) @ ''.'' @ zero_pad d (int (m mod 10 ^ d)))"

definition MetricsResult_toString :: "MetricsResult \<Rightarrow> string" where
  "MetricsResult_toString r =
     ''['' @ algoLongName (mr_algo r) @ '']''
     @ '' R='' @ to_string (mr_numReaders r) @ '' W='' @ to_string (mr_numWriters r)
     @ '' OPS='' @ to_string (mr_totalOps r)
     @ '' | AvgRWait='' @ fixed 2 (mr_avgReaderWaitMs r) @ ''ms''
     @ '' AvgWWait='' @ fixed 2 (mr_avgWriterWaitMs r) @ ''ms''
     @ '' Throughput='' @ fixed 2 (mr_throughputOpsPerSec r) @ ''ops/s''
     @ '' Jain='' @ fixed 3 (mr_jainsFairnessIndex r)
     @ '' Starve='' @ to_string (mr_starvationCount r)
     @ '' CSW(vol/inv)='' @ to_string (mr_contextSwitchesVol r) @ ''/'' @ to_string (mr_contextSwitchesInv r)
     @ '' Duration='' @ fixed 1 (mr_simulationDurationMs r) @ ''ms''"

text \<open>
  \<open>exportCSV\<close> on the content of the file, \<open>None\<close> when it does not exist; \<open>can_open\<close> is whether \<open>fopen\<close>
  succeeds, the second component what goes to standard error.  A \<open>stat\<close> that fails stands for a file that is
  not there.
\<close>

definition csv_header :: string where
  "csv_header =
     ''Algorithm,NumReaders,NumWriters,TotalOps,''
     @ ''AvgReaderWaitMs,AvgWriterWaitMs,ThroughputOpsPerSec,''
     @ ''JainsFairnessIndex,StarvationCount,''
     @ ''ContextSwitchesVol,ContextSwitchesInv,DurationMs'' @ [CHR 0x0A]"

definition csv_row :: "MetricsResult \<Rightarrow> string" where
  "csv_row r =
     algoLongName (mr_algo r) @ '','' @ to_string (mr_numReaders r) @ '','' @ to_string (mr_numWriters r)
     @ '','' @ to_string (mr_totalOps r) @ '','' @ fixed 2 (mr_avgReaderWaitMs r)
     @ '','' @ fixed 2 (mr_avgWriterWaitMs r) @ '','' @ fixed 2 (mr_throughputOpsPerSec r)
     @ '','' @ fixed 4 (mr_jainsFairnessIndex r) @ '','' @ to_string (mr_starvationCount r)
     @ '','' @ to_string (mr_contextSwitchesVol r) @ '','' @ to_string (mr_contextSwitchesInv r)
     @ '','' @ fixed 2 (mr_simulationDurationMs r) @ [CHR 0x0A]"

definition exportCSV ::
    "bool \<Rightarrow> string \<Rightarrow> MetricsResult \<Rightarrow> string option \<Rightarrow> string option \<times> string list" where
  "exportCSV can_open filepath r file =
     (let writeHeader = (file = None)
      in if \<not> can_open
         then (file, [''[Metrics] WARNING: cannot open CSV '' @ [CHR 0x27] @ filepath @ [CHR 0x27, CHR 0x0A]])
         else (let f = (case file of None \<Rightarrow> '''' | Some s \<Rightarrow> s);
                   f1 = (if writeHeader then f @ csv_header else f)
               in (Some (f1 @ csv_row r), [])))"

definition table_row :: "MetricsResult \<Rightarrow> string" where
  "table_row r =
     pad_right 20 (algoLongName (mr_algo r)) @ '' '' @ pad_right 6 (to_string (mr_numReaders r))
     @ '' '' @ pad_right 6 (to_string (mr_numWriters r)) @ '' '' @ pad_right 8 (to_string (mr_totalOps r))
     @ '' '' @ pad_right 12 (fixed 1 (mr_avgReaderWaitMs r))
     @ '' '' @ pad_right 12 (fixed 1 (mr_avgWriterWaitMs r))
     @ '' '' @ pad_right 14 (fixed 1 (mr_throughputOpsPerSec r))
     @ '' '' @ pad_right 8 (fixed 3 (mr_jainsFairnessIndex r))
     @ '' '' @ pad_right 8 (to_string (mr_starvationCount r)) @ [CHR 0x0A]"

definition printTable :: "MetricsResult list \<Rightarrow> string" where
  "printTable results =
     (if results = [] then ''''
      else [CHR 0x0A] @ pad_right 20 ''Algorithm'' @ '' '' @ pad_right 6 ''R'' @ '' '' @ pad_right 6 ''W''
           @ '' '' @ pad_right 8 ''Ops'' @ '' '' @ pad_right 12 ''AvgRWait(ms)''
           @ '' '' @ pad_right 12 ''AvgWWait(ms)'' @ '' '' @ pad_right 14 ''Throughput(ops/s)''
           @ '' '' @ pad_right 8 ''Jain'' @ '' '' @ pad_right 8 ''Starve'' @ [CHR 0x0A]
           @ replicate 104 CHR ''-'' @ [CHR 0x0A]
           @ concat (map table_row results) @ [CHR 0x0A])"

section \<open>The loop in closed form\<close>

definition of_type :: "ThreadType \<Rightarrow> ThreadInfo list \<Rightarrow> ThreadInfo list" where
  "of_type ty ts = filter (\<lambda>t. ti_type t = ty) ts"

definition records :: "ThreadInfo option list \<Rightarrow> ThreadInfo list" where
  "records threads = map the (filter (\<lambda>t. t \<noteq> None) threads)"

lemma records_simps [simp]:
  "records [] = []" "records (None # ts) = records ts" "records (Some t # ts) = t # records ts"
  by (simp_all add: records_def)

lemma records_Some [simp]: "records (map Some ts) = ts"
  by (induction ts) simp_all

lemma type_not_reader: "ti_type t \<noteq> READER \<longleftrightarrow> ti_type t = WRITER"
  by (cases "ti_type t") simp_all

lemma metric_fold:
  "foldl metric_step m threads = (let ts = records threads in
     \<lparr>ms_readerWaitSum = ms_readerWaitSum m + (\<Sum>t \<leftarrow> of_type READER ts. avg_wait t),
      ms_readerCount = ms_readerCount m + int (length (of_type READER ts)),
      ms_writerWaitSum = ms_writerWaitSum m + (\<Sum>t \<leftarrow> of_type WRITER ts. avg_wait t),
      ms_writerCount = ms_writerCount m + int (length (of_type WRITER ts)),
      ms_totalOpsActual = ms_totalOpsActual m + (\<Sum>t \<leftarrow> ts. ti_opsCompleted t),
      ms_starveEvents = ms_starveEvents m + (\<Sum>t \<leftarrow> ts. ti_starveCount t),
      ms_perThreadOps = ms_perThreadOps m @ map (\<lambda>t. real_of_int (ti_opsCompleted t)) ts\<rparr>)"
proof (induction threads arbitrary: m)
  case (Cons x threads)
  show ?case
  proof (cases x)
    case (Some t)
    then show ?thesis
      by (cases "ti_type t") (simp_all add: Cons.IH Let_def of_type_def)
  qed (simp add: Cons.IH)
qed (simp add: of_type_def)

definition mean :: "real list \<Rightarrow> real" where
  "mean xs = (if xs = [] then 0 else sum_list xs / real (length xs))"

section \<open>Jain's index\<close>

text \<open>\<open>n\<close> times the sum of squares exceeds the squared sum by the sum of all squared differences.\<close>

lemma squares_nonneg: "0 \<le> (\<Sum>x \<leftarrow> xs. (f x :: real)\<^sup>2)"
  by (induction xs) simp_all

lemma squares_zero: "(\<Sum>x \<leftarrow> xs. (f x :: real)\<^sup>2) = 0 \<longleftrightarrow> (\<forall>x \<in> set xs. f x = 0)"
proof (induction xs)
  case (Cons x xs)
  then show ?case using add_nonneg_eq_0_iff [OF zero_le_power2 squares_nonneg, of "f x" f xs] by simp
qed simp

definition spread :: "real \<Rightarrow> real list \<Rightarrow> real" where
  "spread y xs = (\<Sum>x \<leftarrow> xs. (y - x)\<^sup>2)"

lemma spread_nonneg: "0 \<le> spread y xs"
  by (simp only: spread_def squares_nonneg)

lemma spread_zero: "spread y xs = 0 \<longleftrightarrow> (\<forall>x \<in> set xs. x = y)"
  by (auto simp: spread_def squares_zero)

lemma spread_expand:
  "spread y xs = real (length xs) * y\<^sup>2 - 2 * y * sum_list xs + (\<Sum>x \<leftarrow> xs. x\<^sup>2)"
  by (induction xs) (simp_all add: spread_def power2_eq_square algebra_simps)

lemma deficit_Cons:
  "real (length (y # xs)) * (\<Sum>x \<leftarrow> y # xs. x\<^sup>2) - (sum_list (y # xs))\<^sup>2
   = (real (length xs) * (\<Sum>x \<leftarrow> xs. x\<^sup>2) - (sum_list xs)\<^sup>2) + spread y xs"
  by (simp add: spread_expand power2_eq_square algebra_simps)

lemma cauchy_schwarz_list: "(sum_list xs)\<^sup>2 \<le> real (length xs) * (\<Sum>x \<leftarrow> xs. x\<^sup>2)"
proof (induction xs)
  case (Cons y xs)
  then show ?case using deficit_Cons [of y xs] spread_nonneg [of y xs] by linarith
qed simp

lemma cauchy_schwarz_eq:
  "(sum_list xs)\<^sup>2 = real (length xs) * (\<Sum>x \<leftarrow> xs. x\<^sup>2) \<longleftrightarrow> (\<forall>x \<in> set xs. \<forall>y \<in> set xs. x = y)"
proof (induction xs)
  case (Cons y xs)
  have "(sum_list (y # xs))\<^sup>2 = real (length (y # xs)) * (\<Sum>x \<leftarrow> y # xs. x\<^sup>2)
      \<longleftrightarrow> (sum_list xs)\<^sup>2 = real (length xs) * (\<Sum>x \<leftarrow> xs. x\<^sup>2) \<and> spread y xs = 0"
    using deficit_Cons [of y xs] spread_nonneg [of y xs] cauchy_schwarz_list [of xs] by linarith
  also have "\<dots> \<longleftrightarrow> (\<forall>x \<in> set (y # xs). \<forall>z \<in> set (y # xs). x = z)"
    unfolding Cons.IH spread_zero by auto
  finally show ?case .
qed simp

lemma squares_le_square:
  "\<forall>x \<in> set xs. (0::real) \<le> x \<Longrightarrow> (\<Sum>x \<leftarrow> xs. x\<^sup>2) \<le> (sum_list xs)\<^sup>2"
proof (induction xs)
  case (Cons y xs)
  then have "0 \<le> 2 * y * sum_list xs" by (simp add: sum_list_nonneg)
  moreover have "(sum_list (y # xs))\<^sup>2 = y\<^sup>2 + 2 * y * sum_list xs + (sum_list xs)\<^sup>2"
    by (simp add: power2_sum)
  ultimately show ?case using Cons by simp
qed simp

lemma sums_foldl: "foldl (+) (a::real) xs = a + sum_list xs"
  by (induction xs arbitrary: a) simp_all

lemma squares_foldl: "foldl (\<lambda>s x. s + x * x) (a::real) xs = a + (\<Sum>x \<leftarrow> xs. x\<^sup>2)"
  by (induction xs arbitrary: a) (simp_all add: power2_eq_square)

lemma if_not_swap: "(if \<not> P then a else b) = (if P then b else a)"
  by simp

lemma jains_index_eq:
  "xs \<noteq> [] \<Longrightarrow> jains_index xs =
     (if \<forall>x \<in> set xs. x = 0 then 1 else (sum_list xs)\<^sup>2 / (real (length xs) * (\<Sum>x \<leftarrow> xs. x\<^sup>2)))"
proof -
  assume "xs \<noteq> []"
  then have n: "(0 < length xs) = True" by simp
  have q: "(0 < (\<Sum>x \<leftarrow> xs. x\<^sup>2)) = (\<not> (\<forall>x \<in> set xs. x = 0))"
    using squares_nonneg [of "\<lambda>x. x" xs] squares_zero [of "\<lambda>x. x" xs] by linarith
  show ?thesis
    by (simp only: jains_index_def Let_def sums_foldl squares_foldl add_0 power2_eq_square [of "sum_list xs"]
        n if_True q if_not_swap)
qed

lemma jains_index_range:
  assumes "xs \<noteq> []" and nonneg: "\<forall>x \<in> set xs. 0 \<le> x"
  shows "1 / real (length xs) \<le> jains_index xs" and "jains_index xs \<le> 1"
    and "jains_index xs = 1 \<longleftrightarrow> (\<forall>x \<in> set xs. \<forall>y \<in> set xs. x = y)"
proof -
  let ?n = "real (length xs)" and ?q = "\<Sum>x \<leftarrow> xs. x\<^sup>2"
  have n: "1 \<le> ?n" using assms(1) by (cases xs) simp_all
  consider (zero) "\<forall>x \<in> set xs. x = 0" | (pos) "\<not> (\<forall>x \<in> set xs. x = 0)" by blast
  then have "1 / ?n \<le> jains_index xs \<and> jains_index xs \<le> 1
      \<and> (jains_index xs = 1 \<longleftrightarrow> (\<forall>x \<in> set xs. \<forall>y \<in> set xs. x = y))"
  proof cases
    case zero
    then have "jains_index xs = 1" by (simp add: jains_index_eq [OF assms(1)])
    moreover have "\<forall>x \<in> set xs. \<forall>y \<in> set xs. x = y" using zero by metis
    ultimately show ?thesis using n by (simp add: divide_le_eq_1)
  next
    case pos
    have q: "0 < ?q" using pos squares_nonneg [of "\<lambda>x. x" xs] squares_zero [of "\<lambda>x. x" xs] by (simp add: less_le)
    have J: "jains_index xs = (sum_list xs)\<^sup>2 / (?n * ?q)"
      unfolding jains_index_eq [OF assms(1)] using pos by (rule if_not_P)
    have nq: "0 < ?n * ?q" using n q by (intro mult_pos_pos) linarith+
    have "1 / ?n = ?q / (?n * ?q)" using q by simp
    also have "\<dots> \<le> jains_index xs" unfolding J
      using squares_le_square [OF nonneg] nq by (intro divide_right_mono) simp_all
    finally have lower: "1 / ?n \<le> jains_index xs" .
    have upper: "jains_index xs \<le> 1" unfolding J using cauchy_schwarz_list [of xs] nq by simp
    have "jains_index xs = 1 \<longleftrightarrow> (sum_list xs)\<^sup>2 = ?n * ?q"
      unfolding J by (subst divide_eq_1_iff) (use nq in auto)
    then show ?thesis using lower upper cauchy_schwarz_eq [of xs] by blast
  qed
  then show "1 / ?n \<le> jains_index xs" "jains_index xs \<le> 1"
    "jains_index xs = 1 \<longleftrightarrow> (\<forall>x \<in> set xs. \<forall>y \<in> set xs. x = y)" by blast+
qed

section \<open>Fields and lines\<close>

fun split_on :: "char \<Rightarrow> string \<Rightarrow> string list" where
  "split_on c [] = [[]]"
| "split_on c (x # xs) =
     (if x = c then [] # split_on c xs
      else (case split_on c xs of [] \<Rightarrow> [[x]] | w # ws \<Rightarrow> (x # w) # ws))"

fun join :: "char \<Rightarrow> string list \<Rightarrow> string" where
  "join c [] = []"
| "join c [w] = w"
| "join c (w # ws) = w @ c # join c ws"

lemma split_on_word: "c \<notin> set w \<Longrightarrow> split_on c w = [w]"
  by (induction w) auto

lemma split_on_append: "c \<notin> set w \<Longrightarrow> split_on c (w @ c # rest) = w # split_on c rest"
  by (induction w) auto

lemma split_on_join: "ws \<noteq> [] \<Longrightarrow> \<forall>w \<in> set ws. c \<notin> set w \<Longrightarrow> split_on c (join c ws) = ws"
  by (induction c ws rule: join.induct) (simp_all add: split_on_word split_on_append)

definition csv_line :: "string list \<Rightarrow> string" where
  "csv_line ws = join CHR '','' ws @ [CHR 0x0A]"

definition header_fields :: "string list" where
  "header_fields = [''Algorithm'', ''NumReaders'', ''NumWriters'', ''TotalOps'', ''AvgReaderWaitMs'',
     ''AvgWriterWaitMs'', ''ThroughputOpsPerSec'', ''JainsFairnessIndex'', ''StarvationCount'',
     ''ContextSwitchesVol'', ''ContextSwitchesInv'', ''DurationMs'']"

definition result_fields :: "MetricsResult \<Rightarrow> string list" where
  "result_fields r = [algoLongName (mr_algo r), to_string (mr_numReaders r), to_string (mr_numWriters r),
     to_string (mr_totalOps r), fixed 2 (mr_avgReaderWaitMs r), fixed 2 (mr_avgWriterWaitMs r),
     fixed 2 (mr_throughputOpsPerSec r), fixed 4 (mr_jainsFairnessIndex r),
     to_string (mr_starvationCount r), to_string (mr_contextSwitchesVol r),
     to_string (mr_contextSwitchesInv r), fixed 2 (mr_simulationDurationMs r)]"

lemma csv_lines: "csv_header = csv_line header_fields" "csv_row r = csv_line (result_fields r)"
  by (simp_all add: csv_header_def csv_row_def csv_line_def header_fields_def result_fields_def)

text \<open>What is printed contains neither commas nor newlines.\<close>

definition plain :: "string \<Rightarrow> bool" where
  "plain w \<longleftrightarrow> CHR '','' \<notin> set w \<and> CHR 0x0A \<notin> set w"

lemma plain_simps [simp]:
  "plain []" "plain (c # w) \<longleftrightarrow> c \<noteq> CHR '','' \<and> c \<noteq> CHR 0x0A \<and> plain w"
  "plain (v @ w) \<longleftrightarrow> plain v \<and> plain w" "plain (replicate n CHR ''0'')"
  by (auto simp: plain_def)

lemma plain_show_nat [simp]: "plain (show_nat n)"
proof -
  have "\<not> is_digit CHR '',''" "\<not> is_digit CHR 0x0A" by (simp_all add: is_digit_def)
  then show ?thesis using all_digits_show_nat [of n] by (auto simp: plain_def)
qed

lemma plain_numbers [simp]: "plain (to_string n)" "plain (zero_pad w n)" "plain (fixed d x)"
  by (simp_all add: to_string_def zero_pad_def fixed_def Let_def)

lemma plain_algo [simp]: "plain (algoLongName a)"
  by (cases a) (simp_all add: plain_def)

lemma plain_fields: "\<forall>w \<in> set header_fields. plain w" "\<forall>w \<in> set (result_fields r). plain w"
  by (simp_all add: header_fields_def result_fields_def)

lemma fields_length [simp]:
  "length header_fields = 12" "length (result_fields r) = 12"
  "header_fields \<noteq> []" "result_fields r \<noteq> []"
  by (simp_all add: header_fields_def result_fields_def)

lemma newline_join: "\<forall>w \<in> set ws. plain w \<Longrightarrow> CHR 0x0A \<notin> set (join CHR '','' ws)"
  by (induction "CHR '',''" ws rule: join.induct) (auto simp: plain_def)

text \<open>Lines of a text that ends in a newline, each split at its commas.\<close>

definition parse_csv :: "string \<Rightarrow> string list list" where
  "parse_csv content = map (split_on CHR '','') (butlast (split_on CHR 0x0A content))"

lemma split_on_nonempty [simp]: "split_on c w \<noteq> []"
  by (induction w) (auto split: list.split)

lemma parse_csv_line:
  assumes "ws \<noteq> []" and "\<forall>w \<in> set ws. plain w"
  shows "parse_csv (csv_line ws @ rest) = ws # parse_csv rest"
  using assms newline_join [of ws] split_on_join [of ws "CHR '',''"]
  by (simp add: parse_csv_def csv_line_def split_on_append plain_def)

lemma parse_csv_rows: "parse_csv (concat (map csv_row rs)) = map result_fields rs"
proof (induction rs)
  case (Cons r rs)
  then show ?case
    by (simp add: csv_lines(2) parse_csv_line plain_fields)
qed (simp add: parse_csv_def)

text \<open>Successive calls on one file.\<close>

definition export_all :: "MetricsResult list \<Rightarrow> string option \<Rightarrow> string option" where
  "export_all rs file = foldl (\<lambda>f r. fst (exportCSV True [] r f)) file rs"

lemma exportCSV_existing: "fst (exportCSV True p r (Some content)) = Some (content @ csv_row r)"
  by (simp add: exportCSV_def)

lemma export_all_existing: "export_all rs (Some content) = Some (content @ concat (map csv_row rs))"
proof (induction rs arbitrary: content)
  case (Cons r rs)
  then show ?case by (simp add: export_all_def exportCSV_existing)
qed (simp add: export_all_def)

lemma export_all_new:
  "export_all (r # rs) None = Some (csv_header @ concat (map csv_row (r # rs)))"
proof -
  have "export_all (r # rs) None = export_all rs (Some (csv_header @ csv_row r))"
    by (simp add: export_all_def exportCSV_def)
  then show ?thesis by (simp add: export_all_existing)
qed

lemma parse_export:
  "map_option parse_csv (export_all (r # rs) None) = Some (header_fields # map result_fields (r # rs))"
  unfolding export_all_new csv_lines(1) option.map
    parse_csv_line [OF fields_length(3) plain_fields(1)] parse_csv_rows ..

section \<open>Properties\<close>

text \<open>
  C32: \<open>compute\<close> skips null pointers and otherwise reports: the mean over the readers, and over the writers,
  of each thread's mean wait per operation (0 when there is none); the operations of all threads per
  second; all their starvation events; and Jain's index of their operation counts.
\<close>

theorem compute_spec:
  "let ts = records threads; r = Metrics_compute threads cfg wallMs vol ivol
   in mr_avgReaderWaitMs r = mean (map avg_wait (of_type READER ts))
    \<and> mr_avgWriterWaitMs r = mean (map avg_wait (of_type WRITER ts))
    \<and> mr_throughputOpsPerSec r =
        (if 0 < wallMs then real_of_int (\<Sum>t \<leftarrow> ts. ti_opsCompleted t) * 1000 / wallMs else 0)
    \<and> mr_starvationCount r = (\<Sum>t \<leftarrow> ts. ti_starveCount t)
    \<and> mr_jainsFairnessIndex r = jains_index (map (\<lambda>t. real_of_int (ti_opsCompleted t)) ts)
    \<and> mr_simulationDurationMs r = wallMs \<and> mr_algo r = cfg_algo cfg"
  by (simp add: Metrics_compute_def metric_fold no_sums_def mean_def zero_MetricsResult_def Let_def)

text \<open>
  Jain's index of a simulation with \<open>n\<close> threads lies between \<open>1 / n\<close> and 1, and it is 1 exactly when
  all threads completed the same number of operations.
\<close>

lemma jains_index_fair:
  assumes "ts \<noteq> []" and "\<forall>t \<in> set ts. 0 \<le> ti_opsCompleted t"
  shows "1 / real (length ts) \<le> mr_jainsFairnessIndex (Metrics_compute (map Some ts) cfg wallMs vol ivol)
    \<and> mr_jainsFairnessIndex (Metrics_compute (map Some ts) cfg wallMs vol ivol) \<le> 1
    \<and> (mr_jainsFairnessIndex (Metrics_compute (map Some ts) cfg wallMs vol ivol) = 1
         \<longleftrightarrow> (\<forall>t \<in> set ts. \<forall>u \<in> set ts. ti_opsCompleted t = ti_opsCompleted u))"
proof -
  let ?xs = "map (\<lambda>t. real_of_int (ti_opsCompleted t)) ts"
  have J: "mr_jainsFairnessIndex (Metrics_compute (map Some ts) cfg wallMs vol ivol) = jains_index ?xs"
    by (simp add: Metrics_compute_def metric_fold no_sums_def Let_def)
  show ?thesis
    using jains_index_range [of ?xs] assms unfolding J by simp
qed

text \<open>
  C31: A CSV file reads back as written: exporting any results to a file that does not exist gives the
  header once and then one row per result in order, and splitting the file at newlines and commas gives
  back exactly the twelve column names and each result's twelve printed fields.
\<close>

theorem csv_reads_back:
  "map_option parse_csv (export_all (r # rs) None)
     = Some (header_fields # map result_fields (r # rs))
   \<and> (\<forall>q. length (result_fields q) = length header_fields)"
  unfolding parse_export by simp

end
