(* ===== verification/Simulation_Report.thy ===== *)
theory Simulation_Report
  imports Simulation Metrics
begin

text \<open>
  How \<open>runSimulation\<close> of \<open>src/main.cpp\<close> creates its workers and how it ends: with the semaphore algorithms all workers return and the
  metrics of the run are computed from their records; with \<open>FairMorrisLock\<close> the joins can wait for ever.
\<close>

section \<open>A simulation that hangs\<close>

text \<open>
  One reader, two writers and three operations.  A wakeup choice is passed along although no action
  here needs one; in particular no wakeup is spurious.
\<close>

definition acts :: "nat \<Rightarrow> tid \<Rightarrow> (tid \<times> wakeup) list" where
  "acts n t = replicate n (t, Pick 0)"

text \<open>
  Writer 1 takes the lock; writer 2 and reader 0 fall asleep; writer 1 writes and unlocks; the reader wakes,
  tests and sleeps again; writer 1 finds no operation left and returns.
\<close>

definition hang_schedule :: "(tid \<times> wakeup) list" where
  "hang_schedule = acts 11 1 @ acts 10 2 @ acts 9 0 @ acts 12 1 @ acts 5 0 @ acts 4 1"

definition at_core ::
    "(fa_lock, fa_point) sim \<Rightarrow> worker_point list \<Rightarrow> fa_lock \<Rightarrow> fa_point phase list \<Rightarrow> 32 word \<Rightarrow> bool" where
  "at_core s pts l phs ops \<longleftrightarrow>
     points s = (\<lambda>t. if t < 3 then pts ! t else W_new) \<and> shared (lk s) = l
   \<and> phase (lk s) = (\<lambda>t. if t < 3 then phs ! t else Outside) \<and> opsRemaining s = ops"

lemma hang_cfg_simps [simp]:
  "num_threads small_cfg = 3"
  "thread_arg small_cfg 0 = \<lparr>arg_type = READER, arg_isAbortTarget = False\<rparr>"
  "thread_arg small_cfg (Suc 0) = \<lparr>arg_type = WRITER, arg_isAbortTarget = False\<rparr>"
  "thread_arg small_cfg 2 = \<lparr>arg_type = WRITER, arg_isAbortTarget = False\<rparr>"
  "thread_arg small_cfg (Suc (Suc 0)) = \<lparr>arg_type = WRITER, arg_isAbortTarget = False\<rparr>"
  "cfg_totalOps small_cfg = 3"
  by (simp_all add: num_threads_def thread_arg_def small_cfg_def default_SimConfig_def)

lemmas hang_simps = eval_nat_numeral acts_def at_core_def worker_act_def goto_def worker_log_def
  worker_summary_def set_info_def enter_call_def in_lock_call_def advance_def run_method_def
  FairMorrisLock_def fetch_op_def refund_op_def pthread_mutex_lock_def pthread_cond_broadcast_def
  cond_woken_def outcome_simps

lemma hang_1:
  assumes "at_core s [W_new, W_new, W_new]
    FairMorrisLock [Outside, Outside, Outside] 3"
  shows "\<exists>s'. worker_run fa_class small_cfg (acts 11 1) s = Done s'
    \<and> at_core s' [W_new, W_locked, W_new]
        (FairMorrisLock\<lparr>fa_activeWriter := True\<rparr>)
        [Outside, Writing, Outside] 2"
  using assms by (simp add: hang_simps fun_eq_iff Let_def; auto simp: less_Suc_eq)

lemma hang_2:
  assumes "at_core s [W_new, W_locked, W_new]
    (FairMorrisLock\<lparr>fa_activeWriter := True\<rparr>) [Outside, Writing, Outside] 2"
  shows "\<exists>s'. worker_run fa_class small_cfg (acts 10 2) s = Done s'
    \<and> at_core s' [W_new, W_locked, W_in_lock]
        (FairMorrisLock\<lparr>fa_activeWriter := True, fa_writeCond := {2}, fa_waitingWriters := 1\<rparr>)
        [Outside, Writing, InWriteLock FaWL_asleep] 1"
  using assms by (simp add: hang_simps fun_eq_iff Let_def; auto simp: less_Suc_eq)

lemma hang_3:
  assumes "at_core s [W_new, W_locked, W_in_lock]
    (FairMorrisLock\<lparr>fa_activeWriter := True, fa_writeCond := {2}, fa_waitingWriters := 1\<rparr>) [Outside, Writing, InWriteLock FaWL_asleep] 1"
  shows "\<exists>s'. worker_run fa_class small_cfg (acts 9 0) s = Done s'
    \<and> at_core s' [W_in_lock, W_locked, W_in_lock]
        (FairMorrisLock\<lparr>fa_activeWriter := True, fa_readCond := {0}, fa_writeCond := {2}, fa_waitingReaders := 1, fa_waitingWriters := 1\<rparr>)
        [InReadLock FaRL_asleep, Writing, InWriteLock FaWL_asleep] 0"
  using assms by (simp add: hang_simps fun_eq_iff Let_def; auto simp: less_Suc_eq)

lemma hang_4:
  assumes "at_core s [W_in_lock, W_locked, W_in_lock]
    (FairMorrisLock\<lparr>fa_activeWriter := True, fa_readCond := {0}, fa_writeCond := {2}, fa_waitingReaders := 1, fa_waitingWriters := 1\<rparr>) [InReadLock FaRL_asleep, Writing, InWriteLock FaWL_asleep] 0"
  shows "\<exists>s'. worker_run fa_class small_cfg (acts 12 1) s = Done s'
    \<and> at_core s' [W_in_lock, W_top, W_in_lock]
        (FairMorrisLock\<lparr>fa_writeCond := {2}, fa_waitingReaders := 1, fa_waitingWriters := 1\<rparr>)
        [InReadLock FaRL_asleep, Outside, InWriteLock FaWL_asleep] 0"
  using assms by (simp add: hang_simps fun_eq_iff Let_def; auto simp: less_Suc_eq)

lemma hang_5:
  assumes "at_core s [W_in_lock, W_top, W_in_lock]
    (FairMorrisLock\<lparr>fa_writeCond := {2}, fa_waitingReaders := 1, fa_waitingWriters := 1\<rparr>) [InReadLock FaRL_asleep, Outside, InWriteLock FaWL_asleep] 0"
  shows "\<exists>s'. worker_run fa_class small_cfg (acts 5 0) s = Done s'
    \<and> at_core s' [W_in_lock, W_top, W_in_lock]
        (FairMorrisLock\<lparr>fa_readCond := {0}, fa_writeCond := {2}, fa_waitingReaders := 1, fa_waitingWriters := 1\<rparr>)
        [InReadLock FaRL_asleep, Outside, InWriteLock FaWL_asleep] 0"
  using assms by (simp add: hang_simps fun_eq_iff Let_def; auto simp: less_Suc_eq)

lemma hang_6:
  assumes "at_core s [W_in_lock, W_top, W_in_lock]
    (FairMorrisLock\<lparr>fa_readCond := {0}, fa_writeCond := {2}, fa_waitingReaders := 1, fa_waitingWriters := 1\<rparr>) [InReadLock FaRL_asleep, Outside, InWriteLock FaWL_asleep] 0"
  shows "\<exists>s'. worker_run fa_class small_cfg (acts 4 1) s = Done s'
    \<and> at_core s' [W_in_lock, W_exit, W_in_lock]
        (FairMorrisLock\<lparr>fa_readCond := {0}, fa_writeCond := {2}, fa_waitingReaders := 1, fa_waitingWriters := 1\<rparr>)
        [InReadLock FaRL_asleep, Outside, InWriteLock FaWL_asleep] 0"
  using assms by (simp add: hang_simps fun_eq_iff Let_def; auto simp: less_Suc_eq)

lemma worker_run_seq:
  assumes "worker_run L cfg xs s = Done s1" and "worker_run L cfg ys s1 = Done s2"
  shows "worker_run L cfg (xs @ ys) s = Done s2"
  using assms by (simp add: worker_run_append outcome_simps)

lemma hang_run:
  "\<exists>s. worker_run fa_class small_cfg hang_schedule (sim_start FairMorrisLock small_cfg g) = Done s
     \<and> at_core s [W_in_lock, W_exit, W_in_lock]
         (FairMorrisLock\<lparr>fa_readCond := {0}, fa_writeCond := {2}, fa_waitingReaders := 1,
            fa_waitingWriters := 1\<rparr>)
         [InReadLock FaRL_asleep, Outside, InWriteLock FaWL_asleep] 0"
proof -
  have "at_core (sim_start FairMorrisLock small_cfg g) [W_new, W_new, W_new] FairMorrisLock
      [Outside, Outside, Outside] 3"
    by (auto simp: at_core_def sim_start_def lock_start_def fun_eq_iff less_Suc_eq numeral_3_eq_3)
  from hang_1 [OF this] obtain s1 where s1: "worker_run fa_class small_cfg (acts 11 1)
      (sim_start FairMorrisLock small_cfg g) = Done s1" and c1: "at_core s1 [W_new, W_locked, W_new]
      (FairMorrisLock\<lparr>fa_activeWriter := True\<rparr>) [Outside, Writing, Outside] 2" by blast
  from hang_2 [OF c1] obtain s2 where s2: "worker_run fa_class small_cfg (acts 10 2) s1 = Done s2"
    and c2: "at_core s2 [W_new, W_locked, W_in_lock]
      (FairMorrisLock\<lparr>fa_activeWriter := True, fa_writeCond := {2}, fa_waitingWriters := 1\<rparr>)
      [Outside, Writing, InWriteLock FaWL_asleep] 1" by blast
  from hang_3 [OF c2] obtain s3 where s3: "worker_run fa_class small_cfg (acts 9 0) s2 = Done s3"
    and c3: "at_core s3 [W_in_lock, W_locked, W_in_lock]
      (FairMorrisLock\<lparr>fa_activeWriter := True, fa_readCond := {0}, fa_writeCond := {2},
         fa_waitingReaders := 1, fa_waitingWriters := 1\<rparr>)
      [InReadLock FaRL_asleep, Writing, InWriteLock FaWL_asleep] 0" by blast
  from hang_4 [OF c3] obtain s4 where s4: "worker_run fa_class small_cfg (acts 12 1) s3 = Done s4"
    and c4: "at_core s4 [W_in_lock, W_top, W_in_lock]
      (FairMorrisLock\<lparr>fa_writeCond := {2}, fa_waitingReaders := 1, fa_waitingWriters := 1\<rparr>)
      [InReadLock FaRL_asleep, Outside, InWriteLock FaWL_asleep] 0" by blast
  from hang_5 [OF c4] obtain s5 where s5: "worker_run fa_class small_cfg (acts 5 0) s4 = Done s5"
    and c5: "at_core s5 [W_in_lock, W_top, W_in_lock]
      (FairMorrisLock\<lparr>fa_readCond := {0}, fa_writeCond := {2}, fa_waitingReaders := 1,
         fa_waitingWriters := 1\<rparr>)
      [InReadLock FaRL_asleep, Outside, InWriteLock FaWL_asleep] 0" by blast
  from hang_6 [OF c5] obtain s6 where s6: "worker_run fa_class small_cfg (acts 4 1) s5 = Done s6"
    and c6: "at_core s6 [W_in_lock, W_exit, W_in_lock]
      (FairMorrisLock\<lparr>fa_readCond := {0}, fa_writeCond := {2}, fa_waitingReaders := 1,
         fa_waitingWriters := 1\<rparr>)
      [InReadLock FaRL_asleep, Outside, InWriteLock FaWL_asleep] 0" by blast
  have "worker_run fa_class small_cfg hang_schedule (sim_start FairMorrisLock small_cfg g) = Done s6"
    unfolding hang_schedule_def
    by (intro worker_run_seq [OF s1] worker_run_seq [OF s2] worker_run_seq [OF s3] worker_run_seq [OF s4]
        worker_run_seq [OF s5] s6)
  with c6 show ?thesis by blast
qed

lemma hang_stuck:
  assumes "at_core s [W_in_lock, W_exit, W_in_lock]
      (FairMorrisLock\<lparr>fa_readCond := {0}, fa_writeCond := {2}, fa_waitingReaders := 1,
         fa_waitingWriters := 1\<rparr>)
      [InReadLock FaRL_asleep, Outside, InWriteLock FaWL_asleep] 0"
  shows "worker_act fa_class small_cfg t (Pick u) s \<noteq> Done s'"
proof (cases "t < 3")
  case True
  then consider "t = 0" | "t = 1" | "t = 2" by linarith
  then show ?thesis using assms by cases (simp_all add: hang_simps)
qed (simp add: worker_act_def)

section \<open>Creating the workers\<close>

text \<open>
  The two loops over \<open>pthread_create\<close>, given the code it returns for each thread: the first failure is the
  \<open>system_error\<close> that leaves \<open>runSimulation\<close> with the error number and its message, and, caught nowhere,
  ends the process; otherwise all workers run.
\<close>

fun create_threads :: "(tid \<Rightarrow> int) \<Rightarrow> string \<Rightarrow> tid list \<Rightarrow> (int \<times> string) option" where
  "create_threads rc what [] = None"
| "create_threads rc what (t # ts) =
     (if rc t \<noteq> 0 then Some (rc t, what) else create_threads rc what ts)"

definition create_workers :: "(tid \<Rightarrow> int) \<Rightarrow> SimConfig \<Rightarrow> (int \<times> string) + nat" where
  "create_workers rc cfg =
     (let readers = [0..<nat (cfg_numReaders cfg)];
          writers = map (\<lambda>i. nat (cfg_numReaders cfg) + i) [0..<nat (cfg_numWriters cfg)]
      in case create_threads rc ''pthread_create reader'' readers of
           Some e \<Rightarrow> Inl e
         | None \<Rightarrow> (case create_threads rc ''pthread_create writer'' writers of
               Some e \<Rightarrow> Inl e
             | None \<Rightarrow> Inr (length readers + length writers)))"

lemma create_threads_None: "create_threads rc what ts = None \<longleftrightarrow> (\<forall>t \<in> set ts. rc t = 0)"
  by (induction ts) simp_all

lemma create_threads_Some:
  "create_threads rc what ts = Some (e, m) \<Longrightarrow>
     m = what \<and> e \<noteq> 0 \<and> (\<exists>k < length ts. rc (ts ! k) = e \<and> (\<forall>j < k. rc (ts ! j) = 0))"
proof (induction ts)
  case (Cons t ts)
  show ?case
  proof (cases "rc t = 0")
    case True
    with Cons obtain k where "m = what" "e \<noteq> 0" "k < length ts" "rc (ts ! k) = e"
      "\<forall>j < k. rc (ts ! j) = 0" by auto
    moreover from this have "Suc k < length (t # ts) \<and> rc ((t # ts) ! Suc k) = e
        \<and> (\<forall>j < Suc k. rc ((t # ts) ! j) = 0)"
      using True by (auto simp: less_Suc_eq_0_disj)
    ultimately show ?thesis by blast
  next
    case False
    with Cons.prems show ?thesis by (auto intro!: exI [of _ 0])
  qed
qed simp

text \<open>All workers are created exactly if no call fails; the order is that of the thread ids.\<close>

lemma create_workers_all:
  assumes "valid_cfg cfg"
  shows "create_workers rc cfg = Inr n \<longleftrightarrow> n = num_threads cfg \<and> (\<forall>t < num_threads cfg. rc t = 0)"
proof -
  let ?r = "nat (cfg_numReaders cfg)" and ?w = "nat (cfg_numWriters cfg)"
  have n: "num_threads cfg = ?r + ?w"
    using assms by (simp add: num_threads_def valid_cfg_def nat_add_distrib)
  have split: "(\<forall>t < ?r + ?w. rc t = 0) \<longleftrightarrow> (\<forall>t < ?r. rc t = 0) \<and> (\<forall>i < ?w. rc (?r + i) = 0)"
  proof safe
    fix t assume rw: "\<forall>t < ?r. rc t = 0" "\<forall>i < ?w. rc (?r + i) = 0" and t: "t < ?r + ?w"
    show "rc t = 0"
    proof (cases "t < ?r")
      case False
      then have "t - ?r < ?w" and eq: "?r + (t - ?r) = t" using t by simp_all
      with rw(2) have "rc (?r + (t - ?r)) = 0" by blast
      then show ?thesis unfolding eq .
    qed (use rw(1) in blast)
  qed simp_all
  have "create_workers rc cfg = Inr n \<longleftrightarrow>
      create_threads rc ''pthread_create reader'' [0..<?r] = None
    \<and> create_threads rc ''pthread_create writer'' (map (\<lambda>i. ?r + i) [0..<?w]) = None \<and> n = ?r + ?w"
    by (auto simp: create_workers_def Let_def split: option.splits)
  moreover have "create_threads rc ''pthread_create reader'' [0..<?r] = None \<longleftrightarrow> (\<forall>t < ?r. rc t = 0)"
    by (auto simp: create_threads_None)
  moreover have "create_threads rc ''pthread_create writer'' (map (\<lambda>i. ?r + i) [0..<?w]) = None
      \<longleftrightarrow> (\<forall>i < ?w. rc (?r + i) = 0)"
    unfolding create_threads_None set_map ball_simps set_upt by (simp add: Ball_def)
  ultimately show ?thesis unfolding n split by blast
qed

lemma create_workers_error:
  assumes "create_workers rc cfg = Inl (e, what)"
  shows "e \<noteq> 0 \<and> what \<in> {''pthread_create reader'', ''pthread_create writer''}"
proof -
  obtain m ts where "create_threads rc m ts = Some (e, what)"
    "m = ''pthread_create reader'' \<or> m = ''pthread_create writer''"
    using assms by (auto simp: create_workers_def Let_def split: option.splits)
  then show ?thesis using create_threads_Some [of rc m ts e what] by blast
qed

section \<open>The result of a simulation\<close>

text \<open>The header line at the start, and the end of \<open>runSimulation\<close> once all workers are joined.\<close>

definition simulation_header :: "SimConfig \<Rightarrow> string" where
  "simulation_header cfg =
     ''Algorithm: '' @ algoLongName (cfg_algo cfg)
     @ ''  |  Readers: '' @ to_string (cfg_numReaders cfg)
     @ ''  |  Writers: '' @ to_string (cfg_numWriters cfg)
     @ ''  |  Ops: '' @ to_string (cfg_totalOps cfg)"

definition simulation_result ::
    "SimConfig \<Rightarrow> ('l, 'p) sim \<Rightarrow> real \<Rightarrow> (int \<times> int) option \<Rightarrow> (int \<times> int) option \<Rightarrow> MetricsResult" where
  "simulation_result cfg s wallMs usageBefore usageAfter =
     (let (ctxVolBefore, ctxInvBefore) = captureContextSwitches usageBefore;
          (ctxVolAfter, ctxInvAfter) = captureContextSwitches usageAfter;
          tptrs = map (\<lambda>t. Some (infos (lk s) t)) [0..<num_threads cfg]
      in Metrics_compute tptrs cfg wallMs (ctxVolAfter - ctxVolBefore) (ctxInvAfter - ctxInvBefore))"

definition simulation_footer :: "MetricsResult \<Rightarrow> string" where
  "simulation_footer r =
     ''Simulation Complete '' @ [CHR 0xE2, CHR 0x80, CHR 0x94] @ '' '' @ MetricsResult_toString r"

definition metrics_exact :: "('l, 'p) RWLockBase \<Rightarrow> 'l \<Rightarrow> SimConfig \<Rightarrow> bool" where
  "metrics_exact L l0 cfg \<longleftrightarrow>
     (\<forall>g s wallMs u v. reachable (sim_start l0 cfg g) (sim_step L cfg) s \<longrightarrow> all_returned cfg s \<longrightarrow>
        0 < wallMs \<longrightarrow>
        (let r = simulation_result cfg s wallMs u v
         in mr_throughputOpsPerSec r * wallMs = 1000 * real_of_int (cfg_totalOps cfg)
          \<and> 1 / real (num_threads cfg) \<le> mr_jainsFairnessIndex r \<and> mr_jainsFairnessIndex r \<le> 1
          \<and> (mr_jainsFairnessIndex r = 1 \<longrightarrow> (\<forall>t < num_threads cfg.
               real_of_int (ti_opsCompleted (infos (lk s) t))
                 = real_of_int (cfg_totalOps cfg) / real (num_threads cfg)))))"

lemma sum_list_upt: "(\<Sum>t \<leftarrow> [0..<n]. f t) = (\<Sum>t<n. (f t :: int))"
  by (simp add: interv_sum_list_conv_sum_set_nat atLeast0LessThan)

lemma result_of_ops:
  assumes ops: "ops_completed cfg s = cfg_totalOps cfg" and nonneg: "\<forall>t. 0 \<le> ti_opsCompleted (infos (lk s) t)"
    and n: "0 < num_threads cfg" and wall: "0 < wallMs"
  shows "let r = simulation_result cfg s wallMs u v
         in mr_throughputOpsPerSec r * wallMs = 1000 * real_of_int (cfg_totalOps cfg)
          \<and> 1 / real (num_threads cfg) \<le> mr_jainsFairnessIndex r \<and> mr_jainsFairnessIndex r \<le> 1
          \<and> (mr_jainsFairnessIndex r = 1 \<longrightarrow> (\<forall>t < num_threads cfg.
               real_of_int (ti_opsCompleted (infos (lk s) t))
                 = real_of_int (cfg_totalOps cfg) / real (num_threads cfg)))"
proof -
  let ?ts = "map (infos (lk s)) [0..<num_threads cfg]"
  let ?xs = "map (\<lambda>t. real_of_int (ti_opsCompleted t)) ?ts"
  obtain vol ivol where r: "simulation_result cfg s wallMs u v
      = Metrics_compute (map Some ?ts) cfg wallMs vol ivol"
    by (cases "captureContextSwitches u"; cases "captureContextSwitches v")
       (simp add: simulation_result_def comp_def)
  have total: "(\<Sum>t \<leftarrow> ?ts. ti_opsCompleted t) = cfg_totalOps cfg"
    using ops by (simp add: ops_completed_def sum_list_upt comp_def)
  have thr: "mr_throughputOpsPerSec (simulation_result cfg s wallMs u v) * wallMs
      = 1000 * real_of_int (cfg_totalOps cfg)"
    using wall total by (simp add: r Metrics_compute_def metric_fold no_sums_def Let_def del: map_map)
  have J: "mr_jainsFairnessIndex (simulation_result cfg s wallMs u v) = jains_index ?xs"
    by (simp add: r Metrics_compute_def metric_fold no_sums_def Let_def del: map_map)
  have xs: "?xs \<noteq> []" "\<forall>x \<in> set ?xs. 0 \<le> x" using n nonneg by auto
  note range = jains_index_range [OF xs]
  have equal: "real_of_int (ti_opsCompleted (infos (lk s) t)) = real_of_int (cfg_totalOps cfg) / real (num_threads cfg)"
    if one: "jains_index ?xs = 1" and t: "t < num_threads cfg" for t
  proof -
    have "ti_opsCompleted (infos (lk s) k) = ti_opsCompleted (infos (lk s) t)" if "k < num_threads cfg" for k
    proof -
      have mem: "real_of_int (ti_opsCompleted (infos (lk s) j)) \<in> set ?xs" if "j < num_threads cfg" for j
        using that by simp
      have "\<forall>x \<in> set ?xs. \<forall>y \<in> set ?xs. x = y" using range(3) one by (rule iffD1)
      then have "real_of_int (ti_opsCompleted (infos (lk s) k)) = real_of_int (ti_opsCompleted (infos (lk s) t))"
        using mem [OF that] mem [OF t] by blast
      then show ?thesis by (simp only: of_int_eq_iff)
    qed
    then have "ops_completed cfg s = (\<Sum>k<num_threads cfg. ti_opsCompleted (infos (lk s) t))"
      unfolding ops_completed_def by (intro sum.cong) auto
    then have "int (num_threads cfg) * ti_opsCompleted (infos (lk s) t) = cfg_totalOps cfg" using ops by simp
    then have "real (num_threads cfg) * real_of_int (ti_opsCompleted (infos (lk s) t)) = real_of_int (cfg_totalOps cfg)"
      by (metis of_int_mult of_int_of_nat_eq)
    then show ?thesis using n by (simp add: nonzero_eq_divide_eq mult.commute)
  qed
  have "length ?xs = num_threads cfg" by simp
  with thr range(1,2) equal show ?thesis unfolding Let_def J by auto
qed

context sim_lock
begin

lemma metrics_of_run:
  assumes cfg: "valid_cfg cfg" "\<not> cfg_enableAbortTest cfg" "0 < num_threads cfg"
  shows "metrics_exact L l0 cfg"
  unfolding metrics_exact_def
proof (intro allI impI)
  fix g s and wallMs :: real and u v
  assume r: "reachable (sim_start l0 cfg g) (sim_step L cfg) s" and ret: "all_returned cfg s"
    and wall: "0 < wallMs"
  have "ops_completed cfg s = cfg_totalOps cfg"
    using accounted [OF cfg(1)] cfg(2,3) r ret unfolding ops_accounted_def by blast
  moreover have "\<forall>t. 0 \<le> ti_opsCompleted (infos (lk s) t)"
    using sim_inv_facts(4) [OF sim_inv_reachable [OF cfg(1) r]] by (simp add: ops_inv_def)
  ultimately show "let r = simulation_result cfg s wallMs u v
         in mr_throughputOpsPerSec r * wallMs = 1000 * real_of_int (cfg_totalOps cfg)
          \<and> 1 / real (num_threads cfg) \<le> mr_jainsFairnessIndex r \<and> mr_jainsFairnessIndex r \<le> 1
          \<and> (mr_jainsFairnessIndex r = 1 \<longrightarrow> (\<forall>t < num_threads cfg.
               real_of_int (ti_opsCompleted (infos (lk s) t))
                 = real_of_int (cfg_totalOps cfg) / real (num_threads cfg)))"
    using cfg(3) wall by (rule result_of_ops)
qed

end

section \<open>Properties\<close>

text \<open>
  C8: A simulation with the Fair-Morris algorithm can hang: with one reader, two writers and three
  operations there is an interleaving, without spurious wakeups, after which one writer has returned, the
  other two workers sleep on the lock's condition variables for ever, and \<open>pthread_join\<close> does not return.
\<close>

theorem fair_morris_simulation_hangs:
  "\<exists>s. worker_run fa_class small_cfg hang_schedule (sim_start FairMorrisLock small_cfg g) = Done s
     \<and> \<not> all_returned small_cfg s \<and> points s 1 = W_exit
     \<and> (\<forall>t u s'. worker_act fa_class small_cfg t (Pick u) s \<noteq> Done s')"
proof -
  obtain s where s: "worker_run fa_class small_cfg hang_schedule (sim_start FairMorrisLock small_cfg g) = Done s"
    and core: "at_core s [W_in_lock, W_exit, W_in_lock]
         (FairMorrisLock\<lparr>fa_readCond := {0}, fa_writeCond := {2}, fa_waitingReaders := 1,
            fa_waitingWriters := 1\<rparr>)
         [InReadLock FaRL_asleep, Outside, InWriteLock FaWL_asleep] 0"
    using hang_run by blast
  have p: "points s 0 = W_in_lock" "points s 1 = W_exit" using core by (simp_all add: at_core_def)
  have "\<not> all_returned small_cfg s"
    using p(1) by (auto simp: all_returned_def worker_done_def intro: exI [of _ 0])
  with s p(2) hang_stuck [OF core] show ?thesis by blast
qed

end
