(* ===== verification/Watchdog.thy ===== *)
theory Watchdog
  imports Logging
begin

text \<open>
  \<open>include/watchdog.hpp\<close> and \<open>src/watchdog.cpp\<close>: the thread that polls the registry and marks threads
  that have waited too long.  Its loop runs one atomic action at a time, interleaved with the
  workers that own the records it looks at.  \<open>regMutex_\<close> is contended with nobody while the watchdog
  runs (\<open>runSimulation\<close> fills the registry before it starts it), so taking it changes nothing; the
  registry holds no null pointers, which the code would skip.
\<close>

section \<open>Start and stop\<close>

datatype watchdog_point =
    WD_not_started | WD_test | WD_sleep | WD_load nat | WD_wait nat | WD_block nat int
  | WD_count nat int | WD_event nat int | WD_alert nat int | WD_unlock | WD_returned

record watchdog =
  wd_running :: bool
  wd_totalEvents :: int
  wd_point :: watchdog_point
  wd_registry :: "ThreadInfo list"
  wd_cfg :: SimConfig
  wd_logger :: Logger
  wd_waits :: "nat list"

text \<open>
  \<open>wd_waits\<close> is a ghost: how many waits each thread has begun.  \<open>start\<close> gets the result of
  \<open>pthread_create\<close>, whose failure it reports as \<open>Inl\<close> the error number.
\<close>

definition Watchdog_start ::
    "int \<Rightarrow> ThreadInfo list \<Rightarrow> SimConfig \<Rightarrow> watchdog \<Rightarrow> int + watchdog" where
  "Watchdog_start rc registry cfg d =
     (let d1 = d\<lparr>wd_registry := registry, wd_cfg := cfg, wd_running := True,
                 wd_waits := replicate (length registry) 0\<rparr>
      in if rc \<noteq> 0 then Inl rc else Inr (d1\<lparr>wd_point := WD_test\<rparr>))"

text \<open>The exchange at the beginning of \<open>stop\<close>; \<open>True\<close> when the caller has to join the thread.\<close>

definition Watchdog_stop :: "watchdog \<Rightarrow> bool \<times> watchdog" where
  "Watchdog_stop d = (wd_running d, d\<lparr>wd_running := False\<rparr>)"

definition Watchdog_dtor :: "watchdog \<Rightarrow> bool \<times> watchdog" where
  "Watchdog_dtor d = (if wd_running d then Watchdog_stop d else (False, d))"

section \<open>The loop\<close>

text \<open>\<open>for (info : *registry_)\<close> goes to entry \<open>k\<close>, or to the unlock after the last one.\<close>

definition wd_entry :: "nat \<Rightarrow> watchdog \<Rightarrow> watchdog" where
  "wd_entry k d = d\<lparr>wd_point := if k < length (wd_registry d) then WD_load k else WD_unlock\<rparr>"

fun Watchdog_run :: "TimePoint \<Rightarrow> watchdog_point \<Rightarrow> watchdog \<Rightarrow> watchdog option" where
  "Watchdog_run now WD_test d =
     Some (d\<lparr>wd_point := if wd_running d then WD_sleep else WD_returned\<rparr>)"
| "Watchdog_run now WD_sleep d = Some (wd_entry 0 d)"
| "Watchdog_run now (WD_load k) d =
     (let s = ti_state (wd_registry d ! k)
      in if s \<noteq> WAITING then Some (wd_entry (k + 1) d) else Some (d\<lparr>wd_point := WD_wait k\<rparr>))"
| "Watchdog_run now (WD_wait k) d =
     (let waitMs = currentWaitMs now (wd_registry d ! k)
      in if cfg_starveThresholdMs (wd_cfg d) \<le> waitMs then Some (d\<lparr>wd_point := WD_block k waitMs\<rparr>)
         else Some (wd_entry (k + 1) d))"
| "Watchdog_run now (WD_block k waitMs) d =
     Some (d\<lparr>wd_registry := (wd_registry d)[k := (wd_registry d ! k)\<lparr>ti_state := BLOCKED\<rparr>],
             wd_point := WD_count k waitMs\<rparr>)"
| "Watchdog_run now (WD_count k waitMs) d =
     (let i = wd_registry d ! k
      in Some (d\<lparr>wd_registry := (wd_registry d)[k := i\<lparr>ti_starveCount := ti_starveCount i + 1\<rparr>],
                 wd_point := WD_event k waitMs\<rparr>))"
| "Watchdog_run now (WD_event k waitMs) d =
     Some (d\<lparr>wd_totalEvents := wd_totalEvents d + 1, wd_point := WD_alert k waitMs\<rparr>)"
| "Watchdog_run now (WD_alert k waitMs) d =
     Some (wd_entry (k + 1) (d\<lparr>wd_logger := log_alert (wd_registry d ! k) waitMs (wd_logger d)\<rparr>))"
| "Watchdog_run now WD_unlock d = Some (d\<lparr>wd_point := WD_test\<rparr>)"
| "Watchdog_run now _ d = None"

section \<open>The loop among the workers\<close>

text \<open>
  What a worker does to its own record besides beginning a wait, and the request to stop.  The relation allows
  more than the worker functions do (any number of fields in one step), so it serves for what holds in all
  runs; runs that are claimed to exist are built over the whole program, in \<open>Late_Alert\<close>.
\<close>

definition worker_update :: "ThreadInfo \<Rightarrow> ThreadInfo \<Rightarrow> bool" where
  "worker_update i j \<longleftrightarrow> ti_starveCount j = ti_starveCount i
     \<and> (ti_state j = WAITING \<longrightarrow> ti_state i = WAITING \<and> ti_waitStart j = ti_waitStart i)"

inductive watchdog_step :: "watchdog \<Rightarrow> watchdog \<Rightarrow> bool" where
  scan: "Watchdog_run now (wd_point d) d = Some d' \<Longrightarrow> watchdog_step d d'"
| begin_wait: "k < length (wd_registry d) \<Longrightarrow> watchdog_step d
     (d\<lparr>wd_registry := (wd_registry d)[k := enterWaiting now (wd_registry d ! k)],
        wd_waits := (wd_waits d)[k := Suc (wd_waits d ! k)]\<rparr>)"
| other_update: "k < length (wd_registry d) \<Longrightarrow> worker_update (wd_registry d ! k) i \<Longrightarrow>
     watchdog_step d (d\<lparr>wd_registry := (wd_registry d)[k := i]\<rparr>)"
| log: "watchdog_step d (d\<lparr>wd_logger := g\<rparr>)"
| stop: "watchdog_step d (snd (Watchdog_stop d))"

inductive_cases watchdog_stepE: "watchdog_step d d'"

text \<open>The updates a worker makes are covered: activation, release, completion.\<close>

lemma worker_updates:
  "worker_update i (enterActive now i)" "worker_update i (i\<lparr>ti_state := RELEASING\<rparr>)"
  "worker_update i (i\<lparr>ti_state := DONE, ti_doneTime := now\<rparr>)"
  "worker_update i (i\<lparr>ti_opsCompleted := ti_opsCompleted i + 1\<rparr>)"
  by (simp_all add: worker_update_def enterActive_def Let_def)

definition watchdog_started :: "ThreadInfo list \<Rightarrow> SimConfig \<Rightarrow> Logger \<Rightarrow> watchdog" where
  "watchdog_started registry cfg g =
     \<lparr>wd_running = True, wd_totalEvents = 0, wd_point = WD_test, wd_registry = registry, wd_cfg = cfg,
      wd_logger = g, wd_waits = replicate (length registry) 0\<rparr>"

lemma start_gives_started:
  "Watchdog_start 0 registry cfg
     \<lparr>wd_running = False, wd_totalEvents = 0, wd_point = WD_not_started, wd_registry = [], wd_cfg = cfg0,
      wd_logger = g, wd_waits = []\<rparr> = Inr (watchdog_started registry cfg g)"
  by (simp add: Watchdog_start_def watchdog_started_def)

section \<open>The invariant\<close>

text \<open>Events of thread \<open>k\<close> that are decided but not yet in its \<open>starveCount\<close>, and not yet in the total.\<close>

definition decided :: "watchdog_point \<Rightarrow> nat \<Rightarrow> nat" where
  "decided p k = (case p of WD_wait j \<Rightarrow> of_bool (j = k) | WD_block j w \<Rightarrow> of_bool (j = k)
     | WD_count j w \<Rightarrow> of_bool (j = k) | _ \<Rightarrow> 0)"

definition uncounted :: "watchdog_point \<Rightarrow> int" where
  "uncounted p = (case p of WD_event k w \<Rightarrow> 1 | _ \<Rightarrow> 0)"

definition scan_index :: "watchdog_point \<Rightarrow> nat option" where
  "scan_index p = (case p of WD_load k \<Rightarrow> Some k | WD_wait k \<Rightarrow> Some k | WD_block k w \<Rightarrow> Some k
     | WD_count k w \<Rightarrow> Some k | WD_event k w \<Rightarrow> Some k | WD_alert k w \<Rightarrow> Some k | _ \<Rightarrow> None)"

text \<open>
  A thread in state \<open>WAITING\<close> has begun a wait that no event has been counted for, except that the
  watchdog, between its store of \<open>BLOCKED\<close> and the increment, owes one more.
\<close>

definition owed :: "watchdog_point \<Rightarrow> nat \<Rightarrow> ThreadInfo \<Rightarrow> nat" where
  "owed p k i = (case p of WD_count j w \<Rightarrow> of_bool (j = k) + of_bool (ti_state i = WAITING)
     | _ \<Rightarrow> max (decided p k) (of_bool (ti_state i = WAITING)))"

definition watchdog_inv :: "watchdog \<Rightarrow> bool" where
  "watchdog_inv d \<longleftrightarrow>
     length (wd_waits d) = length (wd_registry d)
   \<and> (\<forall>k. scan_index (wd_point d) = Some k \<longrightarrow> k < length (wd_registry d))
   \<and> wd_totalEvents d + uncounted (wd_point d) = (\<Sum>i \<leftarrow> wd_registry d. ti_starveCount i)
   \<and> (\<forall>k < length (wd_registry d).
        ti_starveCount (wd_registry d ! k) + int (owed (wd_point d) k (wd_registry d ! k))
          \<le> int (wd_waits d ! k))"

lemma sum_list_update_map:
  fixes f :: "'a \<Rightarrow> int"
  shows "k < length xs \<Longrightarrow> (\<Sum>x \<leftarrow> xs[k := y]. f x) = (\<Sum>x \<leftarrow> xs. f x) - f (xs ! k) + f y"
  by (induction xs arbitrary: k) (auto split: nat.split)

lemma wd_entry_simps [simp]:
  "wd_registry (wd_entry k d) = wd_registry d" "wd_waits (wd_entry k d) = wd_waits d"
  "wd_totalEvents (wd_entry k d) = wd_totalEvents d" "wd_running (wd_entry k d) = wd_running d"
  "wd_point (wd_entry k d) = (if k < length (wd_registry d) then WD_load k else WD_unlock)"
  by (simp_all add: wd_entry_def)

lemmas watchdog_defs = watchdog_inv_def owed_def decided_def uncounted_def scan_index_def

lemma watchdog_inv_start:
  "\<forall>i \<in> set registry. ti_state i = INIT \<and> ti_starveCount i = 0 \<Longrightarrow>
     watchdog_inv (watchdog_started registry cfg g)"
  by (simp add: watchdog_defs watchdog_started_def cong: map_cong)

text \<open>It suffices to compare, for each thread, events counted and owed with waits begun.\<close>

definition slack :: "watchdog \<Rightarrow> nat \<Rightarrow> int" where
  "slack d k = int (wd_waits d ! k) - ti_starveCount (wd_registry d ! k)
     - int (owed (wd_point d) k (wd_registry d ! k))"

lemma watchdog_inv_move:
  assumes inv: "watchdog_inv d"
    and len: "length (wd_registry d') = length (wd_registry d)"
      "length (wd_waits d') = length (wd_waits d)"
    and idx: "\<And>k. scan_index (wd_point d') = Some k \<Longrightarrow> k < length (wd_registry d)"
    and total: "wd_totalEvents d' + uncounted (wd_point d') - (\<Sum>i \<leftarrow> wd_registry d'. ti_starveCount i)
       = wd_totalEvents d + uncounted (wd_point d) - (\<Sum>i \<leftarrow> wd_registry d. ti_starveCount i)"
    and slack: "\<And>k. k < length (wd_registry d) \<Longrightarrow> slack d k \<le> slack d' k"
  shows "watchdog_inv d'"
  unfolding watchdog_inv_def len
proof (intro conjI allI impI)
  fix k assume k: "k < length (wd_registry d)"
  then have "ti_starveCount (wd_registry d ! k) + int (owed (wd_point d) k (wd_registry d ! k))
      \<le> int (wd_waits d ! k)" using inv unfolding watchdog_inv_def by blast
  then have "0 \<le> slack d k" by (simp add: slack_def)
  with slack [OF k]
  show "ti_starveCount (wd_registry d' ! k) + int (owed (wd_point d') k (wd_registry d' ! k))
      \<le> int (wd_waits d' ! k)" by (simp add: slack_def)
qed (use inv idx total in \<open>simp_all add: watchdog_inv_def\<close>)

lemmas move_simps = slack_def owed_def decided_def uncounted_def scan_index_def
  sum_list_update_map nth_list_update

lemma watchdog_inv_scan:
  assumes inv: "watchdog_inv d" and step: "Watchdog_run now (wd_point d) d = Some d'"
  shows "watchdog_inv d'"
proof -
  have idx: "scan_index (wd_point d) = Some k \<Longrightarrow> k < length (wd_registry d)" for k
    using inv by (simp add: watchdog_inv_def)
  have len: "length (wd_waits d) = length (wd_registry d)" using inv by (simp add: watchdog_inv_def)
  show ?thesis
    by (rule watchdog_inv_move [OF inv]; cases "wd_point d")
       (use step idx len in \<open>auto simp: move_simps Let_def split: if_splits\<close>)
qed

lemma watchdog_inv_step:
  assumes inv: "watchdog_inv d" and step: "watchdog_step d d'"
  shows "watchdog_inv d'"
proof -
  have idx: "scan_index (wd_point d) = Some k \<Longrightarrow> k < length (wd_registry d)" for k
    using inv by (simp add: watchdog_inv_def)
  have len: "length (wd_waits d) = length (wd_registry d)" using inv by (simp add: watchdog_inv_def)
  from step show ?thesis
  proof (cases rule: watchdog_step.cases)
    case (scan now)
    then show ?thesis by (intro watchdog_inv_scan [OF inv])
  next
    case (begin_wait k now)
    then show ?thesis
      by (intro watchdog_inv_move [OF inv])
         (use idx len in \<open>auto simp: move_simps enterWaiting_def split: watchdog_point.splits\<close>)
  next
    case (other_update k i)
    then show ?thesis
      by (intro watchdog_inv_move [OF inv])
         (use idx in \<open>auto simp: move_simps worker_update_def split: watchdog_point.splits\<close>)
  next
    case (log g)
    then show ?thesis
      by (intro watchdog_inv_move [OF inv]) (use idx in \<open>simp_all add: slack_def\<close>)
  next
    case stop
    then show ?thesis
      by (intro watchdog_inv_move [OF inv]) (use idx in \<open>simp_all add: slack_def Watchdog_stop_def\<close>)
  qed
qed

lemma watchdog_inv_reachable:
  assumes "\<forall>i \<in> set registry. ti_state i = INIT \<and> ti_starveCount i = 0"
    and "reachable (watchdog_started registry cfg g) watchdog_step d"
  shows "watchdog_inv d"
  using assms(2) watchdog_inv_start [OF assms(1)]
  by (induction rule: reachable.induct) (auto intro: watchdog_inv_step)

lemma reachable_scan:
  assumes "reachable d0 watchdog_step d" and "Watchdog_run now (wd_point d) d = Some d'"
  shows "reachable d0 watchdog_step d'"
  by (rule reachable_step [OF assms(1) watchdog_step.scan [where now = now, OF assms(2)]])

lemma reachable_wait:
  assumes "reachable d0 watchdog_step d" and "k < length (wd_registry d)"
  shows "reachable d0 watchdog_step
     (d\<lparr>wd_registry := (wd_registry d)[k := enterWaiting now (wd_registry d ! k)],
        wd_waits := (wd_waits d)[k := Suc (wd_waits d ! k)]\<rparr>)"
  by (rule reachable_step [OF assms(1)]) (rule watchdog_step.begin_wait [OF assms(2)])

section \<open>The watchdog on its own\<close>

text \<open>Its next actions, at the given clock readings; nothing happens after it returned.\<close>

fun wd_iterate :: "TimePoint list \<Rightarrow> watchdog \<Rightarrow> watchdog" where
  "wd_iterate [] d = d"
| "wd_iterate (now # nows) d =
     (case Watchdog_run now (wd_point d) d of Some d' \<Rightarrow> wd_iterate nows d' | None \<Rightarrow> d)"

lemma wd_iterate_append: "wd_iterate (xs @ ys) d = wd_iterate ys (wd_iterate xs d)"
proof (induction xs d rule: wd_iterate.induct)
  case (2 now nows d)
  show ?case
  proof (cases "Watchdog_run now (wd_point d) d")
    case None
    then have "wd_iterate ys d = d" by (cases ys; cases "wd_point d") (auto simp: Let_def split: if_splits)
    with None show ?thesis by simp
  qed (use 2 in simp)
qed simp

text \<open>What one poll should do to a record, and to the log.\<close>

definition starved :: "SimConfig \<Rightarrow> TimePoint \<Rightarrow> ThreadInfo \<Rightarrow> bool" where
  "starved cfg now i \<longleftrightarrow> ti_state i = WAITING
     \<and> cfg_starveThresholdMs cfg \<le> duration_cast_ms (now - ti_waitStart i)"

definition mark :: "SimConfig \<Rightarrow> TimePoint \<Rightarrow> ThreadInfo \<Rightarrow> ThreadInfo" where
  "mark cfg now i =
     (if starved cfg now i then i\<lparr>ti_state := BLOCKED, ti_starveCount := ti_starveCount i + 1\<rparr> else i)"

definition alert_for :: "SimConfig \<Rightarrow> TimePoint \<Rightarrow> ThreadInfo \<Rightarrow> Logger \<Rightarrow> Logger" where
  "alert_for cfg now i g =
     (if starved cfg now i
      then log_alert (mark cfg now i) (duration_cast_ms (now - ti_waitStart i)) g else g)"

definition poll_entry :: "TimePoint \<Rightarrow> nat \<Rightarrow> watchdog \<Rightarrow> watchdog" where
  "poll_entry now k d =
     (let i = wd_registry d ! k
      in wd_entry (k + 1)
           (d\<lparr>wd_registry := (wd_registry d)[k := mark (wd_cfg d) now i],
              wd_totalEvents := wd_totalEvents d + of_bool (starved (wd_cfg d) now i),
              wd_logger := alert_for (wd_cfg d) now i (wd_logger d)\<rparr>))"

lemma poll_entry_run:
  assumes "wd_point d = WD_load k" and "k < length (wd_registry d)"
  shows "\<exists>n. wd_iterate (replicate n now) d = poll_entry now k d"
proof -
  let ?i = "wd_registry d ! k"
  consider (skip) "ti_state ?i \<noteq> WAITING" | (short) "ti_state ?i = WAITING" "\<not> starved (wd_cfg d) now ?i"
    | (long) "ti_state ?i = WAITING" "starved (wd_cfg d) now ?i" by blast
  then show ?thesis
  proof cases
    case skip
    with assms have "wd_iterate (replicate 1 now) d = poll_entry now k d"
      by (simp add: poll_entry_def mark_def alert_for_def starved_def wd_entry_def Let_def)
    then show ?thesis by blast
  next
    case short
    with assms have "wd_iterate (replicate 2 now) d = poll_entry now k d"
      by (simp add: numeral_2_eq_2 poll_entry_def mark_def alert_for_def starved_def wd_entry_def
          currentWaitMs_def Let_def)
    then show ?thesis by blast
  next
    case long
    with assms have "wd_iterate (replicate 6 now) d = poll_entry now k d"
      by (simp add: eval_nat_numeral poll_entry_def mark_def alert_for_def starved_def wd_entry_def
          currentWaitMs_def Let_def)
    then show ?thesis by blast
  qed
qed

text \<open>A poll from entry \<open>k\<close> on.\<close>

definition polled :: "TimePoint \<Rightarrow> nat \<Rightarrow> watchdog \<Rightarrow> watchdog" where
  "polled now k d =
     d\<lparr>wd_registry := take k (wd_registry d) @ map (mark (wd_cfg d) now) (drop k (wd_registry d)),
       wd_totalEvents := wd_totalEvents d
         + int (length (filter (starved (wd_cfg d) now) (drop k (wd_registry d)))),
       wd_logger := fold (alert_for (wd_cfg d) now) (drop k (wd_registry d)) (wd_logger d),
       wd_point := WD_unlock\<rparr>"

lemma polled_end: "wd_point d = WD_unlock \<Longrightarrow> length (wd_registry d) \<le> k \<Longrightarrow> polled now k d = d"
  by (simp add: polled_def)

lemma polled_step: "k < length (wd_registry d) \<Longrightarrow> polled now (Suc k) (poll_entry now k d) = polled now k d"
  by (simp add: polled_def poll_entry_def wd_entry_def Let_def take_Suc_conv_app_nth
      Cons_nth_drop_Suc [symmetric] nth_append)

lemma poll_from:
  assumes "wd_point d = (if k < length (wd_registry d) then WD_load k else WD_unlock)"
  shows "\<exists>n. wd_iterate (replicate n now) d = polled now k d"
  using assms
proof (induction "length (wd_registry d) - k" arbitrary: k d)
  case 0
  then have "wd_iterate (replicate 0 now) d = polled now k d" by (simp add: polled_end)
  then show ?case by blast
next
  case (Suc m)
  then have k: "k < length (wd_registry d)" by simp
  let ?d = "poll_entry now k d"
  have len: "length (wd_registry ?d) = length (wd_registry d)" by (simp add: poll_entry_def Let_def)
  have point: "wd_point ?d = (if Suc k < length (wd_registry ?d) then WD_load (Suc k) else WD_unlock)"
    by (simp add: poll_entry_def Let_def)
  have "m = length (wd_registry ?d) - Suc k" using Suc.hyps(2) len by simp
  from Suc.hyps(1) [OF this point]
  obtain n where "wd_iterate (replicate n now) ?d = polled now (Suc k) ?d" by blast
  moreover obtain n1 where "wd_iterate (replicate n1 now) d = ?d"
    using poll_entry_run [OF _ k] Suc.prems k by fastforce
  ultimately have "wd_iterate (replicate (n1 + n) now) d = polled now k d"
    by (simp add: replicate_add wd_iterate_append polled_step [OF k])
  then show ?case by blast
qed

section \<open>Returning\<close>

text \<open>The number of actions left to a watchdog that has been asked to stop.\<close>

definition wd_left :: "watchdog \<Rightarrow> nat" where
  "wd_left d = (let n = length (wd_registry d) in case wd_point d of
     WD_test \<Rightarrow> 1 | WD_sleep \<Rightarrow> 6 * n + 3 | WD_unlock \<Rightarrow> 2
   | WD_load k \<Rightarrow> 6 * (n - k) + 2 | WD_wait k \<Rightarrow> 6 * (n - k) + 1 | WD_block k w \<Rightarrow> 6 * (n - k)
   | WD_count k w \<Rightarrow> 6 * (n - k) - 1 | WD_event k w \<Rightarrow> 6 * (n - k) - 2 | WD_alert k w \<Rightarrow> 6 * (n - k) - 3
   | _ \<Rightarrow> 0)"

definition stopping :: "watchdog \<Rightarrow> bool" where
  "stopping d \<longleftrightarrow> \<not> wd_running d \<and> wd_point d \<noteq> WD_not_started
     \<and> (\<forall>k. scan_index (wd_point d) = Some k \<longrightarrow> k < length (wd_registry d))"

lemma stopping_cases:
  assumes "stopping d"
  obtains "wd_point d = WD_returned"
    | d' where "Watchdog_run now (wd_point d) d = Some d'" "stopping d'" "wd_left d' < wd_left d"
proof (cases "wd_point d = WD_returned")
  case False
  have "\<exists>d'. Watchdog_run now (wd_point d) d = Some d' \<and> stopping d' \<and> wd_left d' < wd_left d"
    using assms False by (cases "wd_point d") (auto simp: stopping_def scan_index_def wd_left_def Let_def)
  then show ?thesis using that(2) by blast
qed (rule that(1))

lemma stopping_returns: "stopping d \<Longrightarrow> wd_left d \<le> length nows \<Longrightarrow> wd_point (wd_iterate nows d) = WD_returned"
proof (induction nows d rule: wd_iterate.induct)
  case (1 d)
  from 1(1) show ?case
    by (cases rule: stopping_cases [where now = 0]) (use 1(2) in auto)
next
  case (2 now nows d)
  from 2(2) show ?case
  proof (cases rule: stopping_cases [where now = now])
    case (2 d')
    then show ?thesis using "2.IH" [OF 2(1) 2(2)] "2.prems"(2) by simp
  qed simp
qed

lemma stop_stopping:
  assumes "watchdog_inv d" and "wd_point d \<noteq> WD_not_started"
  shows "stopping (snd (Watchdog_stop d))"
  using assms by (simp add: stopping_def watchdog_inv_def Watchdog_stop_def)

lemma stop_left:
  assumes "watchdog_inv d"
  shows "wd_left (snd (Watchdog_stop d)) \<le> 6 * length (wd_registry d) + 3"
  by (cases "wd_point d") (simp_all add: wd_left_def Watchdog_stop_def Let_def)

lemma started_not_unstarted:
  assumes "reachable (watchdog_started registry cfg g) watchdog_step d"
  shows "wd_point d \<noteq> WD_not_started \<and> length (wd_registry d) = length registry"
  using assms
proof (induction rule: reachable.induct)
  case (reachable_step d d')
  from reachable_step(2) show ?case
  proof (cases rule: watchdog_step.cases)
    case (scan now)
    then show ?thesis using reachable_step(3)
      by (cases "wd_point d") (auto simp: Let_def split: if_splits)
  qed (use reachable_step(3) in \<open>simp_all add: Watchdog_stop_def\<close>)
qed (simp add: watchdog_started_def)

section \<open>Properties\<close>

text \<open>
  However the watchdog's actions interleave with the workers', its event total is the sum of the
  threads' starvation counts (one less between the two increments), and no thread is charged with more
  events than waits it has begun: a long wait is reported at most once.
\<close>

lemma watchdog_counts_events:
  assumes "\<forall>i \<in> set registry. ti_state i = INIT \<and> ti_starveCount i = 0"
    and "reachable (watchdog_started registry cfg g) watchdog_step d"
  shows "wd_totalEvents d =
      (\<Sum>i \<leftarrow> wd_registry d. ti_starveCount i) - (case wd_point d of WD_event k w \<Rightarrow> 1 | _ \<Rightarrow> 0)
    \<and> (\<forall>k < length registry. ti_starveCount (wd_registry d ! k) \<le> int (wd_waits d ! k))"
proof -
  have inv: "watchdog_inv d" by (rule watchdog_inv_reachable [OF assms])
  have len: "length (wd_registry d) = length registry" using started_not_unstarted [OF assms(2)] by blast
  have "ti_starveCount (wd_registry d ! k) \<le> int (wd_waits d ! k)" if "k < length registry" for k
    using inv that unfolding watchdog_inv_def len by (smt (verit) of_nat_0_le_iff)
  with inv show ?thesis by (simp add: watchdog_inv_def uncounted_def)
qed

lemma reachable_iterate:
  "reachable d0 watchdog_step d \<Longrightarrow> reachable d0 watchdog_step (wd_iterate nows d)"
  by (induction nows d rule: wd_iterate.induct) (auto split: option.split intro: reachable_scan)

text \<open>A thread waits from time 0; the watchdog looks at it a second later.\<close>

definition one_waiting :: "Logger \<Rightarrow> watchdog" where
  "one_waiting g = (let d = watchdog_started [default_ThreadInfo] default_SimConfig g
     in d\<lparr>wd_registry := (wd_registry d)[0 := enterWaiting 0 (wd_registry d ! 0)],
          wd_waits := (wd_waits d)[0 := Suc (wd_waits d ! 0)]\<rparr>)"

definition after_polling :: "nat \<Rightarrow> Logger \<Rightarrow> watchdog" where
  "after_polling n g = wd_iterate (replicate n 1000000000) (one_waiting g)"

lemma reachable_after_polling:
  "reachable (watchdog_started [default_ThreadInfo] default_SimConfig g) watchdog_step (after_polling n g)"
  unfolding after_polling_def one_waiting_def Let_def
  by (rule reachable_iterate, rule reachable_wait [OF reachable_init]) (simp add: watchdog_started_def)

lemma watchdog_counts_events_witness:
  "wd_totalEvents (after_polling 8 default_Logger) = 1 \<and> wd_waits (after_polling 8 default_Logger) ! 0 = 1
     \<and> ti_starveCount (wd_registry (after_polling 8 default_Logger) ! 0) \<le> 1"
proof -
  have "wd_totalEvents (after_polling 8 default_Logger) = 1" "wd_waits (after_polling 8 default_Logger) ! 0 = 1"
    by code_simp+
  with watchdog_counts_events [OF _ reachable_after_polling, of 8 default_Logger] show ?thesis
    by (simp add: default_ThreadInfo_def)
qed

text \<open>
  C26: A poll that no worker disturbs marks every record that has waited for the threshold or longer, and
  no other: it applies \<open>mark\<close> to the registry, counts the marked records and logs one alert for each, in
  registry order.
\<close>

theorem watchdog_poll_spec:
  assumes "wd_point d = WD_sleep"
  shows "\<exists>n. wd_iterate (replicate n now) d =
     d\<lparr>wd_registry := map (mark (wd_cfg d) now) (wd_registry d),
       wd_totalEvents := wd_totalEvents d
         + int (length (filter (starved (wd_cfg d) now) (wd_registry d))),
       wd_logger := fold (alert_for (wd_cfg d) now) (wd_registry d) (wd_logger d),
       wd_point := WD_unlock\<rparr>"
proof -
  obtain n where "wd_iterate (replicate n now) (wd_entry 0 d) = polled now 0 (wd_entry 0 d)"
    using poll_from [of "wd_entry 0 d" 0 now] by auto
  then have "wd_iterate (replicate (Suc n) now) d = polled now 0 (wd_entry 0 d)" using assms by simp
  then show ?thesis by (intro exI [of _ "Suc n"]) (simp add: polled_def wd_entry_def)
qed

lemma watchdog_poll_spec_witness:
  "\<exists>n. wd_registry (wd_iterate (replicate n 500000000)
       ((watchdog_started [enterWaiting 0 default_ThreadInfo, enterWaiting 1 default_ThreadInfo]
          default_SimConfig default_Logger)\<lparr>wd_point := WD_sleep\<rparr>))
     = [(enterWaiting 0 default_ThreadInfo)\<lparr>ti_state := BLOCKED, ti_starveCount := 1\<rparr>,
        enterWaiting 1 default_ThreadInfo]"
proof -
  let ?d = "(watchdog_started [enterWaiting 0 default_ThreadInfo, enterWaiting 1 default_ThreadInfo]
      default_SimConfig default_Logger)\<lparr>wd_point := WD_sleep\<rparr>"
  have "wd_point ?d = WD_sleep" by simp
  from watchdog_poll_spec [OF this, of 500000000]
  have "\<exists>n. wd_registry (wd_iterate (replicate n 500000000) ?d)
      = map (mark (wd_cfg ?d) 500000000) (wd_registry ?d)"
    by (rule ex_forward) simp
  then show ?thesis
    by (rule ex_forward)
       (simp add: watchdog_started_def mark_def starved_def enterWaiting_def duration_cast_ms_def
          default_ThreadInfo_def default_SimConfig_def STARVE_MS_def)
qed

text \<open>
  C28: \<open>stop\<close> returns: from any point of the loop, once the flag is cleared and the workers have finished,
  the watchdog thread ends after at most \<open>6 n + 3\<close> of its own actions, \<open>n\<close> the size of the registry.
\<close>

theorem watchdog_stop_returns:
  assumes "\<forall>i \<in> set registry. ti_state i = INIT \<and> ti_starveCount i = 0"
    and "reachable (watchdog_started registry cfg g) watchdog_step d"
    and "6 * length registry + 3 \<le> length nows"
  shows "wd_point (wd_iterate nows (snd (Watchdog_stop d))) = WD_returned"
proof (rule stopping_returns)
  have inv: "watchdog_inv d" by (rule watchdog_inv_reachable [OF assms(1,2)])
  note d = started_not_unstarted [OF assms(2)]
  show "stopping (snd (Watchdog_stop d))" using stop_stopping [OF inv] d by blast
  show "wd_left (snd (Watchdog_stop d)) \<le> length nows" using stop_left [OF inv] d assms(3) by simp
qed

lemma watchdog_stop_returns_witness:
  "wd_point (wd_iterate (replicate 9 0)
     (snd (Watchdog_stop (watchdog_started [default_ThreadInfo] default_SimConfig default_Logger)))) = WD_returned"
  by (rule watchdog_stop_returns [OF _ reachable_init]) (simp_all add: default_ThreadInfo_def)

end
