(* ===== verification/Record_Grain.thy ===== *)
theory Record_Grain
  imports Watchdog
begin

text \<open>
  The records at the grain of single loads and stores: a worker's transition is a sequence of stores to its
  record, and \<open>currentWaitMs\<close>, as the watchdog calls it, three loads.  The accounts of the watchdog hold at this grain too.
\<close>

section \<open>The stores of a worker\<close>

text \<open>How far a worker has got with the transitions of a round.\<close>

datatype record_point = R_outside | R_stamped | R_waiting | R_granted | R_added | R_active

text \<open>
  \<open>enterWaiting\<close> stores \<open>waitStart\<close>, then the state; \<open>enterActive\<close> stores \<open>activeStart\<close>, adds the wait, then stores the state.
\<close>

inductive record_store :: "record_point \<Rightarrow> ThreadInfo \<Rightarrow> record_point \<Rightarrow> ThreadInfo \<Rightarrow> bool" where
  init: "record_store R_outside i R_outside (i\<lparr>ti_state := INIT\<rparr>)"
| stamp: "record_store R_outside i R_stamped (i\<lparr>ti_waitStart := n\<rparr>)"
| wait: "record_store R_stamped i R_waiting (i\<lparr>ti_state := WAITING\<rparr>)"
| grant: "record_store R_waiting i R_granted (i\<lparr>ti_activeStart := n\<rparr>)"
| add: "record_store R_granted i R_added
     (i\<lparr>ti_totalWaitMs := ti_totalWaitMs i + duration_cast_ms (ti_activeStart i - ti_waitStart i)\<rparr>)"
| activate: "record_store R_added i R_active (i\<lparr>ti_state := ACTIVE\<rparr>)"
| complete: "record_store R_active i R_active (i\<lparr>ti_opsCompleted := ti_opsCompleted i + 1\<rparr>)"
| release: "record_store R_active i R_outside (i\<lparr>ti_state := RELEASING\<rparr>)"
| finish: "record_store R_outside i R_outside (i\<lparr>ti_state := DONE\<rparr>)"
| stop_time: "record_store R_outside i R_outside (i\<lparr>ti_doneTime := n\<rparr>)"

inductive_cases record_storeE: "record_store p i q j"

text \<open>Undisturbed, the stores make up the transitions.\<close>

lemma transition_stores:
  "\<exists>i1. record_store R_outside i R_stamped i1 \<and> record_store R_stamped i1 R_waiting (enterWaiting n i)"
  "\<exists>i1 i2. record_store R_waiting i R_granted i1 \<and> record_store R_granted i1 R_added i2
     \<and> record_store R_added i2 R_active (enterActive n i)"
proof -
  show "\<exists>i1. record_store R_outside i R_stamped i1 \<and> record_store R_stamped i1 R_waiting (enterWaiting n i)"
    using record_store.stamp [of i n] record_store.wait [of "i\<lparr>ti_waitStart := n\<rparr>"] by (auto simp: enterWaiting_def)
  let ?i1 = "i\<lparr>ti_activeStart := n\<rparr>"
  show "\<exists>i1 i2. record_store R_waiting i R_granted i1 \<and> record_store R_granted i1 R_added i2
     \<and> record_store R_added i2 R_active (enterActive n i)"
    using record_store.grant [of i n] record_store.add [of ?i1]
      record_store.activate [of "?i1\<lparr>ti_totalWaitMs := ti_totalWaitMs ?i1 + duration_cast_ms (ti_activeStart ?i1 - ti_waitStart ?i1)\<rparr>"]
    by (auto simp: enterActive_def Let_def)
qed

section \<open>The loads of the watchdog\<close>

datatype wait_read = WR_state | WR_clock | WR_since TimePoint

text \<open>\<open>currentWaitMs\<close>, one load at a time: what is next, or what it returns.\<close>

fun currentWait_act :: "TimePoint \<Rightarrow> ThreadInfo \<Rightarrow> wait_read \<Rightarrow> wait_read + int" where
  "currentWait_act now i WR_state = (if ti_state i = WAITING then Inl WR_clock else Inr 0)"
| "currentWait_act now i WR_clock = Inl (WR_since now)"
| "currentWait_act now i (WR_since n) = Inr (duration_cast_ms (n - ti_waitStart i))"

definition wait_decided :: "nat \<Rightarrow> int \<Rightarrow> watchdog \<Rightarrow> watchdog" where
  "wait_decided k waitMs d =
     (if cfg_starveThresholdMs (wd_cfg d) \<le> waitMs then d\<lparr>wd_point := WD_block k waitMs\<rparr> else wd_entry (k + 1) d)"

text \<open>Undisturbed, the loads make up the action of the watchdog's loop.\<close>

lemma currentWait_whole:
  "Watchdog_run now (WD_wait k) d = Some (wait_decided k (currentWaitMs now (wd_registry d ! k)) d)"
  "currentWaitMs now i = (case currentWait_act now i WR_state of Inr w \<Rightarrow> w
     | Inl r1 \<Rightarrow> (case currentWait_act now i r1 of Inr w \<Rightarrow> w
     | Inl r2 \<Rightarrow> (case currentWait_act now i r2 of Inr w \<Rightarrow> w | Inl _ \<Rightarrow> 0)))"
  by (simp_all add: wait_decided_def Let_def currentWaitMs_def)

section \<open>All together\<close>

record grain =
  gr_dog :: watchdog
  gr_at :: "nat \<Rightarrow> record_point"
  gr_read :: wait_read

text \<open>The next action of the watchdog thread.\<close>

definition grain_dog :: "TimePoint \<Rightarrow> grain \<Rightarrow> grain option" where
  "grain_dog now s = (let d = gr_dog s in case wd_point d of
       WD_wait k \<Rightarrow> (case currentWait_act now (wd_registry d ! k) (gr_read s) of
           Inl r \<Rightarrow> Some (s\<lparr>gr_read := r\<rparr>)
         | Inr waitMs \<Rightarrow> Some (s\<lparr>gr_read := WR_state, gr_dog := wait_decided k waitMs d\<rparr>))
     | p \<Rightarrow> map_option (\<lambda>d'. s\<lparr>gr_dog := d'\<rparr>) (Watchdog_run now p d))"

text \<open>A thread has stored \<open>i\<close> into its record; the ghost counts the waits it has begun.\<close>

definition grain_store :: "nat \<Rightarrow> record_point \<Rightarrow> ThreadInfo \<Rightarrow> grain \<Rightarrow> grain" where
  "grain_store k q i s = (let d = gr_dog s in
     s\<lparr>gr_at := (gr_at s)(k := q),
       gr_dog := d\<lparr>wd_registry := (wd_registry d)[k := i],
                   wd_waits := (wd_waits d)[k := wd_waits d ! k + of_bool (gr_at s k = R_stamped)]\<rparr>\<rparr>)"

inductive grain_step :: "grain \<Rightarrow> grain \<Rightarrow> bool" where
  store: "k < length (wd_registry (gr_dog s)) \<Longrightarrow> record_store (gr_at s k) (wd_registry (gr_dog s) ! k) q i \<Longrightarrow>
     grain_step s (grain_store k q i s)"
| dog: "grain_dog now s = Some s' \<Longrightarrow> grain_step s s'"
| log: "grain_step s (s\<lparr>gr_dog := (gr_dog s)\<lparr>wd_logger := g\<rparr>\<rparr>)"
| stop: "grain_step s (s\<lparr>gr_dog := snd (Watchdog_stop (gr_dog s))\<rparr>)"

definition grain_start :: "watchdog \<Rightarrow> grain" where
  "grain_start d = \<lparr>gr_dog = d, gr_at = (\<lambda>_. R_outside), gr_read = WR_state\<rparr>"

text \<open>A record shows \<open>WAITING\<close> only between the two stores of the state.\<close>

definition grain_inv :: "grain \<Rightarrow> bool" where
  "grain_inv s \<longleftrightarrow> watchdog_inv (gr_dog s)
     \<and> (\<forall>k < length (wd_registry (gr_dog s)).
          ti_state (wd_registry (gr_dog s) ! k) = WAITING \<longrightarrow> gr_at s k \<in> {R_waiting, R_granted, R_added})"

text \<open>Each store is something the watchdog's environment may do at the coarser grain.\<close>

lemma store_is_step:
  assumes "k < length (wd_registry d)" and "record_store p (wd_registry d ! k) q i"
    and "ti_state (wd_registry d ! k) = WAITING \<Longrightarrow> p \<in> {R_waiting, R_granted, R_added}"
    and "length (wd_waits d) = length (wd_registry d)"
  shows "watchdog_step d (d\<lparr>wd_registry := (wd_registry d)[k := i],
           wd_waits := (wd_waits d)[k := wd_waits d ! k + of_bool (p = R_stamped)]\<rparr>)"
proof (cases "p = R_stamped")
  case True
  then have "i = enterWaiting (ti_waitStart (wd_registry d ! k)) (wd_registry d ! k)"
    using assms(2) by (auto elim: record_storeE simp: enterWaiting_def)
  then show ?thesis using watchdog_step.begin_wait [OF assms(1)] True by simp
next
  case False
  have "worker_update (wd_registry d ! k) i"
    using assms(2,3) False by (cases rule: record_store.cases) (auto simp: worker_update_def)
  then have "watchdog_step d (d\<lparr>wd_registry := (wd_registry d)[k := i]\<rparr>)" by (rule watchdog_step.other_update [OF assms(1)])
  then show ?thesis using False by simp
qed

lemma store_shows:
  "record_store p i q j \<Longrightarrow> (ti_state i = WAITING \<longrightarrow> p \<in> {R_waiting, R_granted, R_added}) \<Longrightarrow>
     ti_state j = WAITING \<longrightarrow> q \<in> {R_waiting, R_granted, R_added}"
  by (cases rule: record_store.cases) auto

lemma decided_inv:
  assumes "watchdog_inv d" and "wd_point d = WD_wait k"
  shows "watchdog_inv (wait_decided k waitMs d)"
  using assms(1)
  by (rule watchdog_inv_move)
     (use assms in \<open>auto simp: wait_decided_def move_simps watchdog_inv_def split: if_splits\<close>)

text \<open>The watchdog never stores \<open>WAITING\<close>.\<close>

lemma nth_update_any: "xs[i := x] ! k = (if i = k \<and> k < length xs then x else xs ! k)"
  by (cases "i < length xs") (auto simp: nth_list_update list_update_beyond)

lemma run_shows:
  assumes "Watchdog_run now (wd_point d) d = Some d'" and "ti_state (wd_registry d' ! k) = WAITING"
  shows "ti_state (wd_registry d ! k) = WAITING" and "length (wd_registry d') = length (wd_registry d)"
proof -
  show "ti_state (wd_registry d ! k) = WAITING"
    using assms by (cases "wd_point d") (auto simp: Let_def nth_update_any split: if_splits)
  show "length (wd_registry d') = length (wd_registry d)"
    using assms(1) by (cases "wd_point d") (auto simp: Let_def split: if_splits)
qed

lemma grain_dog_inv:
  assumes inv: "grain_inv s" and act: "grain_dog now s = Some s'"
  shows "grain_inv s'"
proof (cases "\<exists>k. wd_point (gr_dog s) = WD_wait k")
  case True
  then obtain k where k: "wd_point (gr_dog s) = WD_wait k" by blast
  have frame: "wd_registry (wait_decided k w d) = wd_registry d" for w d by (simp add: wait_decided_def)
  show ?thesis
  proof (cases "currentWait_act now (wd_registry (gr_dog s) ! k) (gr_read s)")
    case (Inl r)
    then show ?thesis using act inv k by (auto simp: grain_dog_def grain_inv_def Let_def)
  next
    case (Inr w)
    then have "s' = s\<lparr>gr_read := WR_state, gr_dog := wait_decided k w (gr_dog s)\<rparr>"
      using act k by (simp add: grain_dog_def Let_def)
    then show ?thesis using inv decided_inv [OF _ k] by (simp add: grain_inv_def frame)
  qed
next
  case False
  then obtain d where d: "Watchdog_run now (wd_point (gr_dog s)) (gr_dog s) = Some d" and s': "s' = s\<lparr>gr_dog := d\<rparr>"
    using act by (auto simp: grain_dog_def Let_def split: watchdog_point.splits)
  show ?thesis
    using inv watchdog_inv_scan [OF _ d] run_shows [OF d] by (fastforce simp: s' grain_inv_def)
qed

lemma grain_inv_step:
  assumes inv: "grain_inv s" and step: "grain_step s s'"
  shows "grain_inv s'"
  using step
proof (cases rule: grain_step.cases)
  case (store k q i)
  note step = store_is_step [OF store(2,3)]
  have "watchdog_inv (gr_dog s')"
    using inv watchdog_inv_step [OF _ step] store(1,2) by (simp add: grain_inv_def grain_store_def watchdog_inv_def Let_def)
  moreover have "ti_state i = WAITING \<longrightarrow> q \<in> {R_waiting, R_granted, R_added}"
    using store_shows [OF store(3)] inv store(2) by (simp add: grain_inv_def)
  ultimately show ?thesis using inv store(1,2) by (auto simp: grain_inv_def grain_store_def Let_def nth_list_update)
next
  case (dog now)
  then show ?thesis by (intro grain_dog_inv [OF inv])
next
  case (log g)
  then show ?thesis using inv watchdog_inv_step [OF _ watchdog_step.log] by (simp add: grain_inv_def)
next
  case stop
  then show ?thesis using inv watchdog_inv_step [OF _ watchdog_step.stop] by (simp add: grain_inv_def Watchdog_stop_def)
qed

lemma grain_length_step:
  assumes "grain_step s s'"
  shows "length (wd_registry (gr_dog s')) = length (wd_registry (gr_dog s))"
  using assms
proof (cases rule: grain_step.cases)
  case (dog now)
  then show ?thesis
  proof (cases "\<exists>k. wd_point (gr_dog s) = WD_wait k")
    case False
    then obtain d where "Watchdog_run now (wd_point (gr_dog s)) (gr_dog s) = Some d" "s' = s\<lparr>gr_dog := d\<rparr>"
      using dog by (auto simp: grain_dog_def Let_def split: watchdog_point.splits)
    then show ?thesis by (cases "wd_point (gr_dog s)") (auto simp: Let_def split: if_splits)
  qed (auto simp: grain_dog_def wait_decided_def Let_def split: sum.splits)
qed (simp_all add: grain_store_def Let_def Watchdog_stop_def)

lemma grain_inv_reachable:
  assumes "\<forall>i \<in> set registry. ti_state i = INIT \<and> ti_starveCount i = 0"
    and "reachable (grain_start (watchdog_started registry cfg g)) grain_step s"
  shows "grain_inv s \<and> length (wd_registry (gr_dog s)) = length registry"
  using assms(2)
proof (induction rule: reachable.induct)
  case reachable_init
  show ?case using assms(1) watchdog_inv_start [OF assms(1)]
    by (auto simp: grain_inv_def grain_start_def watchdog_started_def)
next
  case (reachable_step s s')
  then show ?case using grain_inv_step grain_length_step by metis
qed

section \<open>Properties\<close>

text \<open>
  C23: The watchdog's accounts are right at the grain of single loads and stores.  However the stores of the
  workers' transitions interleave with the loads and stores of the watchdog, also between the loads of
  \<open>currentWaitMs\<close>, the event total is the sum of the threads' starvation counts (one less between the two
  increments), and no thread is charged with more events than waits it has begun: a long wait is reported
  at most once.
\<close>

theorem watchdog_counts_stores:
  assumes "\<forall>i \<in> set registry. ti_state i = INIT \<and> ti_starveCount i = 0"
    and "reachable (grain_start (watchdog_started registry cfg g)) grain_step s"
  shows "wd_totalEvents (gr_dog s) = (\<Sum>i \<leftarrow> wd_registry (gr_dog s). ti_starveCount i)
        - (case wd_point (gr_dog s) of WD_event k w \<Rightarrow> 1 | _ \<Rightarrow> 0)
    \<and> (\<forall>k < length registry. ti_starveCount (wd_registry (gr_dog s) ! k) \<le> int (wd_waits (gr_dog s) ! k))"
proof -
  have inv: "watchdog_inv (gr_dog s)" and len: "length (wd_registry (gr_dog s)) = length registry"
    using grain_inv_reachable [OF assms] by (simp_all add: grain_inv_def)
  have "ti_starveCount (wd_registry (gr_dog s) ! k) \<le> int (wd_waits (gr_dog s) ! k)" if "k < length registry" for k
    using inv that unfolding watchdog_inv_def len by (smt (verit) of_nat_0_le_iff)
  with inv show ?thesis by (simp add: watchdog_inv_def uncounted_def)
qed

text \<open>A thread begins to wait at time 0; the watchdog looks at it a second later, load by load.\<close>

fun grain_iterate :: "nat \<Rightarrow> TimePoint \<Rightarrow> grain \<Rightarrow> grain" where
  "grain_iterate 0 now s = s"
| "grain_iterate (Suc n) now s = (case grain_dog now s of Some s' \<Rightarrow> grain_iterate n now s' | None \<Rightarrow> s)"

lemma reachable_grain_iterate:
  "reachable s0 grain_step s \<Longrightarrow> reachable s0 grain_step (grain_iterate n now s)"
proof (induction n now s rule: grain_iterate.induct)
  case (2 n now s)
  show ?case
  proof (cases "grain_dog now s")
    case (Some s')
    have "reachable s0 grain_step s'" by (rule reachable_step [OF "2.prems"]) (rule grain_step.dog [OF Some])
    then show ?thesis using "2.IH" [OF Some] Some by simp
  qed (use 2 in simp)
qed simp

definition one_stored :: grain where
  "one_stored = grain_store 0 R_waiting (enterWaiting 0 default_ThreadInfo)
     (grain_store 0 R_stamped (default_ThreadInfo\<lparr>ti_waitStart := 0\<rparr>)
       (grain_start (watchdog_started [default_ThreadInfo] default_SimConfig default_Logger)))"

lemma reachable_one_stored:
  "reachable (grain_start (watchdog_started [default_ThreadInfo] default_SimConfig default_Logger)) grain_step one_stored"
proof -
  let ?s0 = "grain_start (watchdog_started [default_ThreadInfo] default_SimConfig default_Logger)"
  let ?i = "default_ThreadInfo\<lparr>ti_waitStart := 0\<rparr>"
  have "reachable ?s0 grain_step (grain_store 0 R_stamped ?i ?s0)"
    by (rule reachable_step [OF reachable_init], rule grain_step.store)
       (simp_all add: grain_start_def watchdog_started_def record_store.stamp)
  then show ?thesis unfolding one_stored_def
    by (rule reachable_step, intro grain_step.store)
       (simp_all add: grain_store_def grain_start_def watchdog_started_def enterWaiting_def record_store.wait Let_def)
qed

lemma watchdog_counts_stores_witness:
  "wd_totalEvents (gr_dog (grain_iterate 11 1000000000 one_stored)) = 1
     \<and> ti_starveCount (wd_registry (gr_dog (grain_iterate 11 1000000000 one_stored)) ! 0) \<le> 1"
proof -
  have "wd_totalEvents (gr_dog (grain_iterate 11 1000000000 one_stored)) = 1"
    "wd_waits (gr_dog (grain_iterate 11 1000000000 one_stored)) ! 0 = 1"
    by code_simp+
  with watchdog_counts_stores [OF _ reachable_grain_iterate [OF reachable_one_stored], of 11 1000000000] show ?thesis
    by (simp add: default_ThreadInfo_def)
qed

end
