(* ===== verification/Benchmark.thy ===== *)
theory Benchmark
  imports Metrics Logging
begin

text \<open>
  \<open>runBenchmark\<close> of \<open>src/main.cpp\<close>: every load profile with every algorithm, \<open>BENCHMARK_RUNS\<close>
  simulations each, averaged.  A simulation's result depends on the scheduler and the clock, so
  \<open>runSimulation\<close> is an argument: the result of the \<open>k\<close>-th simulation started, for its configuration.
\<close>

section \<open>The loops\<close>

definition profiles :: "LoadProfile list" where
  "profiles = [LIGHT, BALANCED, HEAVY]"

definition algorithms :: "AlgoType list" where
  "algorithms = [READER_PRIORITY, WRITER_PRIORITY, FAIR_MORRIS]"

fun profileName :: "LoadProfile \<Rightarrow> string" where
  "profileName LIGHT = ''Light''"
| "profileName BALANCED = ''Balanced''"
| "profileName HEAVY = ''Heavy''"
| "profileName CUSTOM = ''''"

definition run_cfg :: "SimConfig \<Rightarrow> LoadProfile \<Rightarrow> AlgoType \<Rightarrow> SimConfig" where
  "run_cfg baseCfg profile algo =
     applyLoadProfile (baseCfg\<lparr>cfg_algo := algo, cfg_logLevel := SUMMARY\<rparr>) profile"

text \<open>The accumulation of one run, and the divisions after the last; \<open>int\<close> and \<open>long\<close> truncate.\<close>

definition add_run :: "MetricsResult \<Rightarrow> MetricsResult \<Rightarrow> MetricsResult" where
  "add_run avg r =
     avg\<lparr>mr_avgReaderWaitMs := mr_avgReaderWaitMs avg + mr_avgReaderWaitMs r,
         mr_avgWriterWaitMs := mr_avgWriterWaitMs avg + mr_avgWriterWaitMs r,
         mr_throughputOpsPerSec := mr_throughputOpsPerSec avg + mr_throughputOpsPerSec r,
         mr_jainsFairnessIndex := mr_jainsFairnessIndex avg + mr_jainsFairnessIndex r,
         mr_starvationCount := mr_starvationCount avg + mr_starvationCount r,
         mr_contextSwitchesVol := mr_contextSwitchesVol avg + mr_contextSwitchesVol r,
         mr_contextSwitchesInv := mr_contextSwitchesInv avg + mr_contextSwitchesInv r,
         mr_simulationDurationMs := mr_simulationDurationMs avg + mr_simulationDurationMs r,
         mr_numReaders := mr_numReaders r, mr_numWriters := mr_numWriters r,
         mr_totalOps := mr_totalOps r\<rparr>"

definition divide_runs :: "nat \<Rightarrow> MetricsResult \<Rightarrow> MetricsResult" where
  "divide_runs runsOk avg =
     (if 0 < runsOk
      then avg\<lparr>mr_avgReaderWaitMs := mr_avgReaderWaitMs avg / real runsOk,
               mr_avgWriterWaitMs := mr_avgWriterWaitMs avg / real runsOk,
               mr_throughputOpsPerSec := mr_throughputOpsPerSec avg / real runsOk,
               mr_jainsFairnessIndex := mr_jainsFairnessIndex avg / real runsOk,
               mr_starvationCount := cdiv (mr_starvationCount avg) (int runsOk),
               mr_contextSwitchesVol := cdiv (mr_contextSwitchesVol avg) (int runsOk),
               mr_contextSwitchesInv := cdiv (mr_contextSwitchesInv avg) (int runsOk),
               mr_simulationDurationMs := mr_simulationDurationMs avg / real runsOk\<rparr>
      else avg)"

text \<open>
  The state of the loops: simulations started so far, results so far, the CSV file, and what went to
  standard output and standard error.
\<close>

record bench =
  b_started :: nat
  b_results :: "MetricsResult list"
  b_file :: "string option"
  b_out :: string
  b_err :: "string list"

type_synonym simulations = "nat \<Rightarrow> SimConfig \<Rightarrow> MetricsResult"

fun bench_runs ::
    "simulations \<Rightarrow> SimConfig \<Rightarrow> nat \<Rightarrow> nat \<times> nat \<times> MetricsResult \<Rightarrow> nat \<times> nat \<times> MetricsResult" where
  "bench_runs sims runCfg 0 x = x"
| "bench_runs sims runCfg (Suc n) (k, runsOk, avg) =
     bench_runs sims runCfg n (Suc k, Suc runsOk, add_run avg (sims k runCfg))"

definition bench_cell ::
    "simulations \<Rightarrow> bool \<Rightarrow> SimConfig \<Rightarrow> LoadProfile \<Rightarrow> AlgoType \<Rightarrow> bench \<Rightarrow> bench" where
  "bench_cell sims can_open baseCfg profile algo b =
     (let out = b_out b @ [CHR 0x0A] @ ''[Benchmark] Profile='' @ pad_right 8 (profileName profile)
                @ '' Algo='' @ pad_right 16 (algoLongName algo)
                @ '' Averaging '' @ to_string (int BENCHMARK_RUNS) @ '' runs...'' @ [CHR 0x0A];
          (k, runsOk, total) = bench_runs sims (run_cfg baseCfg profile algo) BENCHMARK_RUNS
             (b_started b, 0, zero_MetricsResult\<lparr>mr_algo := algo\<rparr>);
          avg = divide_runs runsOk total;
          (file, err) = (if cfg_csvOutput baseCfg \<noteq> ''''
                         then exportCSV can_open (cfg_csvOutput baseCfg) avg (b_file b)
                         else (b_file b, []))
      in \<lparr>b_started = k, b_results = b_results b @ [avg], b_file = file, b_out = out,
          b_err = b_err b @ err\<rparr>)"

definition runBenchmark :: "simulations \<Rightarrow> bool \<Rightarrow> SimConfig \<Rightarrow> string option \<Rightarrow> bench" where
  "runBenchmark sims can_open baseCfg file =
     (let b0 = \<lparr>b_started = 0, b_results = [], b_file = file, b_out = '''', b_err = []\<rparr>;
          b = foldl (\<lambda>b profile. foldl (\<lambda>b algo. bench_cell sims can_open baseCfg profile algo b) b algorithms)
                b0 profiles;
          out = b_out b @ [CHR 0x0A] @ printTable (b_results b);
          out2 = (if cfg_csvOutput baseCfg \<noteq> ''''
                  then out @ ''[Benchmark] Results exported to: '' @ cfg_csvOutput baseCfg @ [CHR 0x0A]
                  else out)
      in b\<lparr>b_out := out2\<rparr>)"

section \<open>Averages\<close>

definition results_of :: "simulations \<Rightarrow> SimConfig \<Rightarrow> nat \<Rightarrow> nat \<Rightarrow> MetricsResult list" where
  "results_of sims runCfg k n = map (\<lambda>i. sims (k + i) runCfg) [0..<n]"

lemma results_of_Suc: "results_of sims c k (Suc n) = sims k c # results_of sims c (Suc k) n"
  by (simp add: results_of_def upt_conv_Cons map_Suc_upt [symmetric] del: upt_Suc)

lemma length_results_of [simp]: "length (results_of sims c k n) = n"
  by (simp add: results_of_def)

lemma bench_runs_eq:
  "bench_runs sims c n (k, m, avg) = (k + n, m + n, foldl add_run avg (results_of sims c k n))"
proof (induction n arbitrary: k m avg)
  case (Suc n)
  then show ?case by (simp add: results_of_Suc)
qed (simp add: results_of_def)

text \<open>What the average of the five results of a cell should be.\<close>

definition bench_average :: "AlgoType \<Rightarrow> MetricsResult list \<Rightarrow> MetricsResult" where
  "bench_average algo rs =
     \<lparr>mr_algo = algo, mr_numReaders = mr_numReaders (last rs), mr_numWriters = mr_numWriters (last rs),
      mr_totalOps = mr_totalOps (last rs), mr_avgReaderWaitMs = mean (map mr_avgReaderWaitMs rs),
      mr_avgWriterWaitMs = mean (map mr_avgWriterWaitMs rs),
      mr_throughputOpsPerSec = mean (map mr_throughputOpsPerSec rs),
      mr_jainsFairnessIndex = mean (map mr_jainsFairnessIndex rs),
      mr_starvationCount = cdiv (\<Sum>r \<leftarrow> rs. mr_starvationCount r) (int (length rs)),
      mr_contextSwitchesVol = cdiv (\<Sum>r \<leftarrow> rs. mr_contextSwitchesVol r) (int (length rs)),
      mr_contextSwitchesInv = cdiv (\<Sum>r \<leftarrow> rs. mr_contextSwitchesInv r) (int (length rs)),
      mr_simulationDurationMs = mean (map mr_simulationDurationMs rs)\<rparr>"

lemma add_runs:
  "rs \<noteq> [] \<Longrightarrow> foldl add_run avg rs =
     \<lparr>mr_algo = mr_algo avg, mr_numReaders = mr_numReaders (last rs),
      mr_numWriters = mr_numWriters (last rs), mr_totalOps = mr_totalOps (last rs),
      mr_avgReaderWaitMs = mr_avgReaderWaitMs avg + (\<Sum>r \<leftarrow> rs. mr_avgReaderWaitMs r),
      mr_avgWriterWaitMs = mr_avgWriterWaitMs avg + (\<Sum>r \<leftarrow> rs. mr_avgWriterWaitMs r),
      mr_throughputOpsPerSec = mr_throughputOpsPerSec avg + (\<Sum>r \<leftarrow> rs. mr_throughputOpsPerSec r),
      mr_jainsFairnessIndex = mr_jainsFairnessIndex avg + (\<Sum>r \<leftarrow> rs. mr_jainsFairnessIndex r),
      mr_starvationCount = mr_starvationCount avg + (\<Sum>r \<leftarrow> rs. mr_starvationCount r),
      mr_contextSwitchesVol = mr_contextSwitchesVol avg + (\<Sum>r \<leftarrow> rs. mr_contextSwitchesVol r),
      mr_contextSwitchesInv = mr_contextSwitchesInv avg + (\<Sum>r \<leftarrow> rs. mr_contextSwitchesInv r),
      mr_simulationDurationMs = mr_simulationDurationMs avg + (\<Sum>r \<leftarrow> rs. mr_simulationDurationMs r)\<rparr>"
proof (induction rs arbitrary: avg)
  case (Cons r rs)
  then show ?case by (cases "rs = []") (simp_all add: add_run_def)
qed simp

lemma divide_add_runs:
  assumes "rs \<noteq> []"
  shows "divide_runs (length rs) (foldl add_run (zero_MetricsResult\<lparr>mr_algo := algo\<rparr>) rs)
    = bench_average algo rs"
  using assms by (simp add: add_runs divide_runs_def bench_average_def mean_def zero_MetricsResult_def)

lemma bench_cell_effect:
  assumes "b' = bench_cell sims can_open base p a b"
    and "r = bench_average a (results_of sims (run_cfg base p a) (b_started b) BENCHMARK_RUNS)"
  shows "b_started b' = b_started b + BENCHMARK_RUNS" and "b_results b' = b_results b @ [r]"
    and "b_file b' = (if cfg_csvOutput base \<noteq> '''' then fst (exportCSV can_open (cfg_csvOutput base) r (b_file b))
           else b_file b)"
  using assms divide_add_runs [of "results_of sims (run_cfg base p a) (b_started b) BENCHMARK_RUNS" a]
  by (auto simp: bench_cell_def bench_runs_eq BENCHMARK_RUNS_def results_of_def Let_def split: prod.splits)

text \<open>The nine combinations in order, run as one loop.\<close>

definition cells :: "(LoadProfile \<times> AlgoType) list" where
  "cells = List.product profiles algorithms"

definition bench_cells :: "simulations \<Rightarrow> bool \<Rightarrow> SimConfig \<Rightarrow> (LoadProfile \<times> AlgoType) list \<Rightarrow> bench \<Rightarrow> bench" where
  "bench_cells sims can_open base = fold (\<lambda>(p, a). bench_cell sims can_open base p a)"

fun cell_results ::
    "simulations \<Rightarrow> SimConfig \<Rightarrow> nat \<Rightarrow> (LoadProfile \<times> AlgoType) list \<Rightarrow> MetricsResult list" where
  "cell_results sims base k [] = []"
| "cell_results sims base k ((p, a) # cs) =
     bench_average a (results_of sims (run_cfg base p a) k BENCHMARK_RUNS)
       # cell_results sims base (k + BENCHMARK_RUNS) cs"

lemma bench_cells_effect:
  "b_results (bench_cells sims can_open base cs b)
     = b_results b @ cell_results sims base (b_started b) cs
   \<and> (cfg_csvOutput base \<noteq> '''' \<longrightarrow> can_open \<longrightarrow>
       b_file (bench_cells sims can_open base cs b)
         = export_all (cell_results sims base (b_started b) cs) (b_file b))
   \<and> (\<not> (cfg_csvOutput base \<noteq> [] \<and> can_open) \<longrightarrow>
       b_file (bench_cells sims can_open base cs b) = b_file b)"
proof (induction cs arbitrary: b)
  case Nil
  show ?case by (simp add: bench_cells_def export_all_def)
next
  case (Cons c cs)
  obtain p a where c: "c = (p, a)" by (cases c)
  note effect = bench_cell_effect [OF refl refl, of sims can_open base p a b]
  have csv: "fst (exportCSV True q r f) = fst (exportCSV True [] r f)" for q r f
    by (simp add: exportCSV_def)
  have no_csv: "fst (exportCSV False q r f) = f" for q r f by (simp add: exportCSV_def)
  have step: "bench_cells sims can_open base ((p, a) # cs) b
      = bench_cells sims can_open base cs (bench_cell sims can_open base p a b)"
    by (simp add: bench_cells_def)
  show ?case unfolding c step cell_results.simps
    using Cons.IH [of "bench_cell sims can_open base p a b"] effect csv [of "cfg_csvOutput base"]
    by (cases can_open) (auto simp: export_all_def no_csv)
qed

lemma runBenchmark_cells:
  "runBenchmark sims can_open base file =
     (let b = bench_cells sims can_open base cells
                \<lparr>b_started = 0, b_results = [], b_file = file, b_out = '''', b_err = []\<rparr>
      in b\<lparr>b_out := b_out (runBenchmark sims can_open base file)\<rparr>)"
  by (simp add: runBenchmark_def bench_cells_def cells_def profiles_def algorithms_def Let_def)

lemma mean_range:
  assumes "xs \<noteq> []" and "\<forall>x \<in> set xs. a \<le> x \<and> x \<le> b"
  shows "a \<le> mean xs \<and> mean xs \<le> b"
proof -
  have "real (length xs) * a \<le> sum_list xs \<and> sum_list xs \<le> real (length xs) * b"
    using assms(2) by (induction xs) (auto simp: algebra_simps)
  moreover have "0 < real (length xs)" using assms(1) by simp
  ultimately show ?thesis using assms(1)
    by (simp add: mean_def pos_le_divide_eq pos_divide_le_eq mult.commute)
qed

lemma runBenchmark_results:
  "b_results (runBenchmark sims can_open base file) = cell_results sims base 0 cells"
  "cfg_csvOutput base \<noteq> '''' \<Longrightarrow>
     b_file (runBenchmark sims True base file) = export_all (cell_results sims base 0 cells) file"
  by (subst runBenchmark_cells, simp add: bench_cells_effect Let_def)+

lemma runBenchmark_no_csv:
  "cfg_csvOutput base = [] \<or> \<not> can_open \<Longrightarrow> b_file (runBenchmark sims can_open base file) = file"
  by (subst runBenchmark_cells) (simp add: bench_cells_effect Let_def)

lemma length_cell_results [simp]: "length (cell_results sims base k cs) = length cs"
  by (induction sims base k cs rule: cell_results.induct) simp_all

lemma length_cells: "length cells = 9"
  by (simp add: cells_def profiles_def algorithms_def)

section \<open>Properties\<close>

text \<open>
  A benchmark starts 45 simulations, five in a row for each profile and algorithm, and reports for each
  combination the averages of its five results; the CSV file it writes holds the header and exactly these
  nine results.
\<close>

lemma benchmark_report:
  assumes "cfg_csvOutput base \<noteq> ''''"
  shows "b_results (runBenchmark sims can_open base file) = cell_results sims base 0 cells
       \<and> length (cell_results sims base 0 cells) = 9
       \<and> map_option parse_csv (b_file (runBenchmark sims True base None))
           = Some (header_fields # map result_fields (cell_results sims base 0 cells))"
proof -
  have "cell_results sims base 0 cells \<noteq> []"
    by (metis length_cell_results length_cells list.size(3) zero_neq_numeral)
  then obtain r rs where rs: "cell_results sims base 0 cells = r # rs" by (meson list.exhaust)
  have "map_option parse_csv (export_all (r # rs) None) = Some (header_fields # map result_fields (r # rs))"
    by (rule parse_export)
  then show ?thesis
    using assms by (simp add: runBenchmark_results length_cells flip: rs)
qed

lemma benchmark_report_witness:
  "length (b_results (runBenchmark (\<lambda>k c. zero_MetricsResult)  True
     (default_SimConfig\<lparr>cfg_csvOutput := ''a.csv''\<rparr>) None)) = 9"
  using benchmark_report [of "default_SimConfig\<lparr>cfg_csvOutput := ''a.csv''\<rparr>"
    "\<lambda>k c. zero_MetricsResult" True None] by simp

text \<open>
  If every simulation reports its own configuration and a Jain index between 0 and 1, as \<open>compute\<close>
  does, then so do the nine averages; their numbers of readers, writers and operations are those of the
  profiles, whatever the command line asked for.
\<close>

lemma benchmark_rows:
  assumes "\<And>k c. mr_numReaders (sims k c) = cfg_numReaders c \<and> mr_numWriters (sims k c) = cfg_numWriters c
      \<and> mr_totalOps (sims k c) = cfg_totalOps c"
    and "\<And>k c. 0 \<le> mr_jainsFairnessIndex (sims k c) \<and> mr_jainsFairnessIndex (sims k c) \<le> 1"
  shows "map (\<lambda>r. (mr_algo r, mr_numReaders r, mr_numWriters r, mr_totalOps r))
      (b_results (runBenchmark sims can_open base file))
    = [(READER_PRIORITY, 3, 1, 100), (WRITER_PRIORITY, 3, 1, 100), (FAIR_MORRIS, 3, 1, 100),
       (READER_PRIORITY, 5, 5, 500), (WRITER_PRIORITY, 5, 5, 500), (FAIR_MORRIS, 5, 5, 500),
       (READER_PRIORITY, 10, 10, 1000), (WRITER_PRIORITY, 10, 10, 1000), (FAIR_MORRIS, 10, 10, 1000)]
   \<and> (\<forall>r \<in> set (b_results (runBenchmark sims can_open base file)).
        0 \<le> mr_jainsFairnessIndex r \<and> mr_jainsFairnessIndex r \<le> 1)"
proof
  have last: "f (last (results_of sims c k BENCHMARK_RUNS)) = f (sims (k + 4) c)" for f c k
    by (simp add: results_of_def BENCHMARK_RUNS_def numeral_eq_Suc)
  show "map (\<lambda>r. (mr_algo r, mr_numReaders r, mr_numWriters r, mr_totalOps r))
      (b_results (runBenchmark sims can_open base file))
    = [(READER_PRIORITY, 3, 1, 100), (WRITER_PRIORITY, 3, 1, 100), (FAIR_MORRIS, 3, 1, 100),
       (READER_PRIORITY, 5, 5, 500), (WRITER_PRIORITY, 5, 5, 500), (FAIR_MORRIS, 5, 5, 500),
       (READER_PRIORITY, 10, 10, 1000), (WRITER_PRIORITY, 10, 10, 1000), (FAIR_MORRIS, 10, 10, 1000)]"
    by (simp add: runBenchmark_results cells_def profiles_def algorithms_def bench_average_def last
        assms(1) run_cfg_def)
  have cell: "\<forall>r \<in> set (cell_results sims base k cs).
      0 \<le> mr_jainsFairnessIndex r \<and> mr_jainsFairnessIndex r \<le> 1" for k cs
  proof (induction cs arbitrary: k)
    case (Cons c cs)
    obtain p a where c: "c = (p, a)" by (cases c)
    have "0 \<le> mean (map mr_jainsFairnessIndex (results_of sims (run_cfg base p a) k BENCHMARK_RUNS))
        \<and> mean (map mr_jainsFairnessIndex (results_of sims (run_cfg base p a) k BENCHMARK_RUNS)) \<le> 1"
      by (rule mean_range) (auto simp: results_of_def BENCHMARK_RUNS_def assms(2))
    then show ?case using Cons.IH by (simp add: c bench_average_def)
  qed simp
  then show "\<forall>r \<in> set (b_results (runBenchmark sims can_open base file)).
      0 \<le> mr_jainsFairnessIndex r \<and> mr_jainsFairnessIndex r \<le> 1"
    by (simp add: runBenchmark_results)
qed

lemma benchmark_rows_witness:
  "length (b_results (runBenchmark
     (\<lambda>k c. Metrics_compute [Some default_ThreadInfo] c 1 0 0) True default_SimConfig None)) = 9
   \<and> (\<forall>r \<in> set (b_results (runBenchmark
        (\<lambda>k c. Metrics_compute [Some default_ThreadInfo] c 1 0 0) True default_SimConfig None)).
        mr_jainsFairnessIndex r \<le> 1)"
proof -
  let ?sims = "\<lambda>k c. Metrics_compute [Some default_ThreadInfo] c 1 0 0"
  have echo: "mr_numReaders (?sims k c) = cfg_numReaders c \<and> mr_numWriters (?sims k c) = cfg_numWriters c
      \<and> mr_totalOps (?sims k c) = cfg_totalOps c" for k :: nat and c
    by (simp add: Metrics_compute_def Let_def)
  have jain: "0 \<le> mr_jainsFairnessIndex (?sims k c) \<and> mr_jainsFairnessIndex (?sims k c) \<le> 1"
    for k :: nat and c
    by (simp add: Metrics_compute_def metric_fold no_sums_def default_ThreadInfo_def jains_index_def Let_def)
  show ?thesis
    using benchmark_rows [of ?sims True default_SimConfig None, OF echo jain]
    by (simp add: runBenchmark_results length_cells)
qed

end
