(* ===== verification/Command_Line.thy ===== *)
theory Command_Line
  imports Benchmark
begin

text \<open>
  The command line of \<open>src/main.cpp\<close>: \<open>printUsage\<close>, \<open>parseCLI\<close> and \<open>main\<close>.  Strings are byte strings;
  the dash in the usage text is its three bytes in UTF-8.
\<close>

section \<open>atoi\<close>

text \<open>
  \<open>atoi\<close> as the C library implements it, by \<open>(int) strtol(s, NULL, 10)\<close>: white space, a sign, digits up to
  the first other character; saturated to 64 bits, then cut to 32.
\<close>

definition is_space :: "char \<Rightarrow> bool" where
  "is_space c \<longleftrightarrow> c = CHR '' '' \<or> 9 \<le> (of_char c :: nat) \<and> (of_char c :: nat) \<le> 13"

definition strtol :: "string \<Rightarrow> int" where
  "strtol s =
     (let s1 = dropWhile is_space s;
          v = (case s1 of [] \<Rightarrow> 0
               | c # cs \<Rightarrow> if c = CHR ''-'' then - int (read_digits 0 cs)
                           else if c = CHR ''+'' then int (read_digits 0 cs)
                           else int (read_digits 0 s1))
      in max (- (2 ^ 63)) (min (2 ^ 63 - 1) v))"

definition atoi :: "string \<Rightarrow> int" where
  "atoi s = sint (word_of_int (strtol s) :: 32 word)"

section \<open>Options\<close>

definition printUsage :: "string \<Rightarrow> string" where
  "printUsage progName =
     ''Readers-Writers Toolkit '' @ [CHR 0xE2, CHR 0x80, CHR 0x94]
     @ '' OS Project Spring 2026, FAST-NUCES'' @ [CHR 0x0A, CHR 0x0A]
     @ ''Usage: '' @ progName @ '' [options]'' @ [CHR 0x0A, CHR 0x0A]
     @ ''Options:'' @ [CHR 0x0A]
     @ ''  --algo   <rp|wp|fa>                Algorithm (rp=Reader-Priority, wp=Writer-Priority, fa=Fair-Morris)'' @ [CHR 0x0A]
     @ ''  --readers <n>                      Number of reader threads (default: 5)'' @ [CHR 0x0A]
     @ ''  --writers <n>                      Number of writer threads (default: 3)'' @ [CHR 0x0A]
     @ ''  --ops     <n>                      Total operations (default: 100)'' @ [CHR 0x0A]
     @ ''  --log    <verbose|standard|summary> Log verbosity (default: verbose)'' @ [CHR 0x0A]
     @ ''  --logfile <path>                   Write log to file'' @ [CHR 0x0A]
     @ ''  --starve  <ms>                     Starvation threshold in ms (default: 500)'' @ [CHR 0x0A]
     @ ''  --benchmark                        Run all profiles x all algorithms x 5 runs'' @ [CHR 0x0A]
     @ ''  --output  <path>                   CSV output for benchmark results'' @ [CHR 0x0A]
     @ ''  --abort-test                       Enable TC-12 signal abort test'' @ [CHR 0x0A]
     @ ''  --help                             Print this message'' @ [CHR 0x0A]"

text \<open>
  One turn of the loop: \<open>exit\<close> with a status, what was printed and what went to standard error; or the
  changed configuration and how many of the arguments after \<open>argv[i]\<close> were consumed.
\<close>

datatype cli_turn = Exit int string string | Next nat SimConfig

definition unknown_value :: "string \<Rightarrow> string \<Rightarrow> string" where
  "unknown_value what v = ''Unknown '' @ what @ '' '' @ [CHR 0x27] @ v @ [CHR 0x27, CHR 0x0A]"

definition parse_turn :: "string \<Rightarrow> string \<Rightarrow> string list \<Rightarrow> SimConfig \<Rightarrow> cli_turn" where
  "parse_turn prog arg rest cfg =
     (let more = (rest \<noteq> []); v = hd rest in
      if arg = ''--help'' then Exit 0 (printUsage prog) ''''
      else if arg = ''--algo'' \<and> more then
        (if v = ''rp'' then Next 1 (cfg\<lparr>cfg_algo := READER_PRIORITY\<rparr>)
         else if v = ''wp'' then Next 1 (cfg\<lparr>cfg_algo := WRITER_PRIORITY\<rparr>)
         else if v = ''fa'' then Next 1 (cfg\<lparr>cfg_algo := FAIR_MORRIS\<rparr>)
         else Exit 1 '''' (unknown_value ''algo'' v))
      else if arg = ''--readers'' \<and> more then Next 1 (cfg\<lparr>cfg_numReaders := atoi v\<rparr>)
      else if arg = ''--writers'' \<and> more then Next 1 (cfg\<lparr>cfg_numWriters := atoi v\<rparr>)
      else if arg = ''--ops'' \<and> more then Next 1 (cfg\<lparr>cfg_totalOps := atoi v\<rparr>)
      else if arg = ''--starve'' \<and> more then Next 1 (cfg\<lparr>cfg_starveThresholdMs := atoi v\<rparr>)
      else if arg = ''--logfile'' \<and> more then Next 1 (cfg\<lparr>cfg_logFile := v\<rparr>)
      else if arg = ''--output'' \<and> more then Next 1 (cfg\<lparr>cfg_csvOutput := v\<rparr>)
      else if arg = ''--benchmark'' then Next 0 (cfg\<lparr>cfg_benchmarkMode := True\<rparr>)
      else if arg = ''--abort-test'' then Next 0 (cfg\<lparr>cfg_enableAbortTest := True\<rparr>)
      else if arg = ''--log'' \<and> more then
        (if v = ''verbose'' then Next 1 (cfg\<lparr>cfg_logLevel := VERBOSE\<rparr>)
         else if v = ''standard'' then Next 1 (cfg\<lparr>cfg_logLevel := STANDARD\<rparr>)
         else if v = ''summary'' then Next 1 (cfg\<lparr>cfg_logLevel := SUMMARY\<rparr>)
         else Exit 1 '''' (unknown_value ''log level'' v))
      else Next 0 cfg)"

text \<open>\<open>Inl\<close> when the process exits in \<open>parseCLI\<close>.\<close>

function parse_args :: "string \<Rightarrow> string list \<Rightarrow> SimConfig \<Rightarrow> (int \<times> string \<times> string) + SimConfig" where
  "parse_args prog [] cfg = Inr cfg"
| "parse_args prog (arg # rest) cfg =
     (case parse_turn prog arg rest cfg of
        Exit status out err \<Rightarrow> Inl (status, out, err)
      | Next n cfg' \<Rightarrow> parse_args prog (drop n rest) cfg')"
  by pat_completeness auto
termination by (relation "measure (\<lambda>(prog, args, cfg). length args)") auto

definition parseCLI :: "string \<Rightarrow> string list \<Rightarrow> (int \<times> string \<times> string) + SimConfig" where
  "parseCLI prog args = parse_args prog args default_SimConfig"

section \<open>main\<close>

text \<open>
  What the process leaves behind: its exit status, its own text on the standard streams (the logger keeps
  its lines), the CSV file and the logger.
\<close>

record process =
  pr_status :: int
  pr_out :: string
  pr_err :: "string list"
  pr_csv :: "string option"
  pr_logger :: Logger

text \<open>
  \<open>sims\<close> gives the results of the simulations and \<open>logged\<close> what they do to the logger; \<open>can_log\<close>, \<open>reason\<close>
  and \<open>can_open\<close> are the operating system's answers to the two \<open>fopen\<close> calls.
\<close>

definition main_program ::
    "simulations \<Rightarrow> (Logger \<Rightarrow> Logger) \<Rightarrow> bool \<Rightarrow> string \<Rightarrow> bool \<Rightarrow> string \<Rightarrow> string list
       \<Rightarrow> string option \<Rightarrow> process" where
  "main_program sims logged can_log reason can_open prog args file =
     (case parseCLI prog args of
        Inl (status, out, err) \<Rightarrow>
          \<lparr>pr_status = status, pr_out = out, pr_err = (if err = '''' then [] else [err]), pr_csv = file,
           pr_logger = default_Logger\<rparr>
      | Inr cfg \<Rightarrow>
          (let g = Logger_init can_log reason (cfg_logLevel cfg) (cfg_logFile cfg) default_Logger;
               (out, err, csv) =
                 (if cfg_benchmarkMode cfg
                  then (let b = runBenchmark sims can_open cfg file in (b_out b, b_err b, b_file b))
                  else (let r = sims 0 cfg;
                            out = [CHR 0x0A] @ MetricsResult_toString r @ [CHR 0x0A]
                        in if cfg_csvOutput cfg \<noteq> ''''
                           then (let (csv, err) = exportCSV can_open (cfg_csvOutput cfg) r file
                                 in (out @ ''Results exported to: '' @ cfg_csvOutput cfg @ [CHR 0x0A], err, csv))
                           else (out, [], file)))
           in \<lparr>pr_status = 0, pr_out = out, pr_err = err, pr_csv = csv,
               pr_logger = Logger_shutdown (logged g)\<rparr>))"

section \<open>Reading numbers\<close>

lemma show_nat_head: "\<exists>c cs. show_nat n = c # cs \<and> is_digit c"
  using all_digits_show_nat [of n] by (cases "show_nat n") auto

lemma digit_not_space: "is_digit c \<Longrightarrow> \<not> is_space c \<and> c \<noteq> CHR ''-'' \<and> c \<noteq> CHR ''+''"
  by (auto simp: is_digit_def is_space_def)

lemma strtol_show_nat: "strtol (show_nat n) = min (2 ^ 63 - 1) (int n)"
proof -
  obtain c cs where c: "show_nat n = c # cs" "is_digit c" using show_nat_head by blast
  then have "dropWhile is_space (show_nat n) = show_nat n" using digit_not_space by simp
  then show ?thesis
    using c digit_not_space [OF c(2)] read_digits_show_nat_0 [of n] by (simp add: strtol_def)
qed

lemma strtol_minus: "strtol (CHR ''-'' # show_nat n) = max (- (2 ^ 63)) (- int n)"
  by (simp add: strtol_def is_space_def read_digits_show_nat_0)

lemma atoi_to_string:
  assumes "- (2 ^ 31) \<le> n" and "n < 2 ^ 31"
  shows "atoi (to_string n) = n"
proof -
  have "strtol (to_string n) = n"
    using assms by (simp add: to_string_def strtol_show_nat strtol_minus)
  then show ?thesis using assms by (simp add: atoi_def sint_word_of_int_32)
qed

section \<open>The command line as a list of options\<close>

text \<open>
  A reference reading of the command line in two phases: first cut it into options with their values, then
  look for one that ends the program, or else apply them in order.
\<close>

definition value_options :: "string list" where
  "value_options = [''--algo'', ''--readers'', ''--writers'', ''--ops'', ''--starve'', ''--logfile'',
     ''--output'', ''--log'']"

fun tokenise :: "string list \<Rightarrow> (string \<times> string option) list" where
  "tokenise [] = []"
| "tokenise [a] = [(a, None)]"
| "tokenise (a # v # rest) =
     (if a \<in> set value_options then (a, Some v) # tokenise rest else (a, None) # tokenise (v # rest))"

fun fatal :: "string \<times> string option \<Rightarrow> bool" where
  "fatal (a, None) \<longleftrightarrow> a = ''--help''"
| "fatal (a, Some v) \<longleftrightarrow> a = ''--algo'' \<and> v \<notin> set [''rp'', ''wp'', ''fa'']
     \<or> a = ''--log'' \<and> v \<notin> set [''verbose'', ''standard'', ''summary'']"

fun exit_for :: "string \<Rightarrow> string \<times> string option \<Rightarrow> int \<times> string \<times> string" where
  "exit_for prog (a, None) = (0, printUsage prog, '''')"
| "exit_for prog (a, Some v) =
     (1, '''', unknown_value (if a = ''--algo'' then ''algo'' else ''log level'') v)"

fun apply_option :: "string \<times> string option \<Rightarrow> SimConfig \<Rightarrow> SimConfig" where
  "apply_option (a, None) cfg =
     (if a = ''--benchmark'' then cfg\<lparr>cfg_benchmarkMode := True\<rparr>
      else if a = ''--abort-test'' then cfg\<lparr>cfg_enableAbortTest := True\<rparr> else cfg)"
| "apply_option (a, Some v) cfg =
     (if a = ''--algo'' then cfg\<lparr>cfg_algo := (if v = ''rp'' then READER_PRIORITY
         else if v = ''wp'' then WRITER_PRIORITY else FAIR_MORRIS)\<rparr>
      else if a = ''--readers'' then cfg\<lparr>cfg_numReaders := atoi v\<rparr>
      else if a = ''--writers'' then cfg\<lparr>cfg_numWriters := atoi v\<rparr>
      else if a = ''--ops'' then cfg\<lparr>cfg_totalOps := atoi v\<rparr>
      else if a = ''--starve'' then cfg\<lparr>cfg_starveThresholdMs := atoi v\<rparr>
      else if a = ''--logfile'' then cfg\<lparr>cfg_logFile := v\<rparr>
      else if a = ''--output'' then cfg\<lparr>cfg_csvOutput := v\<rparr>
      else cfg\<lparr>cfg_logLevel := (if v = ''verbose'' then VERBOSE
         else if v = ''standard'' then STANDARD else SUMMARY)\<rparr>)"

definition run_options ::
    "string \<Rightarrow> (string \<times> string option) list \<Rightarrow> SimConfig \<Rightarrow> (int \<times> string \<times> string) + SimConfig" where
  "run_options prog ts cfg =
     (case find fatal ts of Some t \<Rightarrow> Inl (exit_for prog t) | None \<Rightarrow> Inr (fold apply_option ts cfg))"

lemma run_options_simps [simp]:
  "run_options prog [] cfg = Inr cfg"
  "run_options prog (t # ts) cfg =
     (if fatal t then Inl (exit_for prog t) else run_options prog ts (apply_option t cfg))"
  by (simp_all add: run_options_def split: option.split)

lemma turn_none:
  assumes "rest = [] \<or> a \<notin> set value_options"
  shows "parse_turn prog a rest cfg =
    (if fatal (a, None) then (case exit_for prog (a, None) of (s, out, err) \<Rightarrow> Exit s out err)
     else Next 0 (apply_option (a, None) cfg))"
proof -
  consider "rest = []" | "a = ''--help''" | "a = ''--benchmark''" | "a = ''--abort-test''"
    | "a \<notin> set value_options" "a \<noteq> ''--help''" "a \<noteq> ''--benchmark''" "a \<noteq> ''--abort-test''"
    using assms by blast
  then show ?thesis by cases (simp_all add: parse_turn_def value_options_def)
qed

lemma turn_value:
  assumes "a \<in> set value_options"
  shows "parse_turn prog a (v # rest) cfg =
    (if fatal (a, Some v) then (case exit_for prog (a, Some v) of (s, out, err) \<Rightarrow> Exit s out err)
     else Next 1 (apply_option (a, Some v) cfg))"
proof -
  from assms have "a = ''--algo'' \<or> a = ''--readers'' \<or> a = ''--writers'' \<or> a = ''--ops''
      \<or> a = ''--starve'' \<or> a = ''--logfile'' \<or> a = ''--output'' \<or> a = ''--log''"
    unfolding value_options_def list.set insert_iff empty_iff by simp
  then show ?thesis by (elim disjE) (simp_all add: parse_turn_def)
qed

lemma parse_args_options: "parse_args prog args cfg = run_options prog (tokenise args) cfg"
proof (induction args arbitrary: cfg rule: tokenise.induct)
  case (2 a)
  then show ?case by (simp add: turn_none split: prod.splits)
next
  case (3 a v rest)
  then show ?case by (auto simp: turn_none turn_value split: prod.splits)
qed simp

section \<open>Properties\<close>

text \<open>
  C30: \<open>parseCLI\<close> on any command line: the first option that asks for help or has an unknown algorithm or
  log level decides, with status 0 and the usage text or status 1 and a message that quotes the value;
  without such an option the options are applied in order to the defaults.  Anything else, and an option
  whose value is missing, is ignored.
\<close>

theorem parseCLI_spec:
  "parseCLI prog args =
     (case find fatal (tokenise args) of
        Some t \<Rightarrow> Inl (exit_for prog t)
      | None \<Rightarrow> Inr (fold apply_option (tokenise args) default_SimConfig))"
  by (simp only: parseCLI_def parse_args_options run_options_def)

text \<open>A command line for a given configuration.\<close>

fun algo_arg :: "AlgoType \<Rightarrow> string" where
  "algo_arg READER_PRIORITY = ''rp''"
| "algo_arg WRITER_PRIORITY = ''wp''"
| "algo_arg FAIR_MORRIS = ''fa''"

fun level_arg :: "LogLevel \<Rightarrow> string" where
  "level_arg VERBOSE = ''verbose''"
| "level_arg STANDARD = ''standard''"
| "level_arg SUMMARY = ''summary''"

definition cli_args :: "SimConfig \<Rightarrow> string list" where
  "cli_args cfg =
     [''--algo'', algo_arg (cfg_algo cfg), ''--readers'', to_string (cfg_numReaders cfg),
      ''--writers'', to_string (cfg_numWriters cfg), ''--ops'', to_string (cfg_totalOps cfg),
      ''--log'', level_arg (cfg_logLevel cfg), ''--logfile'', cfg_logFile cfg,
      ''--starve'', to_string (cfg_starveThresholdMs cfg), ''--output'', cfg_csvOutput cfg]
     @ (if cfg_benchmarkMode cfg then [''--benchmark''] else [])
     @ (if cfg_enableAbortTest cfg then [''--abort-test''] else [])"

definition cli_settable :: "SimConfig \<Rightarrow> bool" where
  "cli_settable cfg \<longleftrightarrow>
     (\<forall>n \<in> {cfg_numReaders cfg, cfg_numWriters cfg, cfg_totalOps cfg, cfg_starveThresholdMs cfg}.
        - (2 ^ 31) \<le> n \<and> n < 2 ^ 31)
   \<and> cfg_readWorkMs cfg = READ_WORK_MS \<and> cfg_writeWorkMs cfg = WRITE_WORK_MS"

lemma tokenise_value [simp]:
  "a \<in> set value_options \<Longrightarrow> tokenise (a # v # rest) = (a, Some v) # tokenise rest"
  by simp

lemma tokenise_flag [simp]:
  "a \<notin> set value_options \<Longrightarrow> tokenise (a # rest) = (a, None) # tokenise rest"
  by (cases rest) simp_all

lemma value_option_simps:
  "''--algo'' \<in> set value_options" "''--readers'' \<in> set value_options" "''--writers'' \<in> set value_options"
  "''--ops'' \<in> set value_options" "''--log'' \<in> set value_options" "''--logfile'' \<in> set value_options"
  "''--starve'' \<in> set value_options" "''--output'' \<in> set value_options"
  "''--benchmark'' \<notin> set value_options" "''--abort-test'' \<notin> set value_options"
  by (simp_all add: value_options_def)

lemma args_not_fatal_enum:
  "\<not> fatal (''--algo'', Some (algo_arg a))" "\<not> fatal (''--log'', Some (level_arg l))"
  by (cases a; simp) (cases l; simp)

lemma args_not_fatal:
  "\<not> fatal (''--readers'', Some v)" "\<not> fatal (''--writers'', Some v)" "\<not> fatal (''--ops'', Some v)"
  "\<not> fatal (''--logfile'', Some v)" "\<not> fatal (''--starve'', Some v)" "\<not> fatal (''--output'', Some v)"
  "\<not> fatal (''--benchmark'', None)" "\<not> fatal (''--abort-test'', None)"
  by simp_all

lemma apply_args_enum:
  "apply_option (''--algo'', Some (algo_arg a)) cfg = cfg\<lparr>cfg_algo := a\<rparr>"
  "apply_option (''--log'', Some (level_arg l)) cfg = cfg\<lparr>cfg_logLevel := l\<rparr>"
  by (cases a; simp) (cases l; simp)

lemma apply_args:
  "apply_option (''--readers'', Some v) cfg = cfg\<lparr>cfg_numReaders := atoi v\<rparr>"
  "apply_option (''--writers'', Some v) cfg = cfg\<lparr>cfg_numWriters := atoi v\<rparr>"
  "apply_option (''--ops'', Some v) cfg = cfg\<lparr>cfg_totalOps := atoi v\<rparr>"
  "apply_option (''--logfile'', Some v) cfg = cfg\<lparr>cfg_logFile := v\<rparr>"
  "apply_option (''--starve'', Some v) cfg = cfg\<lparr>cfg_starveThresholdMs := atoi v\<rparr>"
  "apply_option (''--output'', Some v) cfg = cfg\<lparr>cfg_csvOutput := v\<rparr>"
  "apply_option (''--benchmark'', None) cfg = cfg\<lparr>cfg_benchmarkMode := True\<rparr>"
  "apply_option (''--abort-test'', None) cfg = cfg\<lparr>cfg_enableAbortTest := True\<rparr>"
  by simp_all

text \<open>
  C33: The command line can express every configuration: rendered as options and parsed again, a
  configuration with 32-bit numbers and the fixed work times is read back unchanged.
\<close>

theorem parseCLI_roundtrip:
  assumes "cli_settable cfg"
  shows "parseCLI prog (cli_args cfg) = Inr cfg"
  using assms
  by (cases cfg) (simp add: parseCLI_def parse_args_options cli_args_def value_option_simps args_not_fatal
      args_not_fatal_enum apply_args apply_args_enum atoi_to_string cli_settable_def default_SimConfig_def
      del: tokenise.simps(2,3) fatal.simps apply_option.simps)

lemma parseCLI_roundtrip_witness:
  "parseCLI ''sim'' (cli_args (default_SimConfig\<lparr>cfg_algo := FAIR_MORRIS, cfg_totalOps := - 7\<rparr>))
     = Inr (default_SimConfig\<lparr>cfg_algo := FAIR_MORRIS, cfg_totalOps := - 7\<rparr>)"
  by (rule parseCLI_roundtrip) (simp add: cli_settable_def default_SimConfig_def STARVE_MS_def)

text \<open>
  What \<open>main\<close> leaves behind.  A fatal option ends the process with its status and nothing else done.
  Otherwise the status is 0, the log file is closed, and the CSV file, if one was asked for and can be
  opened, has gained the result of the one simulation or the nine rows of the benchmark.
\<close>

lemma main_outcome:
  "let p = main_program sims logged can_log reason can_open prog args file;
       cfg = fold apply_option (tokenise args) default_SimConfig;
       rs = (if cfg_benchmarkMode cfg then cell_results sims cfg 0 cells else [sims 0 cfg])
   in case find fatal (tokenise args) of
        Some t \<Rightarrow> pr_status p = fst (exit_for prog t) \<and> pr_csv p = file \<and> pr_logger p = default_Logger
      | None \<Rightarrow> pr_status p = 0 \<and> lg_file (pr_logger p) = None
          \<and> pr_csv p = (if cfg_csvOutput cfg \<noteq> '''' \<and> can_open then export_all rs file else file)"
proof (cases "find fatal (tokenise args)")
  case (Some t)
  then show ?thesis
    by (cases "exit_for prog t")
       (simp add: main_program_def parseCLI_def parse_args_options run_options_def)
next
  case None
  define cfg where "cfg = fold apply_option (tokenise args) default_SimConfig"
  have "parseCLI prog args = Inr cfg"
    using None by (simp add: parseCLI_def parse_args_options run_options_def cfg_def)
  then show ?thesis
    unfolding cfg_def [symmetric] Let_def
    by (auto simp: None main_program_def Logger_shutdown_def Let_def runBenchmark_results
        runBenchmark_no_csv export_all_def exportCSV_def split: option.splits)
qed

end
