(* ===== verification/Lock_Spec.thy ===== *)
theory Lock_Spec
  imports Reader_Priority Writer_Priority Fair_Morris
begin

text \<open>
  What a readers-writers lock promises, as an object with four atomic operations that knows nothing of
  semaphores and mutexes (\<open>Lock_Histories\<close> proves that the three classes have exactly its histories), and what
  holds for several of the classes together: the inspection methods \<open>readerCount\<close> and \<open>writerActive\<close> report the
  state of the object up to the calls in progress, no method throws, and on the two semaphore locks every call
  returns once no new request starts, though both let one side starve while requests keep coming.
\<close>

section \<open>The object\<close>

text \<open>Who reads and who writes.\<close>

record rw_object =
  reading :: "tid set"
  writing :: "tid option"

datatype rw_operation = EnterRead tid | LeaveRead tid | EnterWrite tid | LeaveWrite tid

fun rw_object_do :: "rw_operation \<Rightarrow> rw_object \<Rightarrow> rw_object option" where
  "rw_object_do (EnterRead t) a =
     (if writing a = None \<and> t \<notin> reading a then Some (a\<lparr>reading := insert t (reading a)\<rparr>) else None)"
| "rw_object_do (LeaveRead t) a =
     (if t \<in> reading a then Some (a\<lparr>reading := reading a - {t}\<rparr>) else None)"
| "rw_object_do (EnterWrite t) a =
     (if writing a = None \<and> reading a = {} then Some (a\<lparr>writing := Some t\<rparr>) else None)"
| "rw_object_do (LeaveWrite t) a =
     (if writing a = Some t then Some (a\<lparr>writing := None\<rparr>) else None)"

definition rw_object_start :: rw_object where
  "rw_object_start = \<lparr>reading = {}, writing = None\<rparr>"

text \<open>Which state of the object a state of a lock stands for.\<close>

definition stands_for :: "('l, 'p) lsys \<Rightarrow> rw_object \<Rightarrow> bool" where
  "stands_for s a \<longleftrightarrow> reading a = {t. phase s t = Reading} \<and> (\<forall>t. writing a = Some t \<longleftrightarrow> phase s t = Writing)"

lemma stands_for_start: "stands_for (lock_start l0) rw_object_start"
  by (simp add: stands_for_def lock_start_def rw_object_start_def)

lemma stands_for_same:
  assumes "stands_for s a" and "\<And>t. phase s' t = Reading \<longleftrightarrow> phase s t = Reading"
    and "\<And>t. phase s' t = Writing \<longleftrightarrow> phase s t = Writing"
  shows "stands_for s' a"
  using assms by (simp add: stands_for_def)

section \<open>The inspection methods\<close>

definition in_read_call :: "'p phase \<Rightarrow> bool" where
  "in_read_call x \<longleftrightarrow> (\<exists>p. x = InReadLock p \<or> x = InReadUnlock p)"

definition in_write_call :: "'p phase \<Rightarrow> bool" where
  "in_write_call x \<longleftrightarrow> (\<exists>p. x = InWriteLock p \<or> x = InWriteUnlock p)"

text \<open>The inspection methods are exact up to the calls in progress.\<close>

definition reports_holders :: "('l, 'p) RWLockBase \<Rightarrow> 'l \<Rightarrow> bool" where
  "reports_holders L l0 \<longleftrightarrow>
     (\<forall>s a. reachable (lock_start l0) (lock_step L) s \<longrightarrow> stands_for s a \<longrightarrow>
        int (card (reading a)) \<le> readerCount L (shared s)
      \<and> readerCount L (shared s) \<le> int (card (reading a \<union> {t. in_read_call (phase s t)}))
      \<and> (writing a \<noteq> None \<longrightarrow> writerActive L (shared s))
      \<and> (writerActive L (shared s) \<longrightarrow> writing a \<noteq> None \<or> (\<exists>t. in_write_call (phase s t))))"

text \<open>
  A lock whose two inspection methods count threads: \<open>counted\<close> and \<open>flagged\<close> are the phases in which a
  thread has been added to the reader count, or has set the writer flag.
\<close>

locale inspected_lock = rw_lock L l0 inv
  for L :: "('l, 'p) RWLockBase" and l0 and inv +
  fixes counted flagged :: "'p phase \<Rightarrow> bool"
  assumes counts: "inv l ph \<Longrightarrow> readerCount L l = int (tcount counted ph)
        \<and> of_bool (writerActive L l) = int (tcount flagged ph)"
    and counted_at: "counted Reading" "counted x \<Longrightarrow> x = Reading \<or> in_read_call x"
    and flagged_at: "flagged Writing" "flagged x \<Longrightarrow> x = Writing \<or> in_write_call x"
begin

lemma reports: "reports_holders L l0"
  unfolding reports_holders_def
proof (intro allI impI)
  fix s :: "('l, 'p) lsys" and a
  assume r: "reachable (lock_start l0) (lock_step L) s" and rel: "stands_for s a"
  have inv: "inv (shared s) (phase s)" by (rule inv_reachable [OF r])
  note fin = inv_fin [OF inv]
  have count: "readerCount L (shared s) = int (tcount counted (phase s))"
    "of_bool (writerActive L (shared s)) = int (tcount flagged (phase s))"
    using counts [OF inv] by simp_all
  have calls: "\<not> in_read_call (Outside :: 'p phase)" by (simp add: in_read_call_def)
  have "card (reading a) \<le> tcount counted (phase s)"
    using card_phases_le(1) [OF fin, of "\<lambda>x. x = Reading" counted] counted_at rel calls
    by (auto simp: stands_for_def)
  moreover have "tcount counted (phase s) \<le> card (reading a \<union> {t. in_read_call (phase s t)})"
  proof -
    have "tcount counted (phase s) \<le> card {t. phase s t = Reading \<or> in_read_call (phase s t)}"
      by (rule card_phases_le(2) [OF fin]) (use counted_at(2) calls in auto)
    also have "{t. phase s t = Reading \<or> in_read_call (phase s t)} = reading a \<union> {t. in_read_call (phase s t)}"
      using rel by (auto simp: stands_for_def)
    finally show ?thesis .
  qed
  moreover have "writerActive L (shared s)" if writer: "writing a \<noteq> None"
  proof -
    obtain t where "phase s t = Writing" using writer rel by (auto simp: stands_for_def)
    then have "flagged (phase s t)" using flagged_at(1) by simp
    moreover have "\<not> flagged (Outside :: 'p phase)" using flagged_at(2) [of Outside] by (auto simp: in_write_call_def)
    ultimately have "1 \<le> tcount flagged (phase s)" using tcount_pos [OF fin] by blast
    then show ?thesis using count(2) by (cases "writerActive L (shared s)") auto
  qed
  moreover have "writing a \<noteq> None \<or> (\<exists>t. in_write_call (phase s t))" if "writerActive L (shared s)"
  proof -
    have "1 \<le> tcount flagged (phase s)" using that count(2) by simp
    then obtain t where "flagged (phase s t)" by (rule tcount_obtain)
    then show ?thesis using flagged_at(2) [of "phase s t"] rel by (auto simp: stands_for_def)
  qed
  ultimately show "int (card (reading a)) \<le> readerCount L (shared s)
      \<and> readerCount L (shared s) \<le> int (card (reading a \<union> {t. in_read_call (phase s t)}))
      \<and> (writing a \<noteq> None \<longrightarrow> writerActive L (shared s))
      \<and> (writerActive L (shared s) \<longrightarrow> writing a \<noteq> None \<or> (\<exists>t. in_write_call (phase s t)))"
    using count(1) by auto
qed

end

interpretation rp_seen: inspected_lock rp_class ReaderPriorityLock rp_inv rp_counted rp_flagged
proof unfold_locales
  show "rp_counted x \<Longrightarrow> x = Reading \<or> in_read_call x" "rp_flagged x \<Longrightarrow> x = Writing \<or> in_write_call x" for x
    by (cases x rule: rp_counted.cases; simp add: in_read_call_def)
       (cases x rule: rp_flagged.cases; simp add: in_write_call_def)
qed (use rp_inv_facts(6,7) in auto)

interpretation wp_seen: inspected_lock wp_class WriterPriorityLock wp_inv wp_rcounted wp_flagged
proof unfold_locales
  show "wp_rcounted x \<Longrightarrow> x = Reading \<or> in_read_call x" "wp_flagged x \<Longrightarrow> x = Writing \<or> in_write_call x" for x
    by (cases x; simp add: wp_rcounted_def in_read_call_def)
       (cases x; simp add: wp_flagged_def in_write_call_def)
qed (use wp_inv_facts(6,10) in \<open>auto simp: wp_rcounted_def wp_flagged_def\<close>)

interpretation fa_seen: inspected_lock fa_class FairMorrisLock fa_inv fa_ractive fa_wactive
proof unfold_locales
  show "fa_ractive x \<Longrightarrow> x = Reading \<or> in_read_call x" "fa_wactive x \<Longrightarrow> x = Writing \<or> in_write_call x" for x
    by (cases x; simp add: fa_ractive_def in_read_call_def)
       (cases x; simp add: fa_wactive_def in_write_call_def)
qed (use fa_inv_counts(1,2) in \<open>auto simp: fa_ractive_def fa_wactive_def\<close>)

section \<open>Properties\<close>

text \<open>
  C25: \<open>readerCount()\<close> and \<open>writerActive()\<close> of the three classes are exact up to the calls in progress:
  \<open>readerCount()\<close> lies between the number of readers and that number plus the read calls in progress,
  \<open>writerActive()\<close> is true while somebody writes, and true only while somebody writes or is in a write call;
  without calls in progress both are exact.
\<close>

theorem locks_report_holders:
  "reports_holders rp_class ReaderPriorityLock \<and> reports_holders wp_class WriterPriorityLock
     \<and> reports_holders fa_class FairMorrisLock"
  using rp_seen.reports wp_seen.reports fa_seen.reports by blast

text \<open>No method throws, and the named semaphores never hold more than one unit.\<close>

definition throws_never :: "('l, 'p) RWLockBase \<Rightarrow> 'l \<Rightarrow> ('l \<Rightarrow> Semaphore list) \<Rightarrow> bool" where
  "throws_never L l0 sems \<longleftrightarrow> (\<forall>s t w e. reachable (lock_start l0) (lock_step L) s \<longrightarrow>
     advance L t w s \<noteq> Threw e \<and> (\<forall>m \<in> set (sems (shared s)). sem_count m \<le> 1))"

definition calls_return :: "('l, 'p) RWLockBase \<Rightarrow> 'l \<Rightarrow> nat \<Rightarrow> bool" where
  "calls_return L l0 b \<longleftrightarrow> (\<forall>s es s'. reachable (lock_start l0) (lock_step L) s \<longrightarrow> sched_run L es s = Done s' \<longrightarrow>
     (\<forall>e \<in> set es. \<not> starts_request e) \<longrightarrow>
       length es \<le> b * card {t. phase s t \<noteq> Outside}
     \<and> ((\<exists>t. phase s' t \<noteq> Outside) \<longrightarrow> (\<exists>e s''. \<not> starts_request e \<and> sched_do L e s' = Done s'')))"

text \<open>
  C29: No method of any of the three classes throws, whatever the interleaving: no \<open>sem_post\<close> overflows, no
  semaphore is used after its destruction.  The two semaphores of \<open>ReaderPriorityLock\<close> and the five of
  \<open>WriterPriorityLock\<close> stay binary.
\<close>

theorem locks_never_throw:
  "throws_never rp_class ReaderPriorityLock (\<lambda>l. [rp_mutex l, rp_wrt l])
     \<and> throws_never wp_class WriterPriorityLock
         (\<lambda>l. [wp_mutex1 l, wp_mutex2 l, wp_readTry l, wp_rsem l, wp_wrt l])
     \<and> throws_never fa_class FairMorrisLock (\<lambda>l. [])"
  using rp_never_throws wp_never_throws fa.never_throws by (simp add: throws_never_def)

text \<open>
  C24: The calls in progress on the two semaphore locks return if no further request starts.  From any
  reachable state, every interleaving without a new \<open>readLock\<close> or \<open>writeLock\<close> call has at most 12 (for writer
  priority 16) actions per thread that is not outside, and it can only stop when all threads are outside: there
  is no deadlock and no endless retry.  The condition is needed: while new requests keep coming a call can be
  kept waiting for any number of rounds, as the next property shows.
\<close>

theorem semaphore_locks_return:
  "calls_return rp_class ReaderPriorityLock 12 \<and> calls_return wp_class WriterPriorityLock 16"
  unfolding calls_return_def using rp_calls_finish wp_calls_finish by blast

text \<open>
  C34: Both semaphore locks let the other side starve: for every \<open>n\<close> there is an interleaving in which a writer
  sleeps in \<open>wrt_.wait()\<close> throughout \<open>2 * n\<close> later read acquisitions of \<open>ReaderPriorityLock\<close>, and one in which a
  reader sleeps in \<open>rsem_.wait()\<close> throughout \<open>2 * n\<close> writes under \<open>WriterPriorityLock\<close>; neither can move at the end.
\<close>

theorem semaphore_locks_starve:
  "(\<exists>s. sched_run rp_class (rp_starve n) (lock_start ReaderPriorityLock) = Done s
     \<and> phase s 1 = InWriteLock WL_wrt_wait \<and> advance rp_class 1 w s = Blocked
     \<and> length (filter (\<lambda>e. \<exists>t. e = CallReadLock t) (rp_starve n)) = 2 * n + 1)
   \<and> (\<exists>s. sched_run wp_class (wp_starve n) (lock_start WriterPriorityLock) = Done s
     \<and> phase s 1 = InReadLock WpRL_rsem_wait \<and> advance wp_class 1 w s = Blocked
     \<and> length (filter (\<lambda>e. \<exists>t. e = CallWriteUnlock t) (wp_starve n)) = 2 * n)"
  using rp_writer_starves wp_reader_starves by blast

end
