(* ===== verification/Lock_Histories.thy ===== *)
theory Lock_Histories
  imports Lock_Spec
begin

text \<open>
  The histories of the three locks.  What a client of a lock can observe is when threads enter and leave,
  as readers or as writers: a thread enters with the action in which its lock call returns and leaves with the
  call of its unlock method.  The histories of each class are exactly those of the object of \<open>Lock_Spec\<close>: a
  lock allows nothing the object forbids (it is safe), and forbids nothing the object allows (it lets readers
  share, and gives back all it took).
\<close>

section \<open>Histories\<close>

fun event_thread :: "sched_event \<Rightarrow> tid" where
  "event_thread (CallReadLock t) = t"
| "event_thread (CallReadUnlock t) = t"
| "event_thread (CallWriteLock t) = t"
| "event_thread (CallWriteUnlock t) = t"
| "event_thread (Act t) = t"
| "event_thread (ActWake t u) = t"
| "event_thread (ActSpurious t) = t"

fun operation_thread :: "rw_operation \<Rightarrow> tid" where
  "operation_thread (EnterRead t) = t"
| "operation_thread (LeaveRead t) = t"
| "operation_thread (EnterWrite t) = t"
| "operation_thread (LeaveWrite t) = t"

text \<open>What a client sees of a move of thread \<open>t\<close> from one phase to another.\<close>

definition observed :: "tid \<Rightarrow> 'p phase \<Rightarrow> 'p phase \<Rightarrow> rw_operation list" where
  "observed t x y =
     (if x = Reading then [LeaveRead t] else []) @ (if x = Writing then [LeaveWrite t] else [])
     @ (if y = Reading then [EnterRead t] else []) @ (if y = Writing then [EnterWrite t] else [])"

definition seen :: "sched_event \<Rightarrow> ('l, 'p) lsys \<Rightarrow> ('l, 'p) lsys \<Rightarrow> rw_operation list" where
  "seen e s s' = observed (event_thread e) (phase s (event_thread e)) (phase s' (event_thread e))"

text \<open>
  The states a lock can reach under any number of threads, with the history that led there.  As in
  \<open>lock_step\<close>, everything that is not the lock may change at any time.
\<close>

inductive lock_history ::
    "('l, 'p) RWLockBase \<Rightarrow> 'l \<Rightarrow> rw_operation list \<Rightarrow> ('l, 'p) lsys \<Rightarrow> bool" for L l0 where
  begins: "lock_history L l0 [] (lock_start l0)"
| event: "lock_history L l0 h s \<Longrightarrow> sched_do L e s = Done s' \<Longrightarrow> lock_history L l0 (h @ seen e s s') s'"
| around: "lock_history L l0 h s \<Longrightarrow>
     lock_history L l0 h (s\<lparr>infos := i, logger := g, now := n, later := n'\<rparr>)"

text \<open>The history a schedule adds.\<close>

fun sched_history :: "('l, 'p) RWLockBase \<Rightarrow> sched_event list \<Rightarrow> ('l, 'p) lsys \<Rightarrow> rw_operation list" where
  "sched_history L [] s = []"
| "sched_history L (e # es) s =
     (case sched_do L e s of Done s' \<Rightarrow> seen e s s' @ sched_history L es s' | _ \<Rightarrow> [])"

fun rw_object_run :: "rw_operation list \<Rightarrow> rw_object \<Rightarrow> rw_object option" where
  "rw_object_run [] a = Some a"
| "rw_object_run (e # h) a = (case rw_object_do e a of Some b \<Rightarrow> rw_object_run h b | None \<Rightarrow> None)"

text \<open>The histories are those of the reachable states of \<open>lock_step\<close>.\<close>

lemma lock_history_reachable: "lock_history L l0 h s \<Longrightarrow> reachable (lock_start l0) (lock_step L) s"
  by (induction rule: lock_history.induct)
     (auto intro: reachable_init reachable_step sched_do_step lock_step.other)

lemma lock_step_event:
  assumes "lock_step L s s'"
  obtains e where "sched_do L e s = Done s'"
  | i g n n' where "s' = s\<lparr>infos := i, logger := g, now := n, later := n'\<rparr>"
  using assms
proof (cases rule: lock_step.cases)
  case (call_readLock t)
  then show ?thesis by (intro that(1) [of "CallReadLock t"]) simp
next
  case (call_readUnlock t)
  then show ?thesis by (intro that(1) [of "CallReadUnlock t"]) simp
next
  case (call_writeLock t)
  then show ?thesis by (intro that(1) [of "CallWriteLock t"]) simp
next
  case (call_writeUnlock t)
  then show ?thesis by (intro that(1) [of "CallWriteUnlock t"]) simp
next
  case (run t w)
  then show ?thesis using sched_advance that(1) by blast
next
  case (other i g n n')
  then show ?thesis by (rule that(2))
qed

lemma reachable_lock_history: "reachable (lock_start l0) (lock_step L) s \<Longrightarrow> \<exists>h. lock_history L l0 h s"
proof (induction rule: reachable.induct)
  case (reachable_step s s')
  from reachable_step(2) show ?case
    by (cases rule: lock_step_event) (use reachable_step(3) in \<open>auto intro: event around\<close>)
qed (auto intro: begins)

lemma rw_object_run_append:
  "rw_object_run (h @ k) a = (case rw_object_run h a of Some b \<Rightarrow> rw_object_run k b | None \<Rightarrow> None)"
  by (induction h arbitrary: a) (auto split: option.splits)

text \<open>The object is a readers-writers lock.\<close>

lemma rw_object_safe:
  "rw_object_run h rw_object_start = Some a \<Longrightarrow> writing a = None \<or> reading a = {}"
proof (induction h arbitrary: a rule: rev_induct)
  case (snoc e h)
  then obtain b where "rw_object_run h rw_object_start = Some b" "rw_object_do e b = Some a"
    by (auto simp: rw_object_run_append split: option.splits)
  with snoc.IH [of b] show ?case by (cases e) (auto split: if_splits)
qed (simp add: rw_object_start_def)

lemma lock_history_run:
  "lock_history L l0 h s \<Longrightarrow> sched_run L es s = Done s' \<Longrightarrow> lock_history L l0 (h @ sched_history L es s) s'"
proof (induction es arbitrary: h s)
  case (Cons e es)
  then obtain s1 where "sched_do L e s = Done s1" "sched_run L es s1 = Done s'" by (auto simp: outcome_simps)
  with Cons.IH [OF event [OF Cons.prems(1)]] show ?case by simp
qed simp

section \<open>Safety: every history of a lock is one of the object\<close>

lemma sched_do_phase:
  assumes "sched_do L e s = Done s'"
  shows "phase s' = (phase s)(event_thread e := phase s' (event_thread e))"
    and "phase s (event_thread e) = Reading \<or> phase s (event_thread e) = Writing \<Longrightarrow>
      phase s' (event_thread e) \<noteq> Reading \<and> phase s' (event_thread e) \<noteq> Writing"
proof -
  have act: "phase s' = (phase s)(t := phase s' t) \<and> phase s t \<noteq> Reading \<and> phase s t \<noteq> Writing"
    if "advance L t w s = Done s'" for t w
    using that by (cases rule: advance_cases) simp_all
  show "phase s' = (phase s)(event_thread e := phase s' (event_thread e))"
    using assms act by (cases e) (auto split: phase.splits)
  show "phase s (event_thread e) = Reading \<or> phase s (event_thread e) = Writing \<Longrightarrow>
      phase s' (event_thread e) \<noteq> Reading \<and> phase s' (event_thread e) \<noteq> Writing"
    using assms act by (cases e) (auto split: phase.splits)
qed

text \<open>One thread moves: the object takes the operations its old and new phase show.\<close>

lemma object_moves:
  assumes rel: "stands_for s a" and ph: "phase s' = (phase s)(t := x)"
    and excl: "\<And>t u. phase s' t = Writing \<Longrightarrow> u \<noteq> t \<Longrightarrow> phase s' u \<noteq> Writing \<and> phase s' u \<noteq> Reading"
    and outside: "phase s t = Reading \<or> phase s t = Writing \<Longrightarrow> x \<noteq> Reading \<and> x \<noteq> Writing"
  shows "\<exists>b. rw_object_run (observed t (phase s t) x) a = Some b \<and> stands_for s' b"
proof -
  have a: "reading a = {t. phase s t = Reading}" "\<And>u. writing a = Some u \<longleftrightarrow> phase s u = Writing"
    using rel by (simp_all add: stands_for_def)
  have others: "u \<noteq> t \<Longrightarrow> phase s' u = phase s u" for u by (simp add: ph)
  have at: "phase s' t = x" by (simp add: ph)
  consider (in_read) "x = Reading" "phase s t \<noteq> Reading" "phase s t \<noteq> Writing"
    | (in_write) "x = Writing" "phase s t \<noteq> Reading" "phase s t \<noteq> Writing"
    | (out_read) "phase s t = Reading" "x \<noteq> Reading" "x \<noteq> Writing"
    | (out_write) "phase s t = Writing" "x \<noteq> Reading" "x \<noteq> Writing"
    | (silent) "x \<noteq> Reading" "x \<noteq> Writing" "phase s t \<noteq> Reading" "phase s t \<noteq> Writing"
    using outside by blast
  then show ?thesis
  proof cases
    case in_read
    have "phase s u \<noteq> Writing" for u
      using excl [of u t] in_read at others [of u] by (cases "u = t") auto
    then have "writing a = None" using a(2) by (metis not_Some_eq)
    then show ?thesis using a in_read ph by (auto simp: observed_def stands_for_def)
  next
    case in_write
    have none: "phase s u \<noteq> Writing \<and> phase s u \<noteq> Reading" for u
      using excl [of t u] in_write at others [of u] by (cases "u = t") auto
    then have "writing a = None" "reading a = {}" using a by (metis not_Some_eq, simp)
    then show ?thesis using a in_write ph none by (auto simp: observed_def stands_for_def)
  next
    case out_read
    then show ?thesis using a ph by (auto simp: observed_def stands_for_def)
  next
    case out_write
    then have w: "writing a = Some t" using a(2) by simp
    have "phase s u = Writing \<longleftrightarrow> u = t" for u using a(2) [of u] w by auto
    then show ?thesis using a(1) out_write ph w by (auto simp: observed_def stands_for_def)
  next
    case silent
    then have "stands_for s' a" using rel ph by (intro stands_for_same [OF rel]) auto
    with silent show ?thesis by (simp add: observed_def)
  qed
qed

context rw_lock
begin

lemma history_allowed:
  "lock_history L l0 h s \<Longrightarrow> \<exists>a. rw_object_run h rw_object_start = Some a \<and> stands_for s a"
proof (induction rule: lock_history.induct)
  case begins
  show ?case using stands_for_start by auto
next
  case (event h s e s')
  then obtain a where a: "rw_object_run h rw_object_start = Some a" "stands_for s a" by blast
  note excl = mutual_exclusion [OF lock_history_reachable [OF lock_history.event [OF event(1,2)]]]
  have "\<exists>b. rw_object_run (seen e s s') a = Some b \<and> stands_for s' b"
    unfolding seen_def
    by (rule object_moves [OF a(2) sched_do_phase(1) [OF event(2)]])
      (use excl sched_do_phase(2) [OF event(2)] in blast)+
  then show ?case using a(1) by (auto simp: rw_object_run_append)
next
  case (around h s i g n n')
  then show ?case by (auto simp: stands_for_def)
qed

end

section \<open>Completeness: every history of the object is one of the lock\<close>

text \<open>No call is in progress.\<close>

definition calm :: "('l, 'p) lsys \<Rightarrow> bool" where
  "calm s \<longleftrightarrow> (\<forall>t. \<not> in_call (phase s t))"

text \<open>The call that makes an operation of the object happen, and the phase it leads to.\<close>

fun call_for :: "rw_operation \<Rightarrow> sched_event" where
  "call_for (EnterRead t) = CallReadLock t"
| "call_for (LeaveRead t) = CallReadUnlock t"
| "call_for (EnterWrite t) = CallWriteLock t"
| "call_for (LeaveWrite t) = CallWriteUnlock t"

fun phase_after :: "rw_operation \<Rightarrow> 'p phase" where
  "phase_after (EnterRead t) = Reading"
| "phase_after (EnterWrite t) = Writing"
| "phase_after _ = Outside"

text \<open>One call and \<open>n\<close> actions of the same thread, with no other thread moving.\<close>

definition alone :: "rw_operation \<Rightarrow> nat \<Rightarrow> sched_event list" where
  "alone e n = call_for e # replicate n (Act (operation_thread e))"

definition serves :: "('l, 'p) RWLockBase \<Rightarrow> ('l, 'p) lsys \<Rightarrow> rw_operation \<Rightarrow> nat \<Rightarrow> bool" where
  "serves L s e n \<longleftrightarrow> (\<exists>s'. sched_run L (alone e n) s = Done s' \<and> sched_history L (alone e n) s = [e]
     \<and> phase s' = (phase s)(operation_thread e := phase_after e))"

lemma calm_outside: "(\<And>u. phase s u = Outside) \<Longrightarrow> calm s"
  by (simp add: calm_def)

lemma calm_count:
  assumes "calm s" and "fin_support Outside (phase s)" and "\<And>x. P x \<Longrightarrow> in_call x"
  shows "tcount P (phase s) = 0"
  using tcount_eq_0 [OF assms(2), of P] assms(1,3) in_call_simps(1) unfolding calm_def by metis

lemma idle_count:
  assumes "calm s" and "fin_support Outside (phase s)" and "\<And>x. P x \<Longrightarrow> in_call x \<or> x = y"
    and "\<not> P Outside" and "\<And>u. phase s u \<noteq> y"
  shows "tcount P (phase s) = 0"
  using tcount_eq_0 [OF assms(2), of P] assms(1,3-5) unfolding calm_def by metis

text \<open>
  A lock that serves: when no call is in progress, a thread that may enter does so by its own actions, in
  \<open>re\<close> of them for a reader and \<open>we\<close> for a writer, and a thread that is in leaves by its own actions, in \<open>rl\<close> or
  \<open>wl\<close> of them.
\<close>

locale serving_lock = rw_lock L l0 inv
  for L :: "('l, 'p) RWLockBase" and l0 and inv +
  fixes re rl we wl :: nat
  assumes enter_read: "inv (shared s) (phase s) \<Longrightarrow> calm s \<Longrightarrow> phase s t = Outside \<Longrightarrow>
        (\<And>u. phase s u \<noteq> Writing) \<Longrightarrow> serves L s (EnterRead t) re"
    and leave_read: "inv (shared s) (phase s) \<Longrightarrow> calm s \<Longrightarrow> phase s t = Reading \<Longrightarrow>
        serves L s (LeaveRead t) rl"
    and enter_write: "inv (shared s) (phase s) \<Longrightarrow> (\<And>u. phase s u = Outside) \<Longrightarrow> serves L s (EnterWrite t) we"
    and leave_write: "inv (shared s) (phase s) \<Longrightarrow> calm s \<Longrightarrow> phase s t = Writing \<Longrightarrow>
        serves L s (LeaveWrite t) wl"


text \<open>
  The two halves of the promise.  The histories of the lock are those of the object.  And whenever no call is in
  progress, whatever the threads did before, every operation the object allows is carried out by its own thread
  alone.
\<close>

definition exact_histories :: "('l, 'p) RWLockBase \<Rightarrow> 'l \<Rightarrow> bool" where
  "exact_histories L l0 \<longleftrightarrow>
     (\<forall>h. (\<exists>s. lock_history L l0 h s) \<longleftrightarrow> rw_object_run h rw_object_start \<noteq> None)"

definition serves_when_calm :: "('l, 'p) RWLockBase \<Rightarrow> 'l \<Rightarrow> bool" where
  "serves_when_calm L l0 \<longleftrightarrow>
     (\<forall>h s a e b. lock_history L l0 h s \<longrightarrow> calm s \<longrightarrow>
        rw_object_run h rw_object_start = Some a \<longrightarrow> rw_object_do e a = Some b \<longrightarrow>
        (\<exists>n \<le> 10. \<exists>s'. sched_run L (alone e n) s = Done s' \<and> calm s'
           \<and> lock_history L l0 (h @ [e]) s' \<and> stands_for s' b))"

context serving_lock
begin

lemma served:
  assumes hist: "lock_history L l0 h s" and calm: "calm s"
    and a: "rw_object_run h rw_object_start = Some a" and b: "rw_object_do e a = Some b"
  shows "\<exists>n \<in> {re, rl, we, wl}. \<exists>s'. sched_run L (alone e n) s = Done s' \<and> calm s'
     \<and> lock_history L l0 (h @ [e]) s' \<and> stands_for s' b"
proof -
  have inv: "inv (shared s) (phase s)" by (rule inv_reachable [OF lock_history_reachable [OF hist]])
  have rel: "stands_for s a" using history_allowed [OF hist] a by auto
  then have rd: "t \<in> reading a \<longleftrightarrow> phase s t = Reading" and wr: "writing a = Some t \<longleftrightarrow> phase s t = Writing"
    for t by (simp_all add: stands_for_def)
  have place: "phase s t = Outside \<or> phase s t = Reading \<or> phase s t = Writing" for t
    using calm by (auto simp: calm_def in_call_def)
  have "\<exists>n \<in> {re, rl, we, wl}. serves L s e n"
  proof (cases e)
    case (EnterRead t)
    then have "writing a = None" "t \<notin> reading a" using b by (simp_all split: if_splits)
    then show ?thesis unfolding EnterRead
      using enter_read [OF inv calm, of t] rd [of t] wr place [of t] by (metis insertCI option.distinct(1))
  next
    case (LeaveRead t)
    then show ?thesis using leave_read [OF inv calm, of t] b rd [of t] by (auto split: if_splits)
  next
    case (EnterWrite t)
    then have "writing a = None" "reading a = {}" using b by (simp_all split: if_splits)
    then have "phase s u = Outside" for u using place [of u] rd [of u] wr [of u] by auto
    then show ?thesis using enter_write [OF inv, of t] EnterWrite by blast
  next
    case (LeaveWrite t)
    then show ?thesis using leave_write [OF inv calm, of t] b wr [of t] by (auto split: if_splits)
  qed
  then obtain n s' where n: "n \<in> {re, rl, we, wl}" and s': "sched_run L (alone e n) s = Done s'"
    "sched_history L (alone e n) s = [e]" "phase s' = (phase s)(operation_thread e := phase_after e)"
    unfolding serves_def by blast
  have hist': "lock_history L l0 (h @ [e]) s'" using lock_history_run [OF hist s'(1)] s'(2) by simp
  then have "stands_for s' b" using history_allowed [OF hist'] a b by (auto simp: rw_object_run_append)
  moreover have "calm s'" using calm s'(3) by (cases e) (auto simp: calm_def)
  ultimately show ?thesis using n s'(1) hist' by blast
qed

lemma complete:
  "rw_object_run h rw_object_start = Some a \<Longrightarrow> \<exists>s. lock_history L l0 h s \<and> calm s"
proof (induction h arbitrary: a rule: rev_induct)
  case Nil
  have "calm (lock_start l0 :: ('l, 'p) lsys)" by (rule calm_outside) (simp add: lock_start_def)
  then show ?case by (intro exI [of _ "lock_start l0"] conjI lock_history.begins)
next
  case (snoc e h)
  then obtain a1 where a1: "rw_object_run h rw_object_start = Some a1" "rw_object_do e a1 = Some a"
    by (auto simp: rw_object_run_append split: option.splits)
  then show ?case using snoc.IH served by blast
qed

lemma exact: "exact_histories L l0"
  unfolding exact_histories_def using complete history_allowed by (metis not_Some_eq)

lemma serves_calm: "re \<le> 10 \<Longrightarrow> rl \<le> 10 \<Longrightarrow> we \<le> 10 \<Longrightarrow> wl \<le> 10 \<Longrightarrow> serves_when_calm L l0"
  unfolding serves_when_calm_def using served by blast

end

lemma some_actions:
  "replicate 3 e = [e, e, e]" "replicate 4 e = [e, e, e, e]" "replicate 5 e = [e, e, e, e, e]"
  "replicate 6 e = [e, e, e, e, e, e]" "replicate 7 e = [e, e, e, e, e, e, e]"
  "replicate 8 e = [e, e, e, e, e, e, e, e]" "replicate 10 e = [e, e, e, e, e, e, e, e, e, e]"
  by (simp_all add: eval_nat_numeral)

lemmas serves_simps = serves_def alone_def some_actions seen_def observed_def

lemma rp_calm:
  assumes inv: "rp_inv (shared s) (phase s)" and calm: "calm s"
  shows "sem_count (rp_mutex (shared s)) = 1"
    and "(\<And>u. phase s u \<noteq> Writing) \<Longrightarrow> sem_count (rp_wrt (shared s)) = (if 0 < rp_readCount (shared s) then 0 else 1)"
    and "phase s t = Writing \<Longrightarrow> sem_count (rp_wrt (shared s)) = 0 \<and> rp_readCount (shared s) = 0"
proof -
  note fin = rp_inv_facts(3) [OF inv]
  have "rp_in_mutex x \<Longrightarrow> in_call x" for x by (cases x rule: rp_in_mutex.cases) auto
  then have m: "tcount rp_in_mutex (phase s) = 0" by (rule calm_count [OF calm fin])
  then show "sem_count (rp_mutex (shared s)) = 1" using rp_inv_facts(4) [OF inv] by simp
  have "rp_first x \<Longrightarrow> in_call x" for x by (cases x rule: rp_first.cases) auto
  then have f: "tcount rp_first (phase s) = 0" by (rule calm_count [OF calm fin])
  have "rp_last x \<Longrightarrow> in_call x" for x by (cases x rule: rp_last.cases) auto
  then have l: "tcount rp_last (phase s) = 0" by (rule calm_count [OF calm fin])
  have o: "rp_owner x \<Longrightarrow> in_call x \<or> x = Writing" for x by (cases x rule: rp_owner.cases) auto
  show "sem_count (rp_wrt (shared s)) = (if 0 < rp_readCount (shared s) then 0 else 1)"
    if "\<And>u. phase s u \<noteq> Writing"
    using idle_count [OF calm fin o _ that] rp_inv_facts(5) [OF inv] f l by (auto simp: of_bool_def split: if_splits)
  show "sem_count (rp_wrt (shared s)) = 0 \<and> rp_readCount (shared s) = 0" if "phase s t = Writing"
  proof -
    have "1 \<le> tcount rp_owner (phase s)" using tcount_pos [OF fin, of rp_owner t] that by simp
    then show ?thesis using rp_inv_facts(5) [OF inv] f l rp_readCount_nonneg [OF inv]
      by (auto simp: of_bool_def split: if_splits)
  qed
qed

lemma rp_serves:
  assumes inv: "rp_inv (shared s) (phase s)" and calm: "calm s"
  shows "phase s t = Outside \<Longrightarrow> (\<And>u. phase s u \<noteq> Writing) \<Longrightarrow> serves rp_class s (EnterRead t) 6"
    and "phase s t = Reading \<Longrightarrow> serves rp_class s (LeaveRead t) 5"
    and "(\<And>u. phase s u = Outside) \<Longrightarrow> serves rp_class s (EnterWrite t) 4"
    and "phase s t = Writing \<Longrightarrow> serves rp_class s (LeaveWrite t) 3"
proof -
  note live = rp_inv_facts(1,2) [OF inv] and mutex = rp_calm(1) [OF inv calm]
  note n = rp_readCount_nonneg [OF inv]
  show "serves rp_class s (EnterRead t) 6" if "phase s t = Outside" "\<And>u. phase s u \<noteq> Writing"
    using that(1) rp_calm(2) [OF inv calm that(2)] live mutex n
    by (cases "rp_readCount (shared s) = 0") (simp_all add: serves_simps rp_run_simps)
  show "serves rp_class s (LeaveRead t) 5" if t: "phase s t = Reading"
  proof -
    have "phase s u \<noteq> Writing" for u using rp_excl [OF inv, of u t] t by (cases "u = t") auto
    moreover have "1 \<le> rp_readCount (shared s)" using rp_counted_pos [OF inv, of t] t by simp
    ultimately show ?thesis using t rp_calm(2) [OF inv calm] live mutex
      by (cases "rp_readCount (shared s) = 1") (simp_all add: serves_simps rp_run_simps)
  qed
  show "serves rp_class s (EnterWrite t) 4" if "\<And>u. phase s u = Outside"
  proof -
    have "tcount rp_counted (phase s) = 0"
      using tcount_eq_0 [OF rp_inv_facts(3) [OF inv], of rp_counted] that by simp
    then have "rp_readCount (shared s) = 0" using rp_inv_facts(7) [OF inv] by simp
    then show ?thesis using that rp_calm(2) [OF inv calm] live by (simp add: serves_simps rp_run_simps)
  qed
  show "serves rp_class s (LeaveWrite t) 3" if "phase s t = Writing"
    using that rp_calm(3) [OF inv calm that] live by (simp add: serves_simps rp_run_simps)
qed

interpretation rp_serving: serving_lock rp_class ReaderPriorityLock rp_inv 6 5 4 3
  by unfold_locales (auto intro: rp_serves calm_outside)

lemma wp_calm:
  assumes inv: "wp_inv (shared s) (phase s)" and calm: "calm s"
  shows "sem_count (wp_mutex1 (shared s)) = 1" "sem_count (wp_mutex2 (shared s)) = 1"
      "sem_count (wp_readTry (shared s)) = 1"
    and "(\<And>u. phase s u \<noteq> Writing) \<Longrightarrow> wp_writeCount (shared s) = 0 \<and> sem_count (wp_rsem (shared s)) = 1
      \<and> sem_count (wp_wrt (shared s)) = (if 0 < wp_readCount (shared s) then 0 else 1)"
    and "phase s t = Writing \<Longrightarrow> sem_count (wp_wrt (shared s)) = 0 \<and> sem_count (wp_rsem (shared s)) = 0
      \<and> wp_writeCount (shared s) = 1"
proof -
  note fin = wp_inv_facts(1) [OF inv]
  have none: "tcount wp_in_mutex1 (phase s) = 0" "tcount wp_in_mutex2 (phase s) = 0"
    "tcount wp_in_readTry (phase s) = 0" "tcount wp_in_rsem (phase s) = 0"
    "tcount wp_rfirst (phase s) = 0" "tcount wp_rlast (phase s) = 0"
    "tcount wp_wfirst (phase s) = 0" "tcount wp_wlast (phase s) = 0"
    by (rule calm_count [OF calm fin]; auto split: phase.splits)+
  then show "sem_count (wp_mutex1 (shared s)) = 1" "sem_count (wp_mutex2 (shared s)) = 1"
      "sem_count (wp_readTry (shared s)) = 1"
    using wp_inv_facts(3-5) [OF inv] by simp_all
  have o: "wp_owner x \<Longrightarrow> in_call x \<or> x = Writing" "wp_wcounted x \<Longrightarrow> in_call x \<or> x = Writing" for x
    by (auto split: phase.splits)
  show "wp_writeCount (shared s) = 0 \<and> sem_count (wp_rsem (shared s)) = 1
      \<and> sem_count (wp_wrt (shared s)) = (if 0 < wp_readCount (shared s) then 0 else 1)"
    if "\<And>u. phase s u \<noteq> Writing"
  proof -
    have "tcount wp_owner (phase s) = 0" "tcount wp_wcounted (phase s) = 0"
      by (rule idle_count [OF calm fin o(1)]; use that in simp)
        (rule idle_count [OF calm fin o(2)]; use that in simp)
    then show ?thesis using wp_inv_facts(7-9) [OF inv] none by (auto simp: of_bool_def split: if_splits)
  qed
  show "sem_count (wp_wrt (shared s)) = 0 \<and> sem_count (wp_rsem (shared s)) = 0 \<and> wp_writeCount (shared s) = 1"
    if t: "phase s t = Writing"
  proof -
    have alone: "phase s u = Writing \<longleftrightarrow> u = t" for u using wp_excl [OF inv t, of u] t by blast
    have "wp_wcounted (Writing :: wp_point phase)" by simp
    then have "wp_wcounted (phase s u) \<longleftrightarrow> u = t" for u
      using o(2) [of "phase s u"] calm alone [of u] t by (auto simp: calm_def simp del: wp_wcounted_def)
    then have "tcount wp_wcounted (phase s) = 1" by (simp add: tcount_def del: wp_wcounted_def)
    moreover have "1 \<le> tcount wp_owner (phase s)" using tcount_pos [OF fin, of wp_owner t] t by simp
    ultimately show ?thesis using wp_inv_facts(7-9) [OF inv] none wp_counts_nonneg [OF inv]
      by (auto simp: of_bool_def split: if_splits)
  qed
qed

lemma wp_serves:
  assumes inv: "wp_inv (shared s) (phase s)" and calm: "calm s"
  shows "phase s t = Outside \<Longrightarrow> (\<And>u. phase s u \<noteq> Writing) \<Longrightarrow> serves wp_class s (EnterRead t) 10"
    and "phase s t = Reading \<Longrightarrow> serves wp_class s (LeaveRead t) 5"
    and "(\<And>u. phase s u = Outside) \<Longrightarrow> serves wp_class s (EnterWrite t) 8"
    and "phase s t = Writing \<Longrightarrow> serves wp_class s (LeaveWrite t) 7"
proof -
  note live = wp_inv_facts(2) [OF inv] and free = wp_calm(1-3) [OF inv calm] and no_writer = wp_calm(4) [OF inv calm]
  note n = wp_counts_nonneg [OF inv]
  show "serves wp_class s (EnterRead t) 10" if "phase s t = Outside" "\<And>u. phase s u \<noteq> Writing"
    using that(1) no_writer [OF that(2)] live free n
    by (cases "wp_readCount (shared s) = 0") (simp_all add: serves_simps wp_run_simps)
  show "serves wp_class s (LeaveRead t) 5" if t: "phase s t = Reading"
  proof -
    have "phase s u \<noteq> Writing" for u using wp_excl [OF inv, of u t] t by (cases "u = t") auto
    moreover have "1 \<le> wp_readCount (shared s)" using wp_rcounted_pos [OF inv, of t] t by simp
    ultimately show ?thesis using t no_writer live free
      by (cases "wp_readCount (shared s) = 1") (simp_all add: serves_simps wp_run_simps)
  qed
  show "serves wp_class s (EnterWrite t) 8" if "\<And>u. phase s u = Outside"
  proof -
    have "tcount wp_rcounted (phase s) = 0"
      using tcount_eq_0 [OF wp_inv_facts(1) [OF inv], of wp_rcounted] that by simp
    then have "wp_readCount (shared s) = 0" using wp_inv_facts(6) [OF inv] by simp
    then show ?thesis using that no_writer live free by (simp add: serves_simps wp_run_simps)
  qed
  show "serves wp_class s (LeaveWrite t) 7" if "phase s t = Writing"
    using that wp_calm(5) [OF inv calm that] live free by (simp add: serves_simps wp_run_simps)
qed

interpretation wp_serving: serving_lock wp_class WriterPriorityLock wp_inv 10 5 8 7
  by unfold_locales (auto intro: wp_serves calm_outside)

lemma fa_calm:
  assumes inv: "fa_inv (shared s) (phase s)" and calm: "calm s"
  shows "fa_mtx (shared s) = None" "fa_waitingReaders (shared s) = 0" "fa_waitingWriters (shared s) = 0"
    and "(\<And>u. phase s u \<noteq> Writing) \<Longrightarrow> \<not> fa_activeWriter (shared s)"
proof -
  note fin = fa_inv_facts(1) [OF inv]
  have "\<not> fa_holds (phase s t)" for t
    using calm by (cases "phase s t") (auto simp: calm_def dest: spec [of _ t])
  then show "fa_mtx (shared s) = None" using fa_inv_facts(2) [OF inv] by (metis not_None_eq)
  have "tcount fa_rqueued (phase s) = 0" "tcount fa_wqueued (phase s) = 0"
    by (rule calm_count [OF calm fin]; auto simp: fa_rqueued_def fa_wqueued_def)+
  then show "fa_waitingReaders (shared s) = 0" "fa_waitingWriters (shared s) = 0"
    using fa_inv_counts(3,4) [OF inv] by simp_all
  have o: "fa_wactive x \<Longrightarrow> in_call x \<or> x = Writing" for x by (cases x) auto
  show "\<not> fa_activeWriter (shared s)" if "\<And>u. phase s u \<noteq> Writing"
    using idle_count [OF calm fin o _ that] fa_inv_counts(2) [OF inv] by auto
qed

lemma fa_serves:
  assumes inv: "fa_inv (shared s) (phase s)" and calm: "calm s"
  shows "phase s t = Outside \<Longrightarrow> (\<And>u. phase s u \<noteq> Writing) \<Longrightarrow> serves fa_class s (EnterRead t) 6"
    and "phase s t = Reading \<Longrightarrow> serves fa_class s (LeaveRead t) 5"
    and "(\<And>u. phase s u = Outside) \<Longrightarrow> serves fa_class s (EnterWrite t) 6"
    and "phase s t = Writing \<Longrightarrow> serves fa_class s (LeaveWrite t) 5"
proof -
  note idle = fa_calm(1-3) [OF inv calm] and no_writer = fa_calm(4) [OF inv calm]
  show "serves fa_class s (EnterRead t) 6" if "phase s t = Outside" "\<And>u. phase s u \<noteq> Writing"
    using that(1) no_writer [OF that(2)] idle by (simp add: serves_simps fa_run_simps)
  show "serves fa_class s (LeaveRead t) 5" if "phase s t = Reading"
    using that idle by (cases "fa_activeReaders (shared s) = 1") (simp_all add: serves_simps fa_run_simps)
  show "serves fa_class s (EnterWrite t) 6" if "\<And>u. phase s u = Outside"
  proof -
    have "tcount fa_ractive (phase s) = 0"
      using tcount_eq_0 [OF fa_inv_facts(1) [OF inv], of fa_ractive] that by simp
    then show ?thesis using fa_inv_counts(1) [OF inv] that no_writer idle
      by (simp add: serves_simps fa_run_simps)
  qed
  show "serves fa_class s (LeaveWrite t) 5" if "phase s t = Writing"
    using that idle by (simp add: serves_simps fa_run_simps)
qed

interpretation fa_serving: serving_lock fa_class FairMorrisLock fa_inv 6 5 6 5
  by unfold_locales (auto intro: fa_serves calm_outside)

section \<open>Properties\<close>

text \<open>
  C5: The histories of each of the three classes, for any number of threads and every interleaving, are exactly
  the histories of the readers-writers object: no class allows an entry the object forbids, and none forbids one
  it allows, so readers do share the lock and every unlock gives back all that was taken.  Moreover, in
  every state without a call in progress, however it was reached, each operation the object allows at that
  point is completed by its thread alone, in at most 10 actions.
\<close>

theorem locks_exact_histories:
  "exact_histories rp_class ReaderPriorityLock \<and> serves_when_calm rp_class ReaderPriorityLock
   \<and> exact_histories wp_class WriterPriorityLock \<and> serves_when_calm wp_class WriterPriorityLock
   \<and> exact_histories fa_class FairMorrisLock \<and> serves_when_calm fa_class FairMorrisLock"
  using rp_serving.exact wp_serving.exact fa_serving.exact
    rp_serving.serves_calm wp_serving.serves_calm fa_serving.serves_calm by simp

end
