(* ===== verification/Read_Counter.thy ===== *)
theory Read_Counter
  imports Simulation Lock_Histories
begin

text \<open>
  \<open>SharedResource::readCount_\<close> under the threads that increment it.  Readers hold the lock together, so the
  load and the store of one \<open>recordRead()\<close> in \<open>readerThread\<close> can have those of other readers between them.  The
  count never exceeds the reads, and it can fall behind by any amount: with any number of readers, all of them
  inside the lock at once, every one completes its operation and the counter ends at 1.
\<close>

section \<open>The counter never runs ahead\<close>

text \<open>The increments of \<open>readCount_\<close> a worker has stored.\<close>

definition stored :: "SimConfig \<Rightarrow> ('l, 'p) sim \<Rightarrow> tid \<Rightarrow> int" where
  "stored cfg s t =
     (if arg_type (thread_arg cfg t) = READER
      then ti_opsCompleted (infos (lk s) t) + of_bool (points s t = W_done_op) else 0)"

definition reads_stored :: "SimConfig \<Rightarrow> ('l, 'p) sim \<Rightarrow> int" where
  "reads_stored cfg s = (\<Sum>t<num_threads cfg. stored cfg s t)"

definition reader_ops :: "SimConfig \<Rightarrow> ('l, 'p) sim \<Rightarrow> int" where
  "reader_ops cfg s =
     (\<Sum>t | t < num_threads cfg \<and> arg_type (thread_arg cfg t) = READER. ti_opsCompleted (infos (lk s) t))"

definition count_inv :: "SimConfig \<Rightarrow> ('l, 'p) sim \<Rightarrow> bool" where
  "count_inv cfg s \<longleftrightarrow> sr_readCount (res s) \<le> reads_stored cfg s
     \<and> (\<forall>t v. arg_type (thread_arg cfg t) = READER \<longrightarrow> points s t = W_count_store v \<longrightarrow> v \<le> reads_stored cfg s)"

lemma count_inv_cong:
  assumes "points s' = points s" and "\<And>t. ti_opsCompleted (infos (lk s') t) = ti_opsCompleted (infos (lk s) t)"
    and "res s' = res s"
  shows "count_inv cfg s' = count_inv cfg s"
proof -
  have "stored cfg s' t = stored cfg s t" for t using assms by (simp add: stored_def)
  then show ?thesis using assms by (simp add: count_inv_def reads_stored_def)
qed

context sim_lock
begin

text \<open>An action of worker \<open>t\<close> stores one increment of the value it loaded, or leaves the counter.\<close>

lemma count_reader:
  assumes step: "readerThread L t w p s = Done s'" and p: "points s t = p"
    and ty: "arg_type (thread_arg cfg t) = READER"
  shows "stored cfg s' t = stored cfg s t \<and> sr_readCount (res s') = sr_readCount (res s)
      \<and> (\<forall>v. points s' t = W_count_store v \<longrightarrow> v = sr_readCount (res s))
    \<or> (\<exists>v. p = W_count_store v \<and> stored cfg s' t = stored cfg s t + 1 \<and> sr_readCount (res s') = v + 1
        \<and> points s' t = W_done_op)"
proof (cases p)
  case W_in_lock
  then obtain k where k: "advance L t w (lk s) = Done k"
    "s' = goto t (if phase k t = Reading then W_read else W_in_lock) (s\<lparr>lk := k\<rparr>)"
    using step by (auto simp: in_lock_call_Done)
  with frame_advance [of t w "lk s" k t] W_in_lock p ty show ?thesis by (simp add: stored_def)
next
  case W_in_unlock
  then obtain k where k: "advance L t w (lk s) = Done k"
    "s' = goto t (if phase k t = Outside then W_fetch else W_in_unlock) (s\<lparr>lk := k\<rparr>)"
    using step by (auto simp: in_lock_call_Done)
  with frame_advance [of t w "lk s" k t] W_in_unlock p ty show ?thesis by (simp add: stored_def)
qed (use step p ty in \<open>auto simp: stored_def complete_op_def split: if_splits\<close>)

lemma count_writer:
  assumes "writerThread L target t w p s = Done s'"
  shows "sr_readCount (res s') = sr_readCount (res s)"
  using assms by (cases p) (auto simp: in_lock_call_Done Let_def split: if_splits)

lemma count_inv_work:
  assumes inv: "sim_inv L l0 cfg s" and act: "worker_act L cfg t w s = Done s'" and count: "count_inv cfg s"
  shows "count_inv cfg s'"
proof -
  note eff = worker_act_effect [OF act inv]
  have same: "stored cfg s' u = stored cfg s u" "points s' u = points s u" if "u \<noteq> t" for u
    using eff(4) [OF that] by (simp_all add: stored_def)
  have total: "reads_stored cfg s' = reads_stored cfg s + (stored cfg s' t - stored cfg s t)"
    unfolding reads_stored_def by (rule sum_change_one [OF eff(1)]) (rule same)
  consider (new) "points s t = W_new" "s' = goto t W_init s"
    | (reader) "arg_type (thread_arg cfg t) = READER" "readerThread L t w (points s t) s = Done s'"
    | (writer) target where "arg_type (thread_arg cfg t) = WRITER" "writerThread L target t w (points s t) s = Done s'"
    using act eff(1) by (cases "points s t = W_new"; cases "arg_type (thread_arg cfg t)") (auto simp: worker_act_def)
  then have "(stored cfg s' t = stored cfg s t \<and> sr_readCount (res s') = sr_readCount (res s)
      \<and> (\<forall>v. arg_type (thread_arg cfg t) = READER \<longrightarrow> points s' t = W_count_store v \<longrightarrow> v = sr_readCount (res s)))
    \<or> (\<exists>v. arg_type (thread_arg cfg t) = READER \<and> points s t = W_count_store v
        \<and> stored cfg s' t = stored cfg s t + 1 \<and> sr_readCount (res s') = v + 1 \<and> points s' t = W_done_op)"
  proof cases
    case reader
    then show ?thesis using count_reader [OF reader(2) refl reader(1)] by blast
  qed (auto simp: stored_def dest: count_writer)
  then show ?thesis
  proof (elim disjE exE conjE)
    assume at: "stored cfg s' t = stored cfg s t" "sr_readCount (res s') = sr_readCount (res s)"
      "\<forall>v. arg_type (thread_arg cfg t) = READER \<longrightarrow> points s' t = W_count_store v \<longrightarrow> v = sr_readCount (res s)"
    show ?thesis using count at total same(2) unfolding count_inv_def by (metis add.right_neutral diff_self)
  next
    fix v
    assume at: "arg_type (thread_arg cfg t) = READER" "points s t = W_count_store v"
      "stored cfg s' t = stored cfg s t + 1" "sr_readCount (res s') = v + 1" "points s' t = W_done_op"
    have le: "reads_stored cfg s' = reads_stored cfg s + 1" using total at by simp
    have "v' \<le> reads_stored cfg s + 1"
      if "arg_type (thread_arg cfg u) = READER" "points s' u = W_count_store v'" for u v'
    proof -
      have "u \<noteq> t" using that at(5) by auto
      then show ?thesis using count that same(2) [of u] by (force simp: count_inv_def)
    qed
    then show ?thesis using count at le by (simp add: count_inv_def)
  qed
qed

lemma count_inv_reachable:
  assumes cfg: "valid_cfg cfg" and r: "reachable (sim_start l0 cfg g) (sim_step L cfg) s"
  shows "count_inv cfg s"
  using r
proof (induction rule: reachable.induct)
  case reachable_init
  show ?case by (auto simp: count_inv_def reads_stored_def stored_def sim_start_simps intro: sum_nonneg)
next
  case (reachable_step s s')
  note inv = sim_inv_reachable [OF cfg reachable_step.hyps(1)]
  from reachable_step.hyps(2) show ?case
  proof (cases rule: sim_step.cases)
    case (work t w)
    then show ?thesis by (rule count_inv_work [OF inv _ reachable_step.IH])
  next
    case sigusr1
    with reachable_step.IH show ?thesis using count_inv_cong [of s' s] by simp
  next
    case (environment i g' n n')
    with reachable_step.IH watchdog_keeps_ops show ?thesis using count_inv_cong [of s' s] by simp
  qed
qed

lemma count_bounded:
  assumes cfg: "valid_cfg cfg" and r: "reachable (sim_start l0 cfg g) (sim_step L cfg) s"
    and ended: "all_returned cfg s"
  shows "sr_readCount (res s) \<le> reader_ops cfg s"
proof -
  have "stored cfg s t = (if arg_type (thread_arg cfg t) = READER then ti_opsCompleted (infos (lk s) t) else 0)"
    if "t < num_threads cfg" for t
    using ended that by (auto simp: all_returned_def worker_done_def stored_def)
  then have "reads_stored cfg s = (\<Sum>t<num_threads cfg.
      if arg_type (thread_arg cfg t) = READER then ti_opsCompleted (infos (lk s) t) else 0)"
    unfolding reads_stored_def by simp
  also have "\<dots> = reader_ops cfg s" by (simp add: reader_ops_def sum.inter_filter [symmetric])
  finally show ?thesis using count_inv_reachable [OF cfg r] by (simp add: count_inv_def)
qed

end

section \<open>The counter can fall behind\<close>

text \<open>A run of \<open>n\<close> actions of worker \<open>t\<close>.\<close>

definition turns :: "nat \<Rightarrow> tid \<Rightarrow> (tid \<times> wakeup) list" where
  "turns n t = replicate n (t, Pick t)"

lemma turns_simps [simp]:
  "turns 0 t = []" "turns (Suc n) t = (t, Pick t) # turns n t" "turns 1 t = [(t, Pick t)]"
  by (simp_all add: turns_def)

text \<open>A lock call of a reader that runs alone, as actions of its thread function.\<close>

lemma reader_call:
  assumes t: "t < num_threads cfg" "arg_type (thread_arg cfg t) = READER"
    and call: "p = W_in_lock \<and> x = Reading \<and> q = W_read \<and> phase (lk s) t = InReadLock c
      \<or> p = W_in_unlock \<and> x = Outside \<and> q = W_fetch \<and> phase (lk s) t = InReadUnlock c"
    and "points s t = p" and "sched_run L (replicate n (Act t)) (lk s) = Done k" and "phase k t = x"
  shows "worker_run L cfg (turns n t) s = Done (goto t q (s\<lparr>lk := k\<rparr>))"
  using call assms(4-)
proof (induction n arbitrary: s c)
  case 0
  then show ?case by auto
next
  case (Suc n)
  then obtain k1 where k1: "advance L t (Pick t) (lk s) = Done k1" "sched_run L (replicate n (Act t)) k1 = Done k"
    by (auto simp: outcome_simps)
  have act: "worker_act L cfg t (Pick t) s = Done (goto t (if phase k1 t = x then q else p) (s\<lparr>lk := k1\<rparr>))"
    using Suc.prems(1,2) k1(1) t by (auto simp: worker_act_def in_lock_call_def)
  show ?case
  proof (cases "phase k1 t = x")
    case True
    then have "n = 0" using k1(2) Suc.prems(1) by (cases n) (auto simp: advance_def outcome_simps)
    with act True k1(2) show ?thesis by simp
  next
    case False
    then obtain c' where c': "p = W_in_lock \<and> x = Reading \<and> q = W_read \<and> phase k1 t = InReadLock c'
      \<or> p = W_in_unlock \<and> x = Outside \<and> q = W_fetch \<and> phase k1 t = InReadUnlock c'"
      using Suc.prems(1) advance_phase(3,4) [OF k1(1)] by metis
    let ?s = "goto t p (s\<lparr>lk := k1\<rparr>)"
    have "worker_run L cfg (turns n t) ?s = Done (goto t q (?s\<lparr>lk := k\<rparr>))"
      by (rule Suc.IH [of ?s c']) (use c' k1(2) Suc.prems(4) in auto)
    with act False show ?thesis by (simp add: goto_def)
  qed
qed

text \<open>\<open>n\<close> readers, no writer, one operation for each.\<close>

definition readers_only :: "nat \<Rightarrow> SimConfig" where
  "readers_only n = default_SimConfig\<lparr>cfg_numReaders := int n, cfg_numWriters := 0, cfg_totalOps := int n\<rparr>"

lemma readers_only_simps [simp]:
  "num_threads (readers_only n) = n" "cfg_totalOps (readers_only n) = int n"
  "t < n \<Longrightarrow> thread_arg (readers_only n) t = \<lparr>arg_type = READER, arg_isAbortTarget = False\<rparr>"
  "int n < 2 ^ 31 \<Longrightarrow> valid_cfg (readers_only n)"
  by (simp_all add: readers_only_def num_threads_def thread_arg_def valid_cfg_def default_SimConfig_def)

text \<open>
  The workers below \<open>k\<close> have done a stage of the run and are at \<open>p\<close> in phase \<open>x\<close>, the others are at \<open>q\<close> in phase
  \<open>y\<close>; the counter is \<open>c\<close> and \<open>r\<close> operations remain.
\<close>

definition stage ::
    "nat \<Rightarrow> nat \<Rightarrow> worker_point \<Rightarrow> 'p phase \<Rightarrow> worker_point \<Rightarrow> 'p phase \<Rightarrow> int \<Rightarrow> int \<Rightarrow> ('l, 'p) sim \<Rightarrow> bool" where
  "stage n k p x q y c r s \<longleftrightarrow>
     (\<forall>u. u < n \<longrightarrow> points s u = (if u < k then p else q) \<and> phase (lk s) u = (if u < k then x else y))
   \<and> (\<forall>u. n \<le> u \<longrightarrow> phase (lk s) u = Outside) \<and> sr_readCount (res s) = c \<and> opsRemaining s = word_of_int r"

lemma in_turn:
  assumes "P 0 s" and "\<And>k s. k < n \<Longrightarrow> P k s \<Longrightarrow> \<exists>s'. worker_run L cfg (W k) s = Done s' \<and> P (Suc k) s'"
  shows "\<exists>s'. worker_run L cfg (concat (map W [0..<n])) s = Done s' \<and> P n s'"
  using assms(2)
proof (induction n)
  case 0
  then show ?case using assms(1) by simp
next
  case (Suc n)
  then obtain s1 where "worker_run L cfg (concat (map W [0..<n])) s = Done s1" "P n s1" by fastforce
  with Suc.prems [of n s1] show ?case by (auto simp: worker_run_append outcome_simps)
qed

text \<open>
  The run that loses: all readers are inside the lock together, each has loaded the counter and none has stored
  it (\<open>W_count_store 0\<close>); then all store, leave and return.  Every reader has completed an operation and the counter
  is 1.
\<close>

definition loses_reads :: "('l, 'p) RWLockBase \<Rightarrow> 'l \<Rightarrow> nat \<Rightarrow> bool" where
  "loses_reads L l0 n \<longleftrightarrow> (\<forall>g. \<exists>ws s ws' s'.
     worker_run L (readers_only n) ws (sim_start l0 (readers_only n) g) = Done s
   \<and> (\<forall>t < n. phase (lk s) t = Reading \<and> points s t = W_count_store 0)
   \<and> worker_run L (readers_only n) ws' s = Done s'
   \<and> all_returned (readers_only n) s' \<and> reader_ops (readers_only n) s' = int n \<and> sr_readCount (res s') = 1)"

text \<open>In every run the counter is at most the number of reads.\<close>

definition reads_bounded :: "('l, 'p) RWLockBase \<Rightarrow> 'l \<Rightarrow> SimConfig \<Rightarrow> bool" where
  "reads_bounded L l0 cfg \<longleftrightarrow> (\<forall>g s. reachable (sim_start l0 cfg g) (sim_step L cfg) s \<longrightarrow>
     all_returned cfg s \<longrightarrow> sr_readCount (res s) \<le> reader_ops cfg s)"

locale counting_lock = sim_lock L l0 inv + serving_lock L l0 inv re rl we wl
  for L :: "('l, 'p) RWLockBase" and l0 and inv and re rl we wl
begin

lemma reader_starts:
  assumes "t < n" and "points s t = W_new" and "opsRemaining s = word_of_int r" and "0 < r" and "r < 2 ^ 31"
  shows "\<exists>s1. worker_run L (readers_only n) (turns 3 t) s = Done s1 \<and> points s1 = (points s)(t := W_call_lock)
     \<and> shared (lk s1) = shared (lk s) \<and> phase (lk s1) = phase (lk s) \<and> res s1 = res s
     \<and> opsRemaining s1 = word_of_int (r - 1)"
  using assms sint_word_of_int_32 [of r] by (simp add: numeral_3_eq_3 worker_act_def)

lemma reader_enters:
  fixes s :: "('l, 'p) sim"
  assumes n: "int n < 2 ^ 31" and k: "k < n" and inv: "inv (shared (lk s)) (phase (lk s))"
    and st: "stage n k (W_count_store 0) Reading W_new Outside 0 (int n - int k) s"
  shows "\<exists>s'. worker_run L (readers_only n) (turns 3 k @ turns 1 k @ turns re k @ turns 2 k) s = Done s'
     \<and> stage n (Suc k) (W_count_store 0) Reading W_new Outside 0 (int n - int (Suc k)) s'"
proof -
  have ph: "phase (lk s) u = (if u < k then Reading else Outside)" for u
    using st k unfolding stage_def by (metis not_le order.strict_trans)
  have at: "points s k = W_new" "sr_readCount (res s) = 0" "opsRemaining s = word_of_int (int n - int k)"
    using st k by (simp_all add: stage_def)
  obtain s1 where s1: "worker_run L (readers_only n) (turns 3 k) s = Done s1"
    "points s1 = (points s)(k := W_call_lock)" "shared (lk s1) = shared (lk s)" "phase (lk s1) = phase (lk s)"
    "res s1 = res s" "opsRemaining s1 = word_of_int (int n - int k - 1)"
    using reader_starts [OF k at(1,3)] n k by auto
  have "serves L (lk s1) (EnterRead k) re"
    by (rule enter_read) (use inv ph s1(3,4) in \<open>simp_all add: calm_def\<close>)
  then obtain l where l: "sched_run L (replicate re (Act k))
        ((lk s1)\<lparr>phase := (phase (lk s1))(k := InReadLock (readLock_entry L))\<rparr>) = Done l"
      "phase l = (phase (lk s))(k := Reading)"
    using ph [of k] s1(4) by (auto simp: serves_def alone_def outcome_simps)
  let ?s2 = "goto k W_in_lock (enter_call k (InReadLock (readLock_entry L)) s1)"
  have s2: "worker_run L (readers_only n) (turns 1 k) s1 = Done ?s2" using k s1(2) by (simp add: worker_act_def)
  have s3: "worker_run L (readers_only n) (turns re k) ?s2 = Done (goto k W_read (?s2\<lparr>lk := l\<rparr>))"
    by (rule reader_call [where p = W_in_lock and x = Reading])
      (use k l in \<open>simp_all add: enter_call_lk\<close>)
  obtain s4 where s4: "worker_run L (readers_only n) (turns 2 k) (goto k W_read (?s2\<lparr>lk := l\<rparr>)) = Done s4"
    "points s4 = (points s)(k := W_count_store 0)" "lk s4 = l" "res s4 = res s" "opsRemaining s4 = opsRemaining s1"
    using k at(2) s1(2,5) by (simp add: numeral_2_eq_2 worker_act_def)
  have "stage n (Suc k) (W_count_store 0) Reading W_new Outside 0 (int n - int (Suc k)) s4"
    using st s4 l(2) s1(6) k by (auto simp: stage_def less_Suc_eq algebra_simps)
  then show ?thesis using s1(1) s2 s3 s4(1) by (simp add: worker_run_append outcome_simps del: turns_simps)
qed

lemma reader_stores:
  fixes s :: "('l, 'p) sim"
  assumes k: "k < n" and st: "stage n k W_done_op Reading (W_count_store 0) Reading c 0 s"
  shows "\<exists>s'. worker_run L (readers_only n) (turns 1 k) s = Done s'
     \<and> stage n (Suc k) W_done_op Reading (W_count_store 0) Reading 1 0 s'"
  using assms by (auto simp: worker_act_def stage_def less_Suc_eq)

lemma reader_leaves:
  fixes s :: "('l, 'p) sim"
  assumes n: "int n < 2 ^ 31" and k: "k < n" and inv: "inv (shared (lk s)) (phase (lk s))"
    and st: "stage n k W_exit Outside W_done_op Reading c 0 s"
  shows "\<exists>s'. worker_run L (readers_only n) (turns 2 k @ turns rl k @ turns 3 k) s = Done s'
     \<and> stage n (Suc k) W_exit Outside W_done_op Reading c 0 s'"
proof -
  have ph: "phase (lk s) u = (if k \<le> u \<and> u < n then Reading else Outside)" for u
    using st unfolding stage_def by (metis not_le)
  have at: "points s k = W_done_op" "sr_readCount (res s) = c" "opsRemaining s = word_of_int 0"
    using st k by (simp_all add: stage_def)
  let ?s1 = "set_info k complete_op s"
  let ?s2 = "goto k W_in_unlock (enter_call k (InReadUnlock (readUnlock_entry L)) (goto k W_call_unlock ?s1))"
  have s2: "worker_run L (readers_only n) (turns 2 k) s = Done ?s2"
    using k at(1) by (simp add: numeral_2_eq_2 worker_act_def)
  have "serves L (lk ?s1) (LeaveRead k) rl"
    by (rule leave_read) (use inv ph k in \<open>simp_all add: calm_def\<close>)
  then obtain l where l: "sched_run L (replicate rl (Act k))
        ((lk ?s1)\<lparr>phase := (phase (lk s))(k := InReadUnlock (readUnlock_entry L))\<rparr>) = Done l"
      "phase l = (phase (lk s))(k := Outside)"
    using ph [of k] k by (auto simp: serves_def alone_def outcome_simps)
  have s3: "worker_run L (readers_only n) (turns rl k) ?s2 = Done (goto k W_fetch (?s2\<lparr>lk := l\<rparr>))"
    by (rule reader_call [where p = W_in_unlock and x = Outside])
      (use k l in \<open>simp_all add: enter_call_lk\<close>)
  obtain s4 where s4: "worker_run L (readers_only n) (turns 3 k) (goto k W_fetch (?s2\<lparr>lk := l\<rparr>)) = Done s4"
    "points s4 = (points s)(k := W_exit)" "phase (lk s4) = phase l" "res s4 = res s" "opsRemaining s4 = opsRemaining s"
    using k at(3) by (simp add: numeral_3_eq_3 worker_act_def)
  have "stage n (Suc k) W_exit Outside W_done_op Reading c 0 s4"
    using st s4 l(2) k by (auto simp: stage_def less_Suc_eq)
  then show ?thesis using s2 s3 s4(1) by (simp add: worker_run_append outcome_simps del: turns_simps)
qed

lemma readers_lose:
  assumes "0 < n" and n: "int n < 2 ^ 31"
  shows "loses_reads L l0 n"
  unfolding loses_reads_def
proof
  fix g
  let ?cfg = "readers_only n" and ?s0 = "sim_start l0 (readers_only n) g :: ('l, 'p) sim"
  have cfg: "valid_cfg ?cfg" using n by simp
  define R where "R s \<longleftrightarrow> reachable ?s0 (sim_step L ?cfg) s" for s
  have inv: "inv (shared (lk s)) (phase (lk s))" if "R s" for s
    using inv_reachable [OF sim_inv_facts(1) [OF sim_inv_reachable [OF cfg]]] that by (simp add: R_def)
  have step: "R s'" if "R s" "worker_run L ?cfg ws s = Done s'" for s s' ws
    using that worker_run_reachable by (auto simp: R_def)
  have stores: "\<exists>s'. worker_run L ?cfg (turns 1 k) s = Done s' \<and> R s'
      \<and> stage n (Suc k) W_done_op Reading (W_count_store 0) Reading (of_bool (0 < Suc k)) 0 s'"
    if k: "k < n" and r: "R s" and st: "stage n k W_done_op Reading (W_count_store 0) Reading c 0 s" for k s c
  proof -
    obtain s' where "worker_run L ?cfg (turns 1 k) s = Done s'"
      "stage n (Suc k) W_done_op Reading (W_count_store 0) Reading 1 0 s'"
      using reader_stores [OF k st] by blast
    with step [OF r] show ?thesis by (auto simp del: turns_simps)
  qed
  have "R ?s0 \<and> stage n 0 (W_count_store 0) Reading W_new Outside 0 (int n - int 0) ?s0"
    by (simp add: R_def reachable_init stage_def sim_start_simps)
  then have "\<exists>s. worker_run L ?cfg (concat (map (\<lambda>k. turns 3 k @ turns 1 k @ turns re k @ turns 2 k) [0..<n])) ?s0 = Done s
      \<and> R s \<and> stage n n (W_count_store 0) Reading W_new Outside 0 (int n - int n) s"
    by (rule in_turn [where P = "\<lambda>k s. R s \<and> stage n k (W_count_store 0) Reading W_new Outside 0 (int n - int k) s"])
      (use reader_enters [OF n] inv step in blast)
  then obtain ws s where s: "worker_run L ?cfg ws ?s0 = Done s" "R s"
    "stage n n (W_count_store 0) Reading W_new Outside 0 0 s" by auto
  then have "R s \<and> stage n 0 W_done_op Reading (W_count_store 0) Reading (of_bool (0 < (0 :: nat))) 0 s"
    by (simp add: stage_def)
  then have "\<exists>s1. worker_run L ?cfg (concat (map (turns 1) [0..<n])) s = Done s1
      \<and> R s1 \<and> stage n n W_done_op Reading (W_count_store 0) Reading (of_bool (0 < n)) 0 s1"
    by (rule in_turn [where P = "\<lambda>k s. R s \<and> stage n k W_done_op Reading (W_count_store 0) Reading (of_bool (0 < k)) 0 s"])
      (use stores in blast)
  then obtain ws1 s1 where s1: "worker_run L ?cfg ws1 s = Done s1" "R s1"
    "stage n n W_done_op Reading (W_count_store 0) Reading 1 0 s1" using assms(1) by auto
  then have "R s1 \<and> stage n 0 W_exit Outside W_done_op Reading 1 0 s1" by (simp add: stage_def)
  then have "\<exists>s2. worker_run L ?cfg (concat (map (\<lambda>k. turns 2 k @ turns rl k @ turns 3 k) [0..<n])) s1 = Done s2
      \<and> R s2 \<and> stage n n W_exit Outside W_done_op Reading 1 0 s2"
    by (rule in_turn [where P = "\<lambda>k s. R s \<and> stage n k W_exit Outside W_done_op Reading 1 0 s"])
      (use reader_leaves [OF n] inv step in blast)
  then obtain ws2 s2 where s2: "worker_run L ?cfg ws2 s1 = Done s2" "R s2"
    "stage n n W_exit Outside W_done_op Reading 1 0 s2" by blast
  have "ops_completed ?cfg s2 = int n"
    unfolding ops_completed_def
    using sim_complete [OF sim_inv_reachable [OF cfg], of g s2 0] s2 assms(1) by (simp add: R_def stage_def)
  moreover have "{t. t < n \<and> arg_type (thread_arg ?cfg t) = READER} = {..<n}" by auto
  ultimately have "reader_ops ?cfg s2 = int n" by (simp add: reader_ops_def ops_completed_def)
  moreover have "worker_run L ?cfg (ws1 @ ws2) s = Done s2" using s1(1) s2(1) by (simp add: worker_run_append outcome_simps)
  moreover have "all_returned ?cfg s2" "sr_readCount (res s2) = 1"
    using s2(3) by (simp_all add: stage_def all_returned_def worker_done_def)
  moreover have "\<forall>t < n. phase (lk s) t = Reading \<and> points s t = W_count_store 0" using s(3) by (simp add: stage_def)
  ultimately show "\<exists>ws s ws' s'. worker_run L ?cfg ws ?s0 = Done s
      \<and> (\<forall>t < n. phase (lk s) t = Reading \<and> points s t = W_count_store 0)
      \<and> worker_run L ?cfg ws' s = Done s'
      \<and> all_returned ?cfg s' \<and> reader_ops ?cfg s' = int n \<and> sr_readCount (res s') = 1"
    using s(1) by blast
qed

lemma bounded: "valid_cfg cfg \<Longrightarrow> reads_bounded L l0 cfg"
  unfolding reads_bounded_def using count_bounded by blast

end

interpretation rp_counting: counting_lock rp_class ReaderPriorityLock rp_inv 6 5 4 3
  by unfold_locales

interpretation wp_counting: counting_lock wp_class WriterPriorityLock wp_inv 10 5 8 7
  by unfold_locales

interpretation fa_counting: counting_lock fa_class FairMorrisLock fa_inv 6 5 6 5
  by unfold_locales

section \<open>Properties\<close>

text \<open>
  C39: \<open>readCount_\<close> is a lower bound of the reads and nothing better.  With any of the three algorithms and in every run,
  when all workers have returned it is at most the number of operations the readers completed.  And for any
  number \<open>n\<close> of readers there is a run of \<open>readerThread\<close>s in which all of them are inside the lock together, each
  between the load and the store of \<open>recordRead()\<close>; all complete their operation and return, and the counter
  is 1: \<open>n - 1\<close> of \<open>n\<close> reads are lost.
\<close>

theorem recordRead_loses_updates:
  assumes "valid_cfg cfg" and "0 < n" and "int n < 2 ^ 31"
  shows "reads_bounded rp_class ReaderPriorityLock cfg \<and> loses_reads rp_class ReaderPriorityLock n
       \<and> reads_bounded wp_class WriterPriorityLock cfg \<and> loses_reads wp_class WriterPriorityLock n
       \<and> reads_bounded fa_class FairMorrisLock cfg \<and> loses_reads fa_class FairMorrisLock n"
  using rp_counting.readers_lose wp_counting.readers_lose fa_counting.readers_lose
    rp_counting.bounded wp_counting.bounded fa_counting.bounded assms by blast

lemma recordRead_loses_updates_witness:
  "reads_bounded wp_class WriterPriorityLock small_cfg \<and> loses_reads rp_class ReaderPriorityLock 5"
  using recordRead_loses_updates [OF small_cfg_valid, of 5] by simp

end
