(* ===== verification/Recording.thy ===== *)
theory Recording
  imports Simulation
begin

text \<open>
  What the locks do to the caller's record: \<open>transitionWaiting\<close> is the first action of each lock method,
  \<open>transitionActive\<close> the last, \<open>transitionReleasing\<close> the last action of each unlock method, and no other
  action touches the record.  The locale states this as a contract, the three algorithms keep it, and it
  determines the state a record shows at each point of a worker.
\<close>

section \<open>The contract\<close>

locale recording_lock = sim_lock +
  assumes record_readLock: "readLock L p t w (l, c) = Done (l', c', r) \<Longrightarrow>
        c_info c' = (if p = readLock_entry L then enterWaiting (c_now c) (c_info c)
          else if r = None then enterActive (c_later c) (c_info c) else c_info c)
      \<and> r \<noteq> Some (readLock_entry L) \<and> (p = readLock_entry L \<longrightarrow> r \<noteq> None)"
    and record_writeLock: "writeLock L p t w (l, c) = Done (l', c', r) \<Longrightarrow>
        c_info c' = (if p = writeLock_entry L then enterWaiting (c_now c) (c_info c)
          else if r = None then enterActive (c_later c) (c_info c) else c_info c)
      \<and> r \<noteq> Some (writeLock_entry L) \<and> (p = writeLock_entry L \<longrightarrow> r \<noteq> None)"
    and record_readUnlock: "readUnlock L p t w (l, c) = Done (l', c', r) \<Longrightarrow>
        c_info c' = (if r = None then (c_info c)\<lparr>ti_state := RELEASING\<rparr> else c_info c)"
    and record_writeUnlock: "writeUnlock L p t w (l, c) = Done (l', c', r) \<Longrightarrow>
        c_info c' = (if r = None then (c_info c)\<lparr>ti_state := RELEASING\<rparr> else c_info c)"

section \<open>What a worker does to its record\<close>

text \<open>Is a thread about to take the first action of a lock method, the one that calls \<open>enterWaiting\<close>?\<close>

definition at_entry :: "('l, 'p) RWLockBase \<Rightarrow> 'p phase \<Rightarrow> bool" where
  "at_entry L x \<longleftrightarrow> x = InReadLock (readLock_entry L) \<or> x = InWriteLock (writeLock_entry L)"

text \<open>Has the worker begun to wait for the operation it has taken and not yet counted?\<close>

definition begun :: "('l, 'p) RWLockBase \<Rightarrow> worker_point \<Rightarrow> 'p phase \<Rightarrow> bool" where
  "begun L p x \<longleftrightarrow> holds_op p \<and> p \<noteq> W_call_lock \<and> \<not> at_entry L x"

text \<open>The state a record shows while its thread is at a point, if nobody else writes it.\<close>

definition shown :: "('l, 'p) RWLockBase \<Rightarrow> worker_point \<Rightarrow> 'p phase \<Rightarrow> ThreadState set" where
  "shown L p x = (case p of
       W_new \<Rightarrow> {INIT} | W_init \<Rightarrow> {INIT}
     | W_top \<Rightarrow> {INIT, RELEASING} | W_fetch \<Rightarrow> {INIT, RELEASING} | W_refund \<Rightarrow> {INIT, RELEASING}
     | W_call_lock \<Rightarrow> {INIT, RELEASING} | W_finish \<Rightarrow> {INIT, RELEASING}
     | W_in_lock \<Rightarrow> if at_entry L x then {INIT, RELEASING} else {WAITING}
     | W_abort_exit \<Rightarrow> {RELEASING} | W_exit \<Rightarrow> {DONE} | W_aborted \<Rightarrow> {DONE}
     | _ \<Rightarrow> {ACTIVE})"

definition same_identity :: "ThreadInfo \<Rightarrow> ThreadInfo \<Rightarrow> bool" where
  "same_identity i j \<longleftrightarrow> ti_tid j = ti_tid i \<and> ti_type j = ti_type i \<and> ti_algo j = ti_algo i"

definition record_effect ::
    "('l, 'p) RWLockBase \<Rightarrow> TimePoint \<Rightarrow> worker_point \<Rightarrow> 'p phase \<Rightarrow> ThreadInfo
       \<Rightarrow> worker_point \<Rightarrow> 'p phase \<Rightarrow> ThreadInfo \<Rightarrow> bool" where
  "record_effect L n p x i p' x' j \<longleftrightarrow>
     same_identity i j
   \<and> (if at_entry L x then j = enterWaiting n i
      else ti_starveCount j = ti_starveCount i
         \<and> (ti_state j = WAITING \<longrightarrow> ti_state i = WAITING \<and> ti_waitStart j = ti_waitStart i))
   \<and> ti_opsCompleted j + of_bool (begun L p' x')
       = ti_opsCompleted i + of_bool (begun L p x) + of_bool (at_entry L x)
   \<and> (ti_state j \<in> shown L p' x' \<or> ti_state j = ti_state i \<and> shown L p x \<subseteq> shown L p' x')"

lemma at_entry_simps [simp]:
  "\<not> at_entry L Outside" "\<not> at_entry L Reading" "\<not> at_entry L Writing"
  "\<not> at_entry L (InReadUnlock p)" "\<not> at_entry L (InWriteUnlock p)"
  "at_entry L (InReadLock p) \<longleftrightarrow> p = readLock_entry L"
  "at_entry L (InWriteLock p) \<longleftrightarrow> p = writeLock_entry L"
  by (simp_all add: at_entry_def)

text \<open>The three functions at each point, so that they are never unfolded at a variable.\<close>

lemma shown_at [simp]:
  "shown L W_new x = {INIT}" "shown L W_init x = {INIT}" "shown L W_top x = {INIT, RELEASING}"
  "shown L W_fetch x = {INIT, RELEASING}" "shown L W_refund x = {INIT, RELEASING}"
  "shown L W_call_lock x = {INIT, RELEASING}" "shown L W_finish x = {INIT, RELEASING}"
  "shown L W_in_lock x = (if at_entry L x then {INIT, RELEASING} else {WAITING})"
  "shown L W_abort_exit x = {RELEASING}" "shown L W_exit x = {DONE}" "shown L W_aborted x = {DONE}"
  "shown L W_locked x = {ACTIVE}" "shown L W_read x = {ACTIVE}" "shown L W_load x = {ACTIVE}"
  "shown L (W_store v) x = {ACTIVE}" "shown L W_count_load x = {ACTIVE}"
  "shown L (W_count_store v) x = {ACTIVE}" "shown L W_done_op x = {ACTIVE}"
  "shown L W_call_unlock x = {ACTIVE}" "shown L W_in_unlock x = {ACTIVE}"
  "shown L W_abort_unlock x = {ACTIVE}" "shown L W_in_abort_unlock x = {ACTIVE}"
  by (simp_all add: shown_def)

lemma begun_at [simp]:
  "\<not> begun L W_new x" "\<not> begun L W_init x" "\<not> begun L W_top x" "\<not> begun L W_fetch x"
  "\<not> begun L W_refund x" "\<not> begun L W_call_lock x" "\<not> begun L W_finish x" "\<not> begun L W_exit x"
  "\<not> begun L W_call_unlock x" "\<not> begun L W_in_unlock x"
  "begun L W_in_lock x \<longleftrightarrow> \<not> at_entry L x" "begun L W_locked x \<longleftrightarrow> \<not> at_entry L x"
  "begun L W_read x \<longleftrightarrow> \<not> at_entry L x" "begun L W_load x \<longleftrightarrow> \<not> at_entry L x"
  "begun L (W_store v) x \<longleftrightarrow> \<not> at_entry L x" "begun L W_count_load x \<longleftrightarrow> \<not> at_entry L x"
  "begun L (W_count_store v) x \<longleftrightarrow> \<not> at_entry L x" "begun L W_done_op x \<longleftrightarrow> \<not> at_entry L x"
  "begun L W_abort_unlock x \<longleftrightarrow> \<not> at_entry L x" "begun L W_in_abort_unlock x \<longleftrightarrow> \<not> at_entry L x"
  "begun L W_abort_exit x \<longleftrightarrow> \<not> at_entry L x" "begun L W_aborted x \<longleftrightarrow> \<not> at_entry L x"
  by (simp_all add: begun_def holds_op_def)

lemma coherent_at:
  "coherent ty W_in_lock x \<longleftrightarrow> (if ty = READER then \<exists>q. x = InReadLock q else \<exists>q. x = InWriteLock q)"
  "coherent ty W_in_unlock x \<longleftrightarrow> (if ty = READER then \<exists>q. x = InReadUnlock q else \<exists>q. x = InWriteUnlock q)"
  "coherent ty W_in_abort_unlock x \<longleftrightarrow> ty = WRITER \<and> (\<exists>q. x = InWriteUnlock q)"
  by (simp_all add: coherent_def)

lemma coherent_entry: "coherent ty p x \<Longrightarrow> p \<noteq> W_in_lock \<Longrightarrow> \<not> at_entry L x"
  by (cases p) (auto simp: coherent_def split: if_splits)

lemmas effect_simps = record_effect_def same_identity_def enterWaiting_def enterActive_def complete_op_def

context recording_lock
begin

text \<open>One action of the lock call in progress.\<close>

lemma call_effect:
  assumes act: "in_lock_call L t w returned after p s = Done s'"
    and coh: "coherent ty p (phase (lk s) t)" and at: "points s t = p"
    and p: "p = W_in_lock \<and> returned = (if ty = READER then Reading else Writing)
              \<and> after = (if ty = READER then W_read else W_locked)
          \<or> p = W_in_unlock \<and> returned = Outside \<and> (after = W_fetch \<or> after = W_top)
          \<or> p = W_in_abort_unlock \<and> returned = Outside \<and> after = W_abort_exit"
  shows "record_effect L (now (lk s)) p (phase (lk s) t) (infos (lk s) t)
           (points s' t) (phase (lk s') t) (infos (lk s') t)"
proof -
  obtain k where k: "advance L t w (lk s) = Done k"
    "s' = goto t (if phase k t = returned then after else p) (s\<lparr>lk := k\<rparr>)"
    using act by (auto simp: in_lock_call_Done)
  from k(1) show ?thesis
  proof (cases rule: advance_cases)
    case (readLock q l c r)
    have "p = W_in_lock \<and> returned = Reading \<and> after = W_read"
      using p coh readLock(1) by (auto simp: coherent_at split: if_splits)
    then show ?thesis using k(2) readLock(1,3) record_readLock [OF readLock(2)]
      by (cases r) (auto simp: effect_simps Let_def)
  next
    case (readUnlock q l c r)
    have "p = W_in_unlock \<and> returned = Outside \<and> (after = W_fetch \<or> after = W_top)"
      using p coh readUnlock(1) by (auto simp: coherent_at split: if_splits)
    then show ?thesis using k(2) readUnlock(1,3) record_readUnlock [OF readUnlock(2)] frame_readUnlock [OF readUnlock(2)]
      by (cases r) (auto simp: effect_simps Let_def)
  next
    case (writeLock q l c r)
    have "p = W_in_lock \<and> returned = Writing \<and> after = W_locked"
      using p coh writeLock(1) by (auto simp: coherent_at split: if_splits)
    then show ?thesis using k(2) writeLock(1,3) record_writeLock [OF writeLock(2)]
      by (cases r) (auto simp: effect_simps Let_def)
  next
    case (writeUnlock q l c r)
    have "p = W_in_unlock \<and> returned = Outside \<and> (after = W_fetch \<or> after = W_top)
        \<or> p = W_in_abort_unlock \<and> returned = Outside \<and> after = W_abort_exit"
      using p coh writeUnlock(1) by (auto simp: coherent_at split: if_splits)
    then show ?thesis using k(2) writeUnlock(1,3) record_writeUnlock [OF writeUnlock(2)] frame_writeUnlock [OF writeUnlock(2)]
      by (cases r) (auto simp: effect_simps Let_def)
  qed
qed

lemma reader_effect:
  assumes act: "readerThread L t w p s = Done s'" and coh: "coherent READER p (phase (lk s) t)"
    and at: "points s t = p"
  shows "record_effect L (now (lk s)) p (phase (lk s) t) (infos (lk s) t)
           (points s' t) (phase (lk s') t) (infos (lk s') t)"
proof (cases "p = W_in_lock \<or> p = W_in_unlock")
  case True
  then show ?thesis
  proof
    assume p: "p = W_in_lock"
    then have "in_lock_call L t w Reading W_read p s = Done s'" using act by simp
    then show ?thesis by (rule call_effect [OF _ coh at]) (simp add: p)
  next
    assume p: "p = W_in_unlock"
    then have "in_lock_call L t w Outside W_fetch p s = Done s'" using act by simp
    then show ?thesis by (rule call_effect [OF _ coh at]) (simp add: p)
  qed
next
  case False
  then have "\<not> at_entry L (phase (lk s) t)" using coherent_entry [OF coh] by blast
  then show ?thesis using act at False by (cases p) (auto simp: effect_simps split: if_splits)
qed

lemma writer_effect:
  assumes act: "writerThread L target t w p s = Done s'" and coh: "coherent WRITER p (phase (lk s) t)"
    and at: "points s t = p"
  shows "record_effect L (now (lk s)) p (phase (lk s) t) (infos (lk s) t)
           (points s' t) (phase (lk s') t) (infos (lk s') t)"
proof (cases "p = W_in_lock \<or> p = W_in_unlock \<or> p = W_in_abort_unlock")
  case True
  then show ?thesis
  proof (elim disjE)
    assume p: "p = W_in_lock"
    then have "in_lock_call L t w Writing W_locked p s = Done s'" using act by simp
    then show ?thesis by (rule call_effect [OF _ coh at]) (simp add: p)
  next
    assume p: "p = W_in_unlock"
    then have "in_lock_call L t w Outside W_top p s = Done s'" using act by simp
    then show ?thesis by (rule call_effect [OF _ coh at]) (simp add: p)
  next
    assume p: "p = W_in_abort_unlock"
    then have "in_lock_call L t w Outside W_abort_exit p s = Done s'" using act by simp
    then show ?thesis by (rule call_effect [OF _ coh at]) (simp add: p)
  qed
next
  case False
  then have "\<not> at_entry L (phase (lk s) t)" using coherent_entry [OF coh] by blast
  then show ?thesis using act at False by (cases p) (auto simp: effect_simps Let_def split: if_splits)
qed

lemma act_effect:
  assumes act: "worker_act L cfg t w s = Done s'"
    and coh: "coherent (arg_type (thread_arg cfg t)) (points s t) (phase (lk s) t)"
  shows "record_effect L (now (lk s)) (points s t) (phase (lk s) t) (infos (lk s) t)
           (points s' t) (phase (lk s') t) (infos (lk s') t)"
proof (cases "points s t = W_new")
  case True
  then show ?thesis using act coh
    by (auto simp: worker_act_def coherent_def effect_simps split: if_splits)
next
  case False
  then show ?thesis
    using act coh reader_effect writer_effect
    by (cases "arg_type (thread_arg cfg t)") (auto simp: worker_act_def split: if_splits)
qed

end

lemma transition_infos [simp]:
  "c_info (transitionWaiting m c) = enterWaiting (c_now c) (c_info c)"
  "c_info (transitionActive m c) = enterActive (c_later c) (c_info c)"
  "c_info (transitionReleasing m c) = (c_info c)\<lparr>ti_state := RELEASING\<rparr>"
  by (simp_all add: transitionWaiting_def transitionActive_def transitionReleasing_def Let_def)

lemma rp_records:
  "rp_readLock p t w (l, c) = Done (l', c', r) \<Longrightarrow>
     c_info c' = (if p = RL_waiting then enterWaiting (c_now c) (c_info c)
       else if r = None then enterActive (c_later c) (c_info c) else c_info c)
   \<and> r \<noteq> Some RL_waiting \<and> (p = RL_waiting \<longrightarrow> r \<noteq> None)"
  "rp_writeLock p t w (l, c) = Done (l', c', r) \<Longrightarrow>
     c_info c' = (if p = WL_waiting then enterWaiting (c_now c) (c_info c)
       else if r = None then enterActive (c_later c) (c_info c) else c_info c)
   \<and> r \<noteq> Some WL_waiting \<and> (p = WL_waiting \<longrightarrow> r \<noteq> None)"
  "rp_readUnlock p t w (l, c) = Done (l', c', r) \<Longrightarrow>
     c_info c' = (if r = None then (c_info c)\<lparr>ti_state := RELEASING\<rparr> else c_info c)"
  "rp_writeUnlock p t w (l, c) = Done (l', c', r) \<Longrightarrow>
     c_info c' = (if r = None then (c_info c)\<lparr>ti_state := RELEASING\<rparr> else c_info c)"
  by (cases p; auto simp: outcome_simps Let_def split: if_splits)+

lemma wp_records:
  "wp_readLock p t w (l, c) = Done (l', c', r) \<Longrightarrow>
     c_info c' = (if p = WpRL_waiting then enterWaiting (c_now c) (c_info c)
       else if r = None then enterActive (c_later c) (c_info c) else c_info c)
   \<and> r \<noteq> Some WpRL_waiting \<and> (p = WpRL_waiting \<longrightarrow> r \<noteq> None)"
  "wp_writeLock p t w (l, c) = Done (l', c', r) \<Longrightarrow>
     c_info c' = (if p = WpWL_waiting then enterWaiting (c_now c) (c_info c)
       else if r = None then enterActive (c_later c) (c_info c) else c_info c)
   \<and> r \<noteq> Some WpWL_waiting \<and> (p = WpWL_waiting \<longrightarrow> r \<noteq> None)"
  "wp_readUnlock p t w (l, c) = Done (l', c', r) \<Longrightarrow>
     c_info c' = (if r = None then (c_info c)\<lparr>ti_state := RELEASING\<rparr> else c_info c)"
  "wp_writeUnlock p t w (l, c) = Done (l', c', r) \<Longrightarrow>
     c_info c' = (if r = None then (c_info c)\<lparr>ti_state := RELEASING\<rparr> else c_info c)"
  by (cases p; auto simp: outcome_simps Let_def split: if_splits)+

lemma fa_records:
  "fa_readLock p t w (l, c) = Done (l', c', r) \<Longrightarrow>
     c_info c' = (if p = FaRL_waiting then enterWaiting (c_now c) (c_info c)
       else if r = None then enterActive (c_later c) (c_info c) else c_info c)
   \<and> r \<noteq> Some FaRL_waiting \<and> (p = FaRL_waiting \<longrightarrow> r \<noteq> None)"
  "fa_writeLock p t w (l, c) = Done (l', c', r) \<Longrightarrow>
     c_info c' = (if p = FaWL_waiting then enterWaiting (c_now c) (c_info c)
       else if r = None then enterActive (c_later c) (c_info c) else c_info c)
   \<and> r \<noteq> Some FaWL_waiting \<and> (p = FaWL_waiting \<longrightarrow> r \<noteq> None)"
  "fa_readUnlock p t w (l, c) = Done (l', c', r) \<Longrightarrow>
     c_info c' = (if r = None then (c_info c)\<lparr>ti_state := RELEASING\<rparr> else c_info c)"
  "fa_writeUnlock p t w (l, c) = Done (l', c', r) \<Longrightarrow>
     c_info c' = (if r = None then (c_info c)\<lparr>ti_state := RELEASING\<rparr> else c_info c)"
  by (cases p; auto simp: outcome_simps Let_def split: if_splits)+

interpretation rp_rec: recording_lock rp_class ReaderPriorityLock rp_inv
  by unfold_locales (use rp_records in simp_all)

interpretation wp_rec: recording_lock wp_class WriterPriorityLock wp_inv
  by unfold_locales (use wp_records in simp_all)

interpretation fa_rec: recording_lock fa_class FairMorrisLock fa_inv
  by unfold_locales (use fa_records in simp_all)

section \<open>Properties\<close>

text \<open>Writer 1 acquires, posts \<open>wrt_\<close> and is interrupted; writer 2 acquires.\<close>

definition two_writers :: "sched_event list" where
  "two_writers = [CallWriteLock 1, Act 1, Act 1, Act 1, Act 1, CallWriteUnlock 1, Act 1, Act 1,
     CallWriteLock 2, Act 2, Act 2, Act 2, Act 2]"

text \<open>
  C36: \<open>RELEASING\<close> is stored only after the lock has been given up: with \<open>ReaderPriorityLock\<close> a reachable state
  has two writers whose records both show \<open>ACTIVE\<close>, one that holds the lock and one that has already
  released it and not yet called \<open>transitionReleasing\<close>.
\<close>

theorem rp_two_writers_active:
  "\<exists>s. rp_reachable s \<and> phase s 1 = InWriteUnlock WU_releasing \<and> phase s 2 = Writing
     \<and> ti_state (infos s 1) = ACTIVE \<and> ti_state (infos s 2) = ACTIVE"
proof -
  have "\<exists>s. sched_run rp_class two_writers rp_start = Done s
     \<and> phase s 1 = InWriteUnlock WU_releasing \<and> phase s 2 = Writing
     \<and> ti_state (infos s 1) = ACTIVE \<and> ti_state (infos s 2) = ACTIVE"
    by (simp add: two_writers_def rp_run_simps enterActive_def)
  then show ?thesis using rp_run_reachable by blast
qed

end
