(* ===== verification/Single_Writer.thy ===== *)
theory Single_Writer
  imports Simulation
begin

text \<open>
  A simulation with \<open>FairMorrisLock\<close> can hang, but not with a single writer: the result of \<open>Fair_Morris\<close> about
  the lock, whose client may be anything that calls \<open>writeLock\<close> from one thread only, carried over to the
  workers of \<open>src/main.cpp\<close>: in every state of every run, either all workers have returned or some worker can
  act, without the help of a spurious wakeup.
\<close>

section \<open>The one writer of a simulation\<close>

definition the_writer :: "SimConfig \<Rightarrow> tid" where
  "the_writer cfg = nat (cfg_numReaders cfg)"

lemma writer_unique:
  assumes "valid_cfg cfg" and "cfg_numWriters cfg \<le> 1" and "t < num_threads cfg"
    and "arg_type (thread_arg cfg t) = WRITER"
  shows "t = the_writer cfg"
  using assms by (auto simp: the_writer_def num_threads_def thread_arg_def valid_cfg_def split: if_splits)

lemma fa_solo_step:
  assumes solo: "fa_solo v (shared s) (phase s)" and step: "lock_step fa_class s s'"
    and only: "\<And>t p. phase s' t = InWriteLock p \<Longrightarrow> t = v"
  shows "fa_solo v (shared s') (phase s')"
  using step
proof (cases rule: lock_step.cases)
  case (call_readLock t)
  then have "sched_do fa_class (CallReadLock t) s = Done s'" by simp
  then show ?thesis by (rule fa_solo_calls [OF solo]) simp
next
  case (call_readUnlock t)
  then have "sched_do fa_class (CallReadUnlock t) s = Done s'" by simp
  then show ?thesis by (rule fa_solo_calls [OF solo]) simp
next
  case (call_writeLock t)
  then have "sched_do fa_class (CallWriteLock t) s = Done s'" by simp
  then show ?thesis by (rule fa_solo_calls [OF solo]) (use only [of t] call_writeLock in simp)
next
  case (call_writeUnlock t)
  then have "sched_do fa_class (CallWriteUnlock t) s = Done s'" by simp
  then show ?thesis by (rule fa_solo_calls [OF solo]) simp
next
  case (run t w)
  then obtain e where "sched_do fa_class e s = Done s'" "\<exists>u. e = ActWake t u \<or> e = ActSpurious t"
    using sched_advance by blast
  then show ?thesis by (intro fa_solo_calls [OF solo, of e]) auto
next
  case other
  then show ?thesis using solo by simp
qed

lemma fa_solo_simulation:
  assumes cfg: "valid_cfg cfg" "cfg_numWriters cfg \<le> 1"
    and "reachable (sim_start FairMorrisLock cfg g) (sim_step fa_class cfg) s"
  shows "fa_solo (the_writer cfg) (shared (lk s)) (phase (lk s))"
  using assms(3)
proof (induction rule: reachable.induct)
  case reachable_init
  show ?case using fa_solo_start by (simp add: sim_start_simps lock_start_def)
next
  case (reachable_step s s')
  note inv = fa_sim.sim_inv_reachable [OF cfg(1) reachable_step(1)]
  from reachable_step(2) show ?case
  proof (cases rule: sim_step.cases)
    case (work t w)
    note inv' = fa_sim.sim_inv_work [OF cfg(1) inv work]
    show ?thesis
    proof (rule fa_solo_step [OF reachable_step(3) fa_sim.worker_act_effect(2) [OF work inv]])
      fix u p assume call: "phase (lk s') u = InWriteLock p"
      note coh = sim_inv_facts(2) [OF inv', of u]
      have "points s' u = W_in_lock \<and> arg_type (thread_arg cfg u) = WRITER"
        using coh call by (cases "points s' u"; cases "arg_type (thread_arg cfg u)") (auto simp: coherent_def)
      moreover from this have "u < num_threads cfg" using sim_inv_facts(3) [OF inv', of u] by (cases "num_threads cfg \<le> u") auto
      ultimately show "u = the_writer cfg" using writer_unique [OF cfg] by blast
    qed
  qed (use reachable_step(3) in simp_all)
qed

section \<open>Somebody can act\<close>

lemma fa_some_worker_acts:
  assumes cfg: "valid_cfg cfg" "cfg_numWriters cfg \<le> 1"
    and r: "reachable (sim_start FairMorrisLock cfg g) (sim_step fa_class cfg) s"
    and t: "t < num_threads cfg" "\<not> worker_done (points s t)"
  shows "\<exists>v u s'. worker_act fa_class cfg v (Pick u) s = Done s'"
proof (cases "\<exists>u < num_threads cfg. \<not> worker_done (points s u) \<and> \<not> in_call (phase (lk s) u)")
  case True
  then show ?thesis using acts_outside_calls sim_inv_facts(2) [OF fa_sim.sim_inv_reachable [OF cfg(1) r]] by blast
next
  case False
  note inv = fa_sim.sim_inv_reachable [OF cfg(1) r]
  note inside = all_in_calls [OF inv False]
  have idle: "phase (lk s) u \<noteq> Reading \<and> phase (lk s) u \<noteq> Writing" for u
    using inside [of u] by (auto simp: in_call_def)
  have "in_call (phase (lk s) t)" using False t by blast
  with idle fa_not_deadlocked [OF fa_solo_simulation [OF cfg r]]
  obtain e k where e: "\<not> starts_request e" "\<not> spurious_event e" "sched_do fa_class e (lk s) = Done k"
    unfolding deadlocked_def by blast
  obtain v u where adv: "advance fa_class v (Pick u) (lk s) = Done k"
    using e idle by (cases e) (auto simp: starts_request_def spurious_event_def split: phase.splits)
  then have "in_call (phase (lk s) v)" by (auto elim!: advance_cases)
  then have "v < num_threads cfg" using inside [of v] by auto
  then show ?thesis using acts_in_call [OF _ adv sim_inv_facts(2) [OF inv]] by blast
qed

definition one_writer_cfg :: SimConfig where
  "one_writer_cfg = default_SimConfig\<lparr>cfg_numReaders := 2, cfg_numWriters := 1, cfg_totalOps := 3\<rparr>"

lemma one_writer_valid: "valid_cfg one_writer_cfg" "cfg_numWriters one_writer_cfg \<le> 1"
  by (simp_all add: one_writer_cfg_def valid_cfg_def default_SimConfig_def)

end
