(* ===== verification/Fair_Work.thy ===== *)
theory Fair_Work
  imports Simulation
begin

text \<open>
  What bounds a simulation under \<open>FairMorrisLock\<close>.  A thread that fails its test goes around the loop of
  \<open>pthread_cond_wait\<close> again, but only after somebody woke it, and an unlock call wakes each sleeper at most
  once: so the actions of a run are bounded up to its spurious wakeups, each of which costs five more.
\<close>

section \<open>The measure\<close>

text \<open>
  Actions left of a call of thread \<open>t\<close> if nobody wakes it (again); an unlock call also pays for the rounds
  of the at most \<open>n\<close> threads it may wake.
\<close>

fun fa_rank :: "nat \<Rightarrow> fa_lock \<Rightarrow> tid \<Rightarrow> fa_point \<Rightarrow> nat" where
  "fa_rank n l t FaRL_waiting = 6"
| "fa_rank n l t FaRL_lock = 5"
| "fa_rank n l t FaRL_test = 4"
| "fa_rank n l t FaRL_enqueue = 3"
| "fa_rank n l t FaRL_wait = 2"
| "fa_rank n l t FaRL_asleep = (if t \<in> fa_readCond l then 1 else 6)"
| "fa_rank n l t FaRL_dequeue = 5"
| "fa_rank n l t FaRL_fetch_add = 3"
| "fa_rank n l t (FaRL_unlock rc) = 2"
| "fa_rank n l t (FaRL_active rc) = 1"
| "fa_rank n l t FaRU_lock = 5 * n + 5"
| "fa_rank n l t FaRU_fetch_sub = 5 * n + 4"
| "fa_rank n l t (FaRU_notify rc) = 5 * n + 3"
| "fa_rank n l t (FaRU_unlock rc) = 2"
| "fa_rank n l t (FaRU_releasing rc) = 1"
| "fa_rank n l t FaWL_waiting = 6"
| "fa_rank n l t FaWL_lock = 5"
| "fa_rank n l t FaWL_test = 4"
| "fa_rank n l t FaWL_enqueue = 3"
| "fa_rank n l t FaWL_wait = 2"
| "fa_rank n l t FaWL_asleep = (if t \<in> fa_writeCond l then 1 else 6)"
| "fa_rank n l t FaWL_dequeue = 5"
| "fa_rank n l t FaWL_store = 3"
| "fa_rank n l t FaWL_unlock = 2"
| "fa_rank n l t FaWL_active = 1"
| "fa_rank n l t FaWU_lock = 5 * n + 5"
| "fa_rank n l t FaWU_store = 5 * n + 4"
| "fa_rank n l t FaWU_notify = 5 * n + 3"
| "fa_rank n l t FaWU_unlock = 2"
| "fa_rank n l t FaWU_releasing = 1"

definition fa_notifies :: "fa_point phase \<Rightarrow> bool" where
  "fa_notifies x \<longleftrightarrow> (\<exists>rc. x = InReadUnlock (FaRU_notify rc)) \<or> x = InWriteUnlock FaWU_notify"

definition fa_work :: "SimConfig \<Rightarrow> (fa_lock, fa_point) sim \<Rightarrow> nat" where
  "fa_work cfg s = (let n = num_threads cfg in work_with (5 * n + 6) (fa_rank n (shared (lk s))) cfg s)"

section \<open>What an action does to it\<close>

lemma fa_sleepers:
  assumes "advance fa_class t w k = Done k'"
  shows "u \<noteq> t \<Longrightarrow> \<not> fa_notifies (phase k t) \<Longrightarrow> u \<in> fa_readCond (shared k') \<longleftrightarrow> u \<in> fa_readCond (shared k)"
    and "u \<noteq> t \<Longrightarrow> \<not> fa_notifies (phase k t) \<Longrightarrow> u \<in> fa_writeCond (shared k') \<longleftrightarrow> u \<in> fa_writeCond (shared k)"
  using assms
  by (auto simp: fa_notifies_def pthread_mutex_lock_def outcome_simps Let_def elim!: advance_cases fa_readLock.elims
      fa_readUnlock.elims fa_writeLock.elims fa_writeUnlock.elims split: if_splits)

lemma fa_others_rank:
  assumes "advance fa_class t w k = Done k'" and "u \<noteq> t"
  shows "call_rank (fa_rank n (shared k') u) x
       \<le> call_rank (fa_rank n (shared k) u) x + (if fa_notifies (phase k t) then 5 else 0)"
proof -
  have "fa_rank n (shared k') u p \<le> fa_rank n (shared k) u p + (if fa_notifies (phase k t) then 5 else 0)" for p
    using fa_sleepers [OF assms(1), of u] assms(2) by (cases p) auto
  then show ?thesis by (cases x) simp_all
qed

lemma fa_own_rank:
  assumes "advance fa_class t w k = Done k'"
  shows "lowers (fa_rank n (shared k) t) (fa_rank n (shared k') t) (if fa_notifies (phase k t) then 5 * n else 0)
           (if w = Spurious then 5 else 0) (phase k t) (phase k' t)"
  using assms
  by (auto simp: lowers_def fa_notifies_def cond_woken_def pthread_mutex_lock_def outcome_simps Let_def
      elim!: advance_cases fa_readLock.elims fa_readUnlock.elims fa_writeLock.elims fa_writeUnlock.elims
      split: if_splits)

lemma act_call:
  assumes act: "worker_act L cfg t w s = Done s'"
    and coh: "coherent (arg_type (thread_arg cfg t)) (points s t) (phase (lk s) t)"
  shows "in_call (phase (lk s) t) \<Longrightarrow> advance L t w (lk s) = Done (lk s')"
    and "\<not> in_call (phase (lk s) t) \<Longrightarrow> shared (lk s') = shared (lk s)"
proof -
  have "if in_call (phase (lk s) t) then advance L t w (lk s) = Done (lk s') else shared (lk s') = shared (lk s)"
    using assms
    by (cases "arg_type (thread_arg cfg t)"; cases "points s t")
       (auto simp: worker_act_def coherent_def in_lock_call_Done Let_def split: if_splits)
  then show "in_call (phase (lk s) t) \<Longrightarrow> advance L t w (lk s) = Done (lk s')"
    and "\<not> in_call (phase (lk s) t) \<Longrightarrow> shared (lk s') = shared (lk s)" by simp_all
qed

lemma fa_entries: "entries_within fa_class (5 * n + 6) (fa_rank n l t)"
  by (simp add: entries_within_def)

lemma fa_work_decreases:
  assumes cfg: "valid_cfg cfg" and act: "worker_act fa_class cfg t w s = Done s'"
    and inv: "sim_inv fa_class FairMorrisLock cfg s"
  shows "fa_work cfg s' < fa_work cfg s + (if w = Spurious then 5 else 0)"
proof -
  let ?n = "num_threads cfg" and ?x = "phase (lk s) t"
  note call = act_call [OF act sim_inv_facts(2) [OF inv]]
  define c e where "c = (if fa_notifies ?x then 5 * ?n else 0)" and "e = (if fa_notifies ?x then 5 else 0 :: nat)"
  have calm: "\<not> fa_notifies ?x" if "\<not> in_call ?x" using that by (auto simp: fa_notifies_def)
  have "work_with (5 * ?n + 6) (fa_rank ?n (shared (lk s'))) cfg s'
      < work_with (5 * ?n + 6) (fa_rank ?n (shared (lk s))) cfg s + (if w = Spurious then 5 else 0)"
  proof (rule fa_sim.work_with_decreases [OF cfg act inv fa_entries, where c = c and e = e])
    show "lowers (fa_rank ?n (shared (lk s)) t) (fa_rank ?n (shared (lk s')) t) c (if w = Spurious then 5 else 0)
        ?x (phase k t)" if k: "advance fa_class t w (lk s) = Done k" for k
    proof -
      have "in_call ?x" using k by (auto elim!: advance_cases)
      then have "k = lk s'" using call(1) k by simp
      then show ?thesis using fa_own_rank [OF k, of ?n] by (simp add: c_def)
    qed
    show "c = 0" if "\<not> in_call ?x" using calm [OF that] by (simp add: c_def)
    show "call_rank (fa_rank ?n (shared (lk s')) u) (phase (lk s) u)
        \<le> call_rank (fa_rank ?n (shared (lk s)) u) (phase (lk s) u) + e" if "u \<noteq> t" for u
    proof (cases "in_call ?x")
      case True
      show ?thesis unfolding e_def by (rule fa_others_rank [OF call(1) [OF True] that])
    next
      case False
      then show ?thesis using call(2) by simp
    qed
    show "e * ?n \<le> c" by (simp add: c_def e_def)
  qed
  then show ?thesis by (simp add: fa_work_def Let_def)
qed

lemma fa_work_start: "fa_work cfg (sim_start FairMorrisLock cfg g)
    = nat (cfg_totalOps cfg) * (10 * num_threads cfg + 26) + 6 * num_threads cfg"
proof -
  have "claimed cfg (sim_start FairMorrisLock cfg g :: (fa_lock, fa_point) sim) = 0"
    unfolding claimed_def by (rule sum.neutral) (simp add: op_account_def holds_op_def sim_start_simps)
  then show ?thesis
    by (simp add: fa_work_def work_with_def sim_start_simps point_work_def op_cost_def Let_def algebra_simps)
qed

end
