(* ===== verification/Timing.thy ===== *)
theory Timing
  imports Recording
begin

text \<open>
  What the workers' actions do to the times in their records: \<open>waitStart\<close> is set by the first action of a
  lock call, \<open>totalWaitMs\<close> grows by the wait in its last one, and nothing else changes either.
\<close>

definition waiting_at :: "('l, 'p) RWLockBase \<Rightarrow> worker_point \<Rightarrow> 'p phase \<Rightarrow> bool" where
  "waiting_at L p x \<longleftrightarrow> p = W_in_lock \<and> \<not> at_entry L x"

text \<open>\<open>n\<close> and \<open>n'\<close> are the two clock readings an action can take.\<close>

definition clock_effect ::
    "('l, 'p) RWLockBase \<Rightarrow> TimePoint \<Rightarrow> TimePoint \<Rightarrow> worker_point \<Rightarrow> 'p phase \<Rightarrow> ThreadInfo
       \<Rightarrow> worker_point \<Rightarrow> 'p phase \<Rightarrow> ThreadInfo \<Rightarrow> bool" where
  "clock_effect L n n' p x i p' x' j \<longleftrightarrow>
     (if at_entry L x then ti_waitStart j = n \<and> ti_totalWaitMs j = ti_totalWaitMs i \<and> waiting_at L p' x'
      else if waiting_at L p x \<and> \<not> waiting_at L p' x'
      then ti_totalWaitMs j = ti_totalWaitMs i + duration_cast_ms (n' - ti_waitStart i)
      else ti_waitStart j = ti_waitStart i \<and> ti_totalWaitMs j = ti_totalWaitMs i
         \<and> (waiting_at L p' x' \<longrightarrow> waiting_at L p x))"

lemmas clock_simps = clock_effect_def waiting_at_def enterWaiting_def enterActive_def complete_op_def

context recording_lock
begin

lemma call_clock:
  assumes act: "in_lock_call L t w returned after p s = Done s'"
    and coh: "coherent ty p (phase (lk s) t)" and at: "points s t = p"
    and p: "p = W_in_lock \<and> returned = (if ty = READER then Reading else Writing)
              \<and> after = (if ty = READER then W_read else W_locked)
          \<or> p = W_in_unlock \<and> returned = Outside \<and> (after = W_fetch \<or> after = W_top)
          \<or> p = W_in_abort_unlock \<and> returned = Outside \<and> after = W_abort_exit"
  shows "clock_effect L (now (lk s)) (later (lk s)) p (phase (lk s) t) (infos (lk s) t)
           (points s' t) (phase (lk s') t) (infos (lk s') t)
         \<and> now (lk s') = now (lk s) \<and> later (lk s') = later (lk s)"
proof -
  obtain k where k: "advance L t w (lk s) = Done k"
    "s' = goto t (if phase k t = returned then after else p) (s\<lparr>lk := k\<rparr>)"
    using act by (auto simp: in_lock_call_Done)
  from k(1) show ?thesis
  proof (cases rule: advance_cases)
    case (readLock q l c r)
    have "p = W_in_lock \<and> returned = Reading \<and> after = W_read"
      using p coh readLock(1) by (auto simp: coherent_at split: if_splits)
    then show ?thesis using k(2) readLock(1,3) record_readLock [OF readLock(2)]
      by (cases r) (auto simp: clock_simps Let_def)
  next
    case (readUnlock q l c r)
    have "p = W_in_unlock \<and> returned = Outside \<and> (after = W_fetch \<or> after = W_top)"
      using p coh readUnlock(1) by (auto simp: coherent_at split: if_splits)
    then show ?thesis using k(2) readUnlock(1,3) record_readUnlock [OF readUnlock(2)]
      by (cases r) (auto simp: clock_simps Let_def)
  next
    case (writeLock q l c r)
    have "p = W_in_lock \<and> returned = Writing \<and> after = W_locked"
      using p coh writeLock(1) by (auto simp: coherent_at split: if_splits)
    then show ?thesis using k(2) writeLock(1,3) record_writeLock [OF writeLock(2)]
      by (cases r) (auto simp: clock_simps Let_def)
  next
    case (writeUnlock q l c r)
    have "p = W_in_unlock \<and> returned = Outside \<and> (after = W_fetch \<or> after = W_top)
        \<or> p = W_in_abort_unlock \<and> returned = Outside \<and> after = W_abort_exit"
      using p coh writeUnlock(1) by (auto simp: coherent_at split: if_splits)
    then show ?thesis using k(2) writeUnlock(1,3) record_writeUnlock [OF writeUnlock(2)]
      by (cases r) (auto simp: clock_simps Let_def)
  qed
qed

end

text \<open>Outside lock calls the two times do not change, nor do the clocks in any action.\<close>

lemma clock_frames [simp]:
  "now (lk (goto t p s)) = now (lk s)" "later (lk (goto t p s)) = later (lk s)"
  "now (lk (set_info t f s)) = now (lk s)" "later (lk (set_info t f s)) = later (lk s)"
  "now (lk (worker_log t st w m s)) = now (lk s)" "later (lk (worker_log t st w m s)) = later (lk s)"
  "now (lk (worker_summary t s)) = now (lk s)" "later (lk (worker_summary t s)) = later (lk s)"
  "now (lk (enter_call t x s)) = now (lk s)" "later (lk (enter_call t x s)) = later (lk s)"
  "now (lk (fetch_op t s)) = now (lk s)" "later (lk (fetch_op t s)) = later (lk s)"
  "now (lk (refund_op t s)) = now (lk s)" "later (lk (refund_op t s)) = later (lk s)"
  by (simp_all add: set_info_def worker_log_def worker_summary_def enter_call_def fetch_op_def refund_op_def Let_def)

context recording_lock
begin

lemma reader_clock:
  assumes act: "readerThread L t w p s = Done s'" and coh: "coherent READER p (phase (lk s) t)"
    and at: "points s t = p"
  shows "clock_effect L (now (lk s)) (later (lk s)) p (phase (lk s) t) (infos (lk s) t)
           (points s' t) (phase (lk s') t) (infos (lk s') t)
         \<and> now (lk s') = now (lk s) \<and> later (lk s') = later (lk s)"
proof (cases "p = W_in_lock \<or> p = W_in_unlock")
  case True
  then show ?thesis
  proof
    assume p: "p = W_in_lock"
    then have "in_lock_call L t w Reading W_read p s = Done s'" using act by simp
    then show ?thesis by (rule call_clock [OF _ coh at]) (simp add: p)
  next
    assume p: "p = W_in_unlock"
    then have "in_lock_call L t w Outside W_fetch p s = Done s'" using act by simp
    then show ?thesis by (rule call_clock [OF _ coh at]) (simp add: p)
  qed
next
  case False
  then have "\<not> at_entry L (phase (lk s) t)" using coherent_entry [OF coh] by blast
  then show ?thesis using act at False by (cases p) (auto simp: clock_simps split: if_splits)
qed

lemma writer_clock:
  assumes act: "writerThread L target t w p s = Done s'" and coh: "coherent WRITER p (phase (lk s) t)"
    and at: "points s t = p"
  shows "clock_effect L (now (lk s)) (later (lk s)) p (phase (lk s) t) (infos (lk s) t)
           (points s' t) (phase (lk s') t) (infos (lk s') t)
         \<and> now (lk s') = now (lk s) \<and> later (lk s') = later (lk s)"
proof (cases "p = W_in_lock \<or> p = W_in_unlock \<or> p = W_in_abort_unlock")
  case True
  then show ?thesis
  proof (elim disjE)
    assume p: "p = W_in_lock"
    then have "in_lock_call L t w Writing W_locked p s = Done s'" using act by simp
    then show ?thesis by (rule call_clock [OF _ coh at]) (simp add: p)
  next
    assume p: "p = W_in_unlock"
    then have "in_lock_call L t w Outside W_top p s = Done s'" using act by simp
    then show ?thesis by (rule call_clock [OF _ coh at]) (simp add: p)
  next
    assume p: "p = W_in_abort_unlock"
    then have "in_lock_call L t w Outside W_abort_exit p s = Done s'" using act by simp
    then show ?thesis by (rule call_clock [OF _ coh at]) (simp add: p)
  qed
next
  case False
  then have "\<not> at_entry L (phase (lk s) t)" using coherent_entry [OF coh] by blast
  then show ?thesis using act at False by (cases p) (auto simp: clock_simps Let_def split: if_splits)
qed

lemma act_clock:
  assumes act: "worker_act L cfg t w s = Done s'"
    and coh: "coherent (arg_type (thread_arg cfg t)) (points s t) (phase (lk s) t)"
  shows "clock_effect L (now (lk s)) (later (lk s)) (points s t) (phase (lk s) t) (infos (lk s) t)
           (points s' t) (phase (lk s') t) (infos (lk s') t)"
    and "now (lk s') = now (lk s)" and "later (lk s') = later (lk s)"
proof -
  have "clock_effect L (now (lk s)) (later (lk s)) (points s t) (phase (lk s) t) (infos (lk s) t)
           (points s' t) (phase (lk s') t) (infos (lk s') t)
         \<and> now (lk s') = now (lk s) \<and> later (lk s') = later (lk s)"
  proof (cases "points s t = W_new")
    case True
    then show ?thesis using act coh
      by (auto simp: worker_act_def coherent_def clock_simps split: if_splits)
  next
    case False
    then show ?thesis
      using act coh reader_clock writer_clock
      by (cases "arg_type (thread_arg cfg t)") (auto simp: worker_act_def split: if_splits)
  qed
  then show "clock_effect L (now (lk s)) (later (lk s)) (points s t) (phase (lk s) t) (infos (lk s) t)
           (points s' t) (phase (lk s') t) (infos (lk s') t)"
    and "now (lk s') = now (lk s)" and "later (lk s') = later (lk s)" by blast+
qed

end

end
