(* ===== verification/Run_Simulation.thy ===== *)
theory Run_Simulation
  imports Timing Simulation_Report Watchdog
begin

text \<open>
  \<open>runSimulation\<close> of \<open>src/main.cpp\<close> as a whole: the main thread, the workers and the watchdog, interleaved
  action by action over the same records and the same logger.  Each run of this system is a run of the
  workers as \<open>Worker\<close> describes them and a run of the watchdog as \<open>Watchdog\<close> describes it, so the results
  of both carry over; new ones follow from the two together.
\<close>

section \<open>The state\<close>

text \<open>Where the main thread stands in \<open>runSimulation\<close>; it ends with a result or with an exception.\<close>

datatype main_point =
    M_header | M_watchdog | M_measure | M_create nat | M_join nat | M_stop | M_join_watchdog | M_report
  | M_returned MetricsResult | M_threw int string

text \<open>
  The registry of the watchdog holds pointers to the records the workers own, so it is not a field here.
  \<open>waits\<close> is the ghost of the watchdog's model: how many waits each thread has begun.
\<close>

record ('l, 'p) program =
  sim_of :: "('l, 'p) sim"
  dog_running :: bool
  dog_total :: int
  dog_at :: watchdog_point
  waits :: "nat list"
  main_at :: main_point
  wall_start :: TimePoint
  wall_end :: TimePoint
  usage_before :: "(int \<times> int) option"
  usage_after :: "(int \<times> int) option"

definition registry :: "SimConfig \<Rightarrow> ('l, 'p) program \<Rightarrow> ThreadInfo list" where
  "registry cfg x = map (infos (lk (sim_of x))) [0..<num_threads cfg]"

text \<open>What the watchdog sees of the program, and how its actions change it.\<close>

definition dog_view :: "SimConfig \<Rightarrow> ('l, 'p) program \<Rightarrow> watchdog" where
  "dog_view cfg x =
     \<lparr>wd_running = dog_running x, wd_totalEvents = dog_total x, wd_point = dog_at x,
      wd_registry = registry cfg x, wd_cfg = cfg, wd_logger = logger (lk (sim_of x)), wd_waits = waits x\<rparr>"

definition set_dog :: "watchdog \<Rightarrow> ('l, 'p) program \<Rightarrow> ('l, 'p) program" where
  "set_dog d x = x\<lparr>dog_running := wd_running d, dog_total := wd_totalEvents d, dog_at := wd_point d,
                   waits := wd_waits d\<rparr>"

definition write_records :: "ThreadInfo list \<Rightarrow> (tid \<Rightarrow> ThreadInfo) \<Rightarrow> tid \<Rightarrow> ThreadInfo" where
  "write_records is f = (\<lambda>t. if t < length is then is ! t else f t)"

definition put_dog :: "watchdog \<Rightarrow> ('l, 'p) program \<Rightarrow> ('l, 'p) program" where
  "put_dog d x =
     (let s = sim_of x; k = lk s
      in (set_dog d x)\<lparr>sim_of := s\<lparr>lk := k\<lparr>infos := write_records (wd_registry d) (infos k),
                                          logger := wd_logger d\<rparr>\<rparr>\<rparr>)"

definition set_main :: "main_point \<Rightarrow> ('l, 'p) program \<Rightarrow> ('l, 'p) program" where
  "set_main m x = x\<lparr>main_at := m\<rparr>"

definition main_log :: "string \<Rightarrow> ('l, 'p) program \<Rightarrow> ('l, 'p) program" where
  "main_log msg x =
     (let s = sim_of x; k = lk s in x\<lparr>sim_of := s\<lparr>lk := k\<lparr>logger := log_header msg (logger k)\<rparr>\<rparr>\<rparr>)"

section \<open>The main thread\<close>

text \<open>
  The next action of the main thread; \<open>rc\<close> is what a \<open>pthread_create\<close> returns and \<open>usage\<close> what a
  \<open>getrusage\<close> returns, in the actions that call them.  \<open>None\<close> while a join has to wait.
\<close>

fun main_act ::
    "SimConfig \<Rightarrow> int \<Rightarrow> (int \<times> int) option \<Rightarrow> main_point \<Rightarrow> ('l, 'p) program \<Rightarrow> ('l, 'p) program option" where
  "main_act cfg rc usage M_header x = Some (set_main M_watchdog (main_log (simulation_header cfg) x))"
| "main_act cfg rc usage M_watchdog x =
     (case Watchdog_start rc (registry cfg x) cfg (dog_view cfg x) of
        Inl e \<Rightarrow> Some (set_main (M_threw e ''Watchdog pthread_create'') x)
      | Inr d \<Rightarrow> Some (set_main M_measure (set_dog d x)))"
| "main_act cfg rc usage M_measure x =
     Some (set_main (M_create 0) (x\<lparr>usage_before := usage, wall_start := now (lk (sim_of x))\<rparr>))"
| "main_act cfg rc usage (M_create t) x =
     (if t < num_threads cfg
      then if rc \<noteq> 0
           then Some (set_main (M_threw rc (if int t < cfg_numReaders cfg then ''pthread_create reader''
                                            else ''pthread_create writer'')) x)
           else Some (set_main (M_create (t + 1)) (x\<lparr>sim_of := goto t W_init (sim_of x)\<rparr>))
      else Some (set_main (M_join 0) x))"
| "main_act cfg rc usage (M_join t) x =
     (if t < num_threads cfg
      then if worker_done (points (sim_of x) t) then Some (set_main (M_join (t + 1)) x) else None
      else Some (set_main M_stop (x\<lparr>wall_end := now (lk (sim_of x)), usage_after := usage\<rparr>)))"
| "main_act cfg rc usage M_stop x =
     (let (join, d) = Watchdog_stop (dog_view cfg x)
      in Some (set_main (if join then M_join_watchdog else M_report) (set_dog d x)))"
| "main_act cfg rc usage M_join_watchdog x =
     (if dog_at x = WD_returned then Some (set_main M_report x) else None)"
| "main_act cfg rc usage M_report x =
     (let r = simulation_result cfg (sim_of x) (real_of_int (wall_end x - wall_start x) / 1000000)
                (usage_before x) (usage_after x)
      in Some (set_main (M_returned r) (main_log (simulation_footer r) x)))"
| "main_act cfg rc usage _ x = None"

section \<open>All threads together\<close>

definition note_wait :: "('l, 'p) RWLockBase \<Rightarrow> 'p phase \<Rightarrow> tid \<Rightarrow> nat list \<Rightarrow> nat list" where
  "note_wait L x t ws = (if at_entry L x then ws[t := Suc (ws ! t)] else ws)"

text \<open>While a worker acts, time goes on up to the later of the two readings its action can take.\<close>

definition elapse :: "('l, 'p) sim \<Rightarrow> ('l, 'p) sim" where
  "elapse s = s\<lparr>lk := (lk s)\<lparr>now := later (lk s)\<rparr>\<rparr>"

lemma elapse_simps [simp]:
  "points (elapse s) = points s" "phase (lk (elapse s)) = phase (lk s)" "infos (lk (elapse s)) = infos (lk s)"
  "shared (lk (elapse s)) = shared (lk s)" "logger (lk (elapse s)) = logger (lk s)" "res (elapse s) = res s"
  "opsRemaining (elapse s) = opsRemaining s" "abortSignal (elapse s) = abortSignal s"
  "now (lk (elapse s)) = later (lk s)" "later (lk (elapse s)) = later (lk s)"
  by (simp_all add: elapse_def)

text \<open>
  A worker that has been created, the main thread, or the watchdog takes its next action; or \<open>SIGUSR1\<close>
  arrives; or time passes: the steady clock never goes back, the wall clock shows anything.
\<close>

inductive program_step ::
    "('l, 'p) RWLockBase \<Rightarrow> SimConfig \<Rightarrow> ('l, 'p) program \<Rightarrow> ('l, 'p) program \<Rightarrow> bool" for L cfg where
  worker: "points (sim_of x) t \<noteq> W_new \<Longrightarrow> worker_act L cfg t w (sim_of x) = Done s \<Longrightarrow>
     program_step L cfg x (x\<lparr>sim_of := elapse s, waits := note_wait L (phase (lk (sim_of x)) t) t (waits x)\<rparr>)"
| main: "main_act cfg rc usage (main_at x) x = Some x' \<Longrightarrow> program_step L cfg x x'"
| dog: "Watchdog_run (now (lk (sim_of x))) (dog_at x) (dog_view cfg x) = Some d \<Longrightarrow>
     program_step L cfg x (put_dog d x)"
| sigusr1: "handler_installed cfg (sim_of x) \<Longrightarrow>
     program_step L cfg x (x\<lparr>sim_of := (sim_of x)\<lparr>abortSignal := True\<rparr>\<rparr>)"
| tick: "now (lk (sim_of x)) \<le> n \<Longrightarrow> n \<le> n' \<Longrightarrow>
     program_step L cfg x (x\<lparr>sim_of := (sim_of x)\<lparr>lk := (lk (sim_of x))\<lparr>now := n, later := n',
       logger := (logger (lk (sim_of x)))\<lparr>lg_wall := c\<rparr>\<rparr>\<rparr>\<rparr>)"

definition program_start :: "'l \<Rightarrow> SimConfig \<Rightarrow> Logger \<Rightarrow> ('l, 'p) program" where
  "program_start l0 cfg g =
     \<lparr>sim_of = sim_start l0 cfg g, dog_running = False, dog_total = 0, dog_at = WD_not_started,
      waits = replicate (num_threads cfg) 0, main_at = M_header, wall_start = 0, wall_end = 0,
      usage_before = None, usage_after = None\<rparr>"

section \<open>The watchdog's view\<close>

lemma dog_view_simps [simp]:
  "wd_running (dog_view cfg x) = dog_running x" "wd_totalEvents (dog_view cfg x) = dog_total x"
  "wd_point (dog_view cfg x) = dog_at x" "wd_registry (dog_view cfg x) = registry cfg x"
  "wd_cfg (dog_view cfg x) = cfg" "wd_logger (dog_view cfg x) = logger (lk (sim_of x))"
  "wd_waits (dog_view cfg x) = waits x"
  by (simp_all add: dog_view_def)

lemma length_registry [simp]: "length (registry cfg x) = num_threads cfg"
  by (simp add: registry_def)

lemma nth_registry [simp]: "t < num_threads cfg \<Longrightarrow> registry cfg x ! t = infos (lk (sim_of x)) t"
  by (simp add: registry_def)

lemma set_main_simps [simp]:
  "sim_of (set_main m x) = sim_of x" "dog_at (set_main m x) = dog_at x"
  "dog_running (set_main m x) = dog_running x" "dog_total (set_main m x) = dog_total x"
  "waits (set_main m x) = waits x" "main_at (set_main m x) = m" "wall_start (set_main m x) = wall_start x"
  "wall_end (set_main m x) = wall_end x" "usage_before (set_main m x) = usage_before x"
  "usage_after (set_main m x) = usage_after x" "registry cfg (set_main m x) = registry cfg x"
  by (simp_all add: set_main_def registry_def)

lemma set_dog_simps [simp]:
  "sim_of (set_dog d x) = sim_of x" "dog_at (set_dog d x) = wd_point d"
  "dog_running (set_dog d x) = wd_running d" "dog_total (set_dog d x) = wd_totalEvents d"
  "waits (set_dog d x) = wd_waits d" "main_at (set_dog d x) = main_at x"
  "registry cfg (set_dog d x) = registry cfg x" "wall_start (set_dog d x) = wall_start x"
  "wall_end (set_dog d x) = wall_end x" "usage_before (set_dog d x) = usage_before x"
  "usage_after (set_dog d x) = usage_after x"
  by (simp_all add: set_dog_def registry_def)

lemma main_log_simps [simp]:
  "dog_at (main_log m x) = dog_at x" "dog_running (main_log m x) = dog_running x"
  "dog_total (main_log m x) = dog_total x" "waits (main_log m x) = waits x"
  "main_at (main_log m x) = main_at x" "registry cfg (main_log m x) = registry cfg x"
  "points (sim_of (main_log m x)) = points (sim_of x)" "phase (lk (sim_of (main_log m x))) = phase (lk (sim_of x))"
  "infos (lk (sim_of (main_log m x))) = infos (lk (sim_of x))"
  "shared (lk (sim_of (main_log m x))) = shared (lk (sim_of x))" "wall_start (main_log m x) = wall_start x"
  "wall_end (main_log m x) = wall_end x" "usage_before (main_log m x) = usage_before x"
  "usage_after (main_log m x) = usage_after x"
  by (simp_all add: main_log_def registry_def Let_def)

lemma put_dog_simps [simp]:
  "dog_at (put_dog d x) = wd_point d" "dog_running (put_dog d x) = wd_running d"
  "dog_total (put_dog d x) = wd_totalEvents d" "waits (put_dog d x) = wd_waits d"
  "main_at (put_dog d x) = main_at x" "points (sim_of (put_dog d x)) = points (sim_of x)"
  "phase (lk (sim_of (put_dog d x))) = phase (lk (sim_of x))"
  "shared (lk (sim_of (put_dog d x))) = shared (lk (sim_of x))"
  "infos (lk (sim_of (put_dog d x))) = write_records (wd_registry d) (infos (lk (sim_of x)))"
  "logger (lk (sim_of (put_dog d x))) = wd_logger d" "wall_start (put_dog d x) = wall_start x"
  "wall_end (put_dog d x) = wall_end x" "usage_before (put_dog d x) = usage_before x"
  "usage_after (put_dog d x) = usage_after x"
  by (simp_all add: put_dog_def Let_def set_dog_def)

lemma dog_view_put:
  assumes "length (wd_registry d) = num_threads cfg" and "wd_cfg d = cfg"
  shows "dog_view cfg (put_dog d x) = d"
proof -
  have "registry cfg (put_dog d x) = wd_registry d"
    using assms(1) by (intro nth_equalityI) (simp_all add: write_records_def)
  then show ?thesis using assms(2) by (cases d) (simp add: dog_view_def)
qed

lemma dog_view_set:
  "wd_registry d = registry cfg x \<Longrightarrow> wd_cfg d = cfg \<Longrightarrow> wd_logger d = logger (lk (sim_of x)) \<Longrightarrow>
     dog_view cfg (set_dog d x) = d"
  by (cases d) (simp add: dog_view_def)

lemma dog_view_main [simp]: "dog_view cfg (set_main m x) = dog_view cfg x"
  by (simp add: dog_view_def)

lemma dog_view_log: "dog_view cfg (main_log m x) = (dog_view cfg x)\<lparr>wd_logger := log_header m (logger (lk (sim_of x)))\<rparr>"
  by (simp add: dog_view_def) (simp add: main_log_def Let_def)

text \<open>What one action of the watchdog leaves alone.\<close>

lemma Watchdog_run_frame:
  assumes "Watchdog_run n p d = Some d'" and "wd_point d = p"
    and "\<And>k. scan_index p = Some k \<Longrightarrow> k < length (wd_registry d)"
  shows "length (wd_registry d') = length (wd_registry d)" "wd_cfg d' = wd_cfg d" "wd_waits d' = wd_waits d"
    "wd_running d' = wd_running d" "p \<noteq> WD_not_started" "wd_point d' \<noteq> WD_not_started"
    "k < length (wd_registry d) \<Longrightarrow> watchdog_may_change (wd_registry d ! k) (wd_registry d' ! k)
       \<and> (ti_state (wd_registry d' ! k) = ti_state (wd_registry d ! k) \<or> ti_state (wd_registry d' ! k) = BLOCKED)"
  using assms
  by (cases p; auto simp: Let_def watchdog_may_change_def wd_entry_def nth_list_update scan_index_def
      split: if_splits)+

section \<open>The parts of a run\<close>

text \<open>A run of the program is a run of the workers.\<close>

lemma sim_environment:
  assumes "\<And>t. watchdog_may_change (infos (lk s) t) (infos (lk s') t)"
    and "shared (lk s') = shared (lk s)" "phase (lk s') = phase (lk s)" "res s' = res s"
      "opsRemaining s' = opsRemaining s" "points s' = points s" "abortSignal s' = abortSignal s"
  shows "sim_step L cfg s s'"
proof -
  have "s' = s\<lparr>lk := (lk s)\<lparr>infos := infos (lk s'), logger := logger (lk s'), now := now (lk s'),
      later := later (lk s')\<rparr>\<rparr>"
    using assms(2-) by (cases s; cases s'; cases "lk s"; cases "lk s'") simp
  then show ?thesis using sim_step.environment [of s "infos (lk s')"] assms(1) by metis
qed

lemma may_change_refl [simp]: "watchdog_may_change i i"
  by (simp add: watchdog_may_change_def)

lemma main_act_cases:
  assumes "main_act cfg rc usage m x = Some x'"
  obtains (header) "m = M_header" "x' = set_main M_watchdog (main_log (simulation_header cfg) x)"
  | (start) d where "m = M_watchdog" "x' = set_main M_measure (set_dog d x)" "rc = 0"
      "d = (dog_view cfg x)\<lparr>wd_running := True, wd_waits := replicate (num_threads cfg) 0, wd_point := WD_test\<rparr>"
  | (create) t where "m = M_create t" "t < num_threads cfg" "rc = 0"
      "x' = set_main (M_create (t + 1)) (x\<lparr>sim_of := goto t W_init (sim_of x)\<rparr>)"
  | (stop) "m = M_stop" "x' = set_main (if dog_running x then M_join_watchdog else M_report)
        (set_dog ((dog_view cfg x)\<lparr>wd_running := False\<rparr>) x)"
  | (report) r where "m = M_report" "x' = set_main (M_returned r) (main_log (simulation_footer r) x)"
      "r = simulation_result cfg (sim_of x) (real_of_int (wall_end x - wall_start x) / 1000000)
             (usage_before x) (usage_after x)"
  | (measure) "m = M_measure"
      "x' = set_main (M_create 0) (x\<lparr>usage_before := usage, wall_start := now (lk (sim_of x))\<rparr>)"
  | (created) t where "m = M_create t" "num_threads cfg \<le> t" "x' = set_main (M_join 0) x"
  | (join) t where "m = M_join t" "t < num_threads cfg" "worker_done (points (sim_of x) t)"
      "x' = set_main (M_join (t + 1)) x"
  | (joined) t where "m = M_join t" "num_threads cfg \<le> t"
      "x' = set_main M_stop (x\<lparr>wall_end := now (lk (sim_of x)), usage_after := usage\<rparr>)"
  | (join_dog) "m = M_join_watchdog" "dog_at x = WD_returned" "x' = set_main M_report x"
  | (threw) e what where "m = M_watchdog \<or> (\<exists>t < num_threads cfg. m = M_create t)" "rc \<noteq> 0"
      "x' = set_main (M_threw e what) x"
  using assms
proof (cases m)
  case M_watchdog
  show ?thesis
  proof (cases "rc = 0")
    case True
    define d where "d = (dog_view cfg x)\<lparr>wd_running := True, wd_waits := replicate (num_threads cfg) 0,
      wd_point := WD_test\<rparr>"
    have "Watchdog_start rc (registry cfg x) cfg (dog_view cfg x) = Inr d"
      using True by (simp add: Watchdog_start_def d_def dog_view_def)
    then show ?thesis using assms M_watchdog True start [OF M_watchdog _ True d_def] by simp
  next
    case False
    then show ?thesis using assms M_watchdog threw by (auto simp: Watchdog_start_def Let_def)
  qed
next
  case M_header
  then show ?thesis using assms header by simp
next
  case M_measure
  then show ?thesis using assms measure by simp
next
  case (M_create t)
  show ?thesis
  proof (cases "t < num_threads cfg")
    case True
    then show ?thesis
    proof (cases "rc = 0")
      case ok: True
      show ?thesis by (rule create [OF M_create True ok]) (use assms M_create True ok in simp)
    next
      case False
      have "m = M_watchdog \<or> (\<exists>u < num_threads cfg. m = M_create u)" using M_create True by blast
      moreover have "x' = set_main (M_threw rc (if int t < cfg_numReaders cfg then ''pthread_create reader''
                                                else ''pthread_create writer'')) x"
        using assms M_create True False by simp
      ultimately show ?thesis using threw False by blast
    qed
  next
    case False
    then show ?thesis by (intro created [OF M_create]) (use assms M_create in simp_all)
  qed
next
  case (M_join t)
  then show ?thesis
    using assms by (cases "t < num_threads cfg") (simp_all add: join joined split: if_splits)
next
  case M_stop
  then show ?thesis using assms stop by (simp add: Watchdog_stop_def)
next
  case M_join_watchdog
  then show ?thesis using assms join_dog by (simp split: if_splits)
next
  case M_report
  then show ?thesis using assms report [OF M_report _ refl] by (simp add: Let_def)
next
  case (M_returned r)
  then show ?thesis using assms by simp
next
  case (M_threw e what)
  then show ?thesis using assms by simp
qed

lemma sim_one_step: "sim_step L cfg s s' \<Longrightarrow> reachable s (sim_step L cfg) s'"
  by (rule reachable_step [OF reachable_init])

lemma sim_refined:
  assumes "program_step L cfg x x'"
    and idx: "\<And>k. scan_index (dog_at x) = Some k \<Longrightarrow> k < num_threads cfg"
    and new: "\<And>t. main_at x = M_create t \<Longrightarrow> points (sim_of x) t = W_new"
  shows "reachable (sim_of x) (sim_step L cfg) (sim_of x')"
  using assms(1)
proof (cases rule: program_step.cases)
  case (worker t w s)
  have "sim_step L cfg s (elapse s)" by (rule sim_environment) simp_all
  then have "reachable (sim_of x) (sim_step L cfg) (elapse s)"
    by (rule reachable_step [OF sim_one_step [OF sim_step.work [OF worker(3)]]])
  then show ?thesis by (simp add: worker(1))
next
  case (main rc usage)
  from main(1) show ?thesis
  proof (cases rule: main_act_cases)
    case header
    then show ?thesis by (intro sim_one_step sim_environment) (simp_all add: main_log_def Let_def)
  next
    case (create t)
    then have "worker_act L cfg t w (sim_of x) = Done (sim_of x')" for w
      using new [of t] by (simp add: worker_act_def)
    then show ?thesis by (intro sim_one_step sim_step.work)
  next
    case (report r)
    then show ?thesis by (intro sim_one_step sim_environment) (simp_all add: main_log_def Let_def)
  qed (simp_all add: reachable_init)
next
  case (dog d)
  have run: "length (wd_registry d) = num_threads cfg"
    "k < num_threads cfg \<Longrightarrow> watchdog_may_change (registry cfg x ! k) (wd_registry d ! k)" for k
    using Watchdog_run_frame(1,7) [OF dog(2)] idx by simp_all
  show ?thesis
    by (intro sim_one_step sim_environment)
       (use run in \<open>simp_all add: dog(1) put_dog_def set_dog_def write_records_def Let_def\<close>)
next
  case sigusr1
  then show ?thesis by (intro sim_one_step) (simp add: sim_step.sigusr1)
next
  case (tick n n' c)
  then show ?thesis by (intro sim_one_step sim_environment) simp_all
qed

text \<open>Has the watchdog been started, and have the workers?\<close>

definition not_started :: "SimConfig \<Rightarrow> ('l, 'p) program \<Rightarrow> bool" where
  "not_started cfg x \<longleftrightarrow> dog_at x = WD_not_started \<and> dog_total x = 0
     \<and> (main_at x = M_header \<or> main_at x = M_watchdog \<or> (\<exists>e what. main_at x = M_threw e what))
     \<and> (\<forall>t. points (sim_of x) t = W_new \<and> infos (lk (sim_of x)) t = initial_info cfg t)
     \<and> waits x = replicate (num_threads cfg) 0"

abbreviation initial_registry :: "SimConfig \<Rightarrow> ThreadInfo list" where
  "initial_registry cfg \<equiv> map (initial_info cfg) [0..<num_threads cfg]"

definition dog_refined :: "SimConfig \<Rightarrow> ('l, 'p) program \<Rightarrow> bool" where
  "dog_refined cfg x \<longleftrightarrow> dog_at x \<noteq> WD_not_started
     \<and> main_at x \<noteq> M_header \<and> main_at x \<noteq> M_watchdog
     \<and> (\<exists>g. reachable (watchdog_started (initial_registry cfg) cfg g) watchdog_step (dog_view cfg x))"

text \<open>The main thread's position tells which workers exist, which have been joined, and what is stopped.\<close>

definition main_inv :: "SimConfig \<Rightarrow> ('l, 'p) program \<Rightarrow> bool" where
  "main_inv cfg x \<longleftrightarrow> (case main_at x of
       M_header \<Rightarrow> True | M_watchdog \<Rightarrow> True | M_threw e what \<Rightarrow> True
     | M_measure \<Rightarrow> dog_running x \<and> (\<forall>t. points (sim_of x) t = W_new)
     | M_create k \<Rightarrow> dog_running x \<and> (\<forall>t. points (sim_of x) t = W_new \<longleftrightarrow> k \<le> t)
     | M_join k \<Rightarrow> dog_running x \<and> (\<forall>t < num_threads cfg. points (sim_of x) t \<noteq> W_new)
         \<and> (\<forall>t < k. t < num_threads cfg \<longrightarrow> worker_done (points (sim_of x) t))
     | M_stop \<Rightarrow> dog_running x \<and> all_returned cfg (sim_of x)
     | M_join_watchdog \<Rightarrow> \<not> dog_running x \<and> all_returned cfg (sim_of x)
     | M_report \<Rightarrow> dog_at x = WD_returned \<and> all_returned cfg (sim_of x)
     | M_returned r \<Rightarrow> dog_at x = WD_returned \<and> all_returned cfg (sim_of x)
         \<and> r = simulation_result cfg (sim_of x) (real_of_int (wall_end x - wall_start x) / 1000000)
                 (usage_before x) (usage_after x))"

section \<open>What a worker's action is to the rest of the program\<close>

lemma act_points:
  assumes "worker_act L cfg t w s = Done s'"
  shows "t < num_threads cfg" "\<not> worker_done (points s t)" "points s' t \<noteq> W_new"
proof -
  show t: "t < num_threads cfg" using assms by (simp add: worker_act_def split: if_splits)
  have reader: "\<not> worker_done p \<and> points s' t \<noteq> W_new"
    if "readerThread L t w p s = Done s'" "points s t = p" for p
    using that by (cases p) (auto simp: worker_done_def in_lock_call_Done split: if_splits)
  have writer: "\<not> worker_done p \<and> points s' t \<noteq> W_new"
    if "writerThread L target t w p s = Done s'" "points s t = p" for p target
    using that by (cases p) (auto simp: worker_done_def in_lock_call_Done Let_def split: if_splits)
  have "\<not> worker_done (points s t) \<and> points s' t \<noteq> W_new"
    using assms t reader writer
    by (cases "points s t = W_new"; cases "arg_type (thread_arg cfg t)")
       (auto simp: worker_act_def worker_done_def)
  then show "\<not> worker_done (points s t)" "points s' t \<noteq> W_new" by blast+
qed

text \<open>The watchdog sees one record change, and the log.\<close>

lemma dog_view_work:
  assumes t: "t < num_threads cfg" and others: "\<And>u. u \<noteq> t \<Longrightarrow> infos (lk s) u = infos (lk (sim_of x)) u"
  shows "dog_view cfg (x\<lparr>sim_of := s, waits := ws\<rparr>)
    = (dog_view cfg x)\<lparr>wd_registry := (registry cfg x)[t := infos (lk s) t], wd_waits := ws,
                       wd_logger := logger (lk s)\<rparr>"
proof -
  have "registry cfg (x\<lparr>sim_of := s, waits := ws\<rparr>) = (registry cfg x)[t := infos (lk s) t]"
    using t others by (intro nth_equalityI) (auto simp: registry_def nth_list_update)
  then show ?thesis by (simp add: dog_view_def)
qed

lemma dog_reach_work:
  assumes r: "reachable d0 watchdog_step (dog_view cfg x)" and t: "t < num_threads cfg"
    and others: "\<And>u. u \<noteq> t \<Longrightarrow> infos (lk s) u = infos (lk (sim_of x)) u"
    and eff: "record_effect L (now (lk (sim_of x))) p (phase (lk (sim_of x)) t) (infos (lk (sim_of x)) t)
      p' y' (infos (lk s) t)"
  shows "reachable d0 watchdog_step
    (dog_view cfg (x\<lparr>sim_of := s, waits := note_wait L (phase (lk (sim_of x)) t) t (waits x)\<rparr>))"
proof -
  let ?d = "dog_view cfg x" and ?j = "infos (lk s) t"
  let ?ws = "note_wait L (phase (lk (sim_of x)) t) t (waits x)"
  let ?d1 = "?d\<lparr>wd_registry := (wd_registry ?d)[t := ?j], wd_waits := ?ws\<rparr>"
  have k: "t < length (wd_registry ?d)" "wd_registry ?d ! t = infos (lk (sim_of x)) t" using t by simp_all
  have "watchdog_step ?d ?d1"
  proof (cases "at_entry L (phase (lk (sim_of x)) t)")
    case True
    then have "?j = enterWaiting (now (lk (sim_of x))) (wd_registry ?d ! t)"
      using eff k by (simp add: record_effect_def)
    then show ?thesis using watchdog_step.begin_wait [OF k(1)] True by (simp add: note_wait_def)
  next
    case False
    then have "worker_update (wd_registry ?d ! t) ?j"
      using eff k by (auto simp: record_effect_def worker_update_def)
    then show ?thesis using watchdog_step.other_update [OF k(1)] False by (simp add: note_wait_def dog_view_def)
  qed
  from reachable_step [OF reachable_step [OF r this] watchdog_step.log [of ?d1 "logger (lk s)"]]
  have "reachable d0 watchdog_step (?d1\<lparr>wd_logger := logger (lk s)\<rparr>)" .
  moreover have "dog_view cfg (x\<lparr>sim_of := s, waits := ?ws\<rparr>) = ?d1\<lparr>wd_logger := logger (lk s)\<rparr>"
    unfolding dog_view_simps by (rule dog_view_work [OF t]) (rule others)
  ultimately show ?thesis by simp
qed

text \<open>The figures depend on the records only.\<close>

lemma simulation_result_cong:
  assumes "\<And>t. t < num_threads cfg \<Longrightarrow> infos (lk s') t = infos (lk s) t"
  shows "simulation_result cfg s' = simulation_result cfg s"
proof -
  have "map (\<lambda>t. Some (infos (lk s') t)) [0..<num_threads cfg] = map (\<lambda>t. Some (infos (lk s) t)) [0..<num_threads cfg]"
    using assms by simp
  then show ?thesis unfolding simulation_result_def fun_eq_iff by metis
qed

section \<open>The invariant of the whole program\<close>

definition waits_inv :: "('l, 'p) RWLockBase \<Rightarrow> SimConfig \<Rightarrow> ('l, 'p) program \<Rightarrow> bool" where
  "waits_inv L cfg x \<longleftrightarrow> length (waits x) = num_threads cfg
     \<and> (\<forall>t < num_threads cfg. int (waits x ! t) = ti_opsCompleted (infos (lk (sim_of x)) t)
          + of_bool (begun L (points (sim_of x) t) (phase (lk (sim_of x)) t)))"

text \<open>Nobody but its thread and the watchdog writes a record, and the watchdog only stores \<open>BLOCKED\<close>.\<close>

definition status_inv :: "('l, 'p) RWLockBase \<Rightarrow> SimConfig \<Rightarrow> ('l, 'p) sim \<Rightarrow> bool" where
  "status_inv L cfg s \<longleftrightarrow> (\<forall>t.
     same_identity (initial_info cfg t) (infos (lk s) t)
   \<and> (ti_state (infos (lk s) t) \<in> shown L (points s t) (phase (lk s) t) \<or> ti_state (infos (lk s) t) = BLOCKED))"

definition program_inv :: "('l, 'p) RWLockBase \<Rightarrow> 'l \<Rightarrow> SimConfig \<Rightarrow> Logger \<Rightarrow> ('l, 'p) program \<Rightarrow> bool" where
  "program_inv L l0 cfg g x \<longleftrightarrow> reachable (sim_start l0 cfg g) (sim_step L cfg) (sim_of x)
     \<and> (not_started cfg x \<or> dog_refined cfg x) \<and> main_inv cfg x \<and> waits_inv L cfg x \<and> status_inv L cfg (sim_of x)"

lemma program_inv_start: "program_inv L l0 cfg g (program_start l0 cfg g)"
  by (simp add: program_inv_def program_start_def reachable_init not_started_def main_inv_def waits_inv_def
      status_inv_def sim_start_simps same_identity_def)
     (simp add: sim_start_def lock_start_def initial_info_def default_ThreadInfo_def)

text \<open>While the watchdog scans, its index is within the registry.\<close>

lemma started_registry: "\<forall>i \<in> set (initial_registry cfg). ti_state i = INIT \<and> ti_starveCount i = 0"
  by (simp add: initial_info_def default_ThreadInfo_def)

lemma dog_index:
  assumes "not_started cfg x \<or> dog_refined cfg x" and "scan_index (dog_at x) = Some k"
  shows "k < num_threads cfg"
  using assms(1)
proof
  assume "dog_refined cfg x"
  then obtain g where "reachable (watchdog_started (initial_registry cfg) cfg g) watchdog_step (dog_view cfg x)"
    by (auto simp: dog_refined_def)
  from watchdog_inv_reachable [OF started_registry this] show ?thesis
    using assms(2) by (simp add: watchdog_inv_def)
qed (use assms(2) in \<open>simp add: not_started_def scan_index_def\<close>)

lemma dog_refined_step:
  assumes "dog_refined cfg x"
    and "dog_view cfg x' = dog_view cfg x \<or> watchdog_step (dog_view cfg x) (dog_view cfg x')"
    and "main_at x' \<noteq> M_header" "main_at x' \<noteq> M_watchdog"
  shows "dog_refined cfg x'"
proof -
  obtain g where r: "reachable (watchdog_started (initial_registry cfg) cfg g) watchdog_step (dog_view cfg x)"
    using assms(1) by (auto simp: dog_refined_def)
  have "reachable (watchdog_started (initial_registry cfg) cfg g) watchdog_step (dog_view cfg x')"
    using assms(2) r reachable_step [OF r] by auto
  with started_not_unstarted [OF this] assms(3,4) show ?thesis by (auto simp: dog_refined_def)
qed

lemma dog_stays:
  assumes "not_started cfg x \<or> dog_refined cfg x"
    and "main_at x \<noteq> M_header" "main_at x \<noteq> M_watchdog" "\<forall>e what. main_at x \<noteq> M_threw e what"
    and "main_at x' \<noteq> M_header" "main_at x' \<noteq> M_watchdog"
    and "dog_view cfg x' = dog_view cfg x \<or> watchdog_step (dog_view cfg x) (dog_view cfg x')"
  shows "not_started cfg x' \<or> dog_refined cfg x'"
proof -
  have "dog_refined cfg x" using assms(1-4) by (auto simp: not_started_def)
  from dog_refined_step [OF this assms(7,5,6)] show ?thesis by blast
qed

lemma dog_main_step:
  assumes act: "main_act cfg rc usage (main_at x) x = Some x'" and dog: "not_started cfg x \<or> dog_refined cfg x"
  shows "not_started cfg x' \<or> dog_refined cfg x'"
  using act
proof (cases rule: main_act_cases)
  case header
  with dog show ?thesis by (simp add: not_started_def dog_refined_def)
next
  case (start d)
  with dog have "not_started cfg x" by (simp add: dog_refined_def)
  then have reg: "registry cfg x = initial_registry cfg" and total: "dog_total x = 0"
    by (simp_all add: not_started_def registry_def)
  have "dog_view cfg (set_dog d x) = d" by (rule dog_view_set) (simp_all add: start(4))
  also have "d = watchdog_started (initial_registry cfg) cfg (logger (lk (sim_of x)))"
    unfolding start(4) by (simp add: dog_view_def watchdog_started_def reg total)
  finally show ?thesis
    using start(2,4) reachable_init [of "watchdog_started (initial_registry cfg) cfg (logger (lk (sim_of x)))"]
    by (auto simp: dog_refined_def)
next
  case (create t)
  have "dog_view cfg x' = dog_view cfg x" unfolding create(4) by (simp add: dog_view_def registry_def)
  then show ?thesis by (intro dog_stays [OF dog]) (simp_all add: create)
next
  case stop
  have "dog_view cfg x' = snd (Watchdog_stop (dog_view cfg x))"
    using stop by (simp add: dog_view_set Watchdog_stop_def)
  then show ?thesis by (intro dog_stays [OF dog]) (use stop in \<open>simp_all add: watchdog_step.stop\<close>)
next
  case (report r)
  then show ?thesis by (intro dog_stays [OF dog]) (simp_all add: dog_view_log watchdog_step.log)
next
  case measure
  have "dog_view cfg x' = dog_view cfg x" unfolding measure by (simp add: dog_view_def registry_def)
  then show ?thesis by (intro dog_stays [OF dog]) (simp_all add: measure)
next
  case (joined t)
  have "dog_view cfg x' = dog_view cfg x" unfolding joined by (simp add: dog_view_def registry_def)
  then show ?thesis by (intro dog_stays [OF dog]) (simp_all add: joined)
next
  case (threw e what)
  from dog show ?thesis
  proof
    assume "not_started cfg x"
    then show ?thesis by (simp add: threw(3) not_started_def)
  next
    assume "dog_refined cfg x"
    then have "dog_refined cfg x'" by (rule dog_refined_step) (simp_all add: threw(3))
    then show ?thesis by blast
  qed
qed (intro dog_stays [OF dog]; simp)+

lemma main_point_facts:
  "main_inv cfg x \<Longrightarrow> main_at x = M_create k \<Longrightarrow> points (sim_of x) t = W_new \<longleftrightarrow> k \<le> t"
  by (simp add: main_inv_def)

text \<open>The main thread's own actions keep its invariant, and so do those of the other threads.\<close>

lemma main_inv_main:
  assumes act: "main_act cfg rc usage (main_at x) x = Some x'" and inv: "main_inv cfg x"
    and dog: "not_started cfg x \<or> dog_refined cfg x" and workers: "\<And>t. num_threads cfg \<le> t \<Longrightarrow> points (sim_of x) t = W_new"
  shows "main_inv cfg x'"
  using act
proof (cases rule: main_act_cases)
  case (start d)
  with dog have "\<forall>t. points (sim_of x) t = W_new" by (auto simp: not_started_def dog_refined_def)
  then show ?thesis using start by (simp add: main_inv_def)
next
  case (create t)
  have "((points (sim_of x))(t := W_init)) u = W_new \<longleftrightarrow> t + 1 \<le> u" for u
    using main_point_facts [OF inv create(1), of u] by (cases "u = t") auto
  moreover have "dog_running x" using inv create(1) by (simp add: main_inv_def)
  ultimately show ?thesis unfolding create(4) main_inv_def by simp
next
  case (created t)
  have "points (sim_of x) u = W_new \<longleftrightarrow> t \<le> u" for u by (rule main_point_facts [OF inv created(1)])
  moreover have "dog_running x" using inv created(1) by (simp add: main_inv_def)
  ultimately show ?thesis using created by (simp add: main_inv_def)
next
  case (join t)
  then show ?thesis using inv by (auto simp: main_inv_def less_Suc_eq)
next
  case (report r)
  have "dog_at x = WD_returned \<and> all_returned cfg (sim_of x)" using inv report(1) by (simp add: main_inv_def)
  then show ?thesis
    using simulation_result_cong [of cfg "sim_of (main_log (simulation_footer r) x)" "sim_of x"] report
    by (simp add: main_inv_def all_returned_def)
next
  case (joined t)
  have "worker_done (points (sim_of x) u)" if "u < num_threads cfg" for u
    using inv joined(1,2) that by (simp add: main_inv_def)
  then show ?thesis using inv joined by (simp add: main_inv_def all_returned_def)
next
  case stop
  then show ?thesis using inv by (simp add: main_inv_def)
next
  case join_dog
  then show ?thesis using inv by (simp add: main_inv_def)
next
  case measure
  then show ?thesis using inv by (simp add: main_inv_def)
qed (simp_all add: main_inv_def)

lemma main_inv_other:
  assumes inv: "main_inv cfg x" and dog: "not_started cfg x \<or> dog_refined cfg x"
    and same: "main_at x' = main_at x" "dog_running x' = dog_running x"
    and fields: "wall_start x' = wall_start x" "wall_end x' = wall_end x" "usage_before x' = usage_before x"
      "usage_after x' = usage_after x"
    and dog_at: "dog_at x = WD_returned \<Longrightarrow> dog_at x' = WD_returned"
    and new: "\<And>t. points (sim_of x') t = W_new \<longleftrightarrow> points (sim_of x) t = W_new"
    and ret: "\<And>t. worker_done (points (sim_of x) t) \<Longrightarrow> points (sim_of x') t = points (sim_of x) t"
    and infos: "\<And>t. dog_at x = WD_returned \<Longrightarrow> worker_done (points (sim_of x) t) \<Longrightarrow>
        infos (lk (sim_of x')) t = infos (lk (sim_of x)) t"
  shows "main_inv cfg x'"
proof (cases "main_at x")
  case (M_returned r)
  then have fin: "dog_at x = WD_returned" "all_returned cfg (sim_of x)" using inv by (simp_all add: main_inv_def)
  have "simulation_result cfg (sim_of x') = simulation_result cfg (sim_of x)"
    using fin infos by (intro simulation_result_cong) (simp add: all_returned_def)
  moreover have "all_returned cfg (sim_of x')" using fin(2) ret by (auto simp: all_returned_def)
  ultimately show ?thesis using inv M_returned same fields dog_at fin(1) by (simp add: main_inv_def)
qed (use inv same dog_at new ret in \<open>simp_all add: main_inv_def all_returned_def\<close>)

context recording_lock
begin

text \<open>What an action of a worker does to the three parts that speak of records.\<close>

lemma worker_waits:
  assumes waits: "waits_inv L cfg x" and t: "t < num_threads cfg"
    and eff: "record_effect L n (points (sim_of x) t) (phase (lk (sim_of x)) t) (infos (lk (sim_of x)) t)
      (points s t) (phase (lk s) t) (infos (lk s) t)"
    and others: "\<And>u. u \<noteq> t \<Longrightarrow> points s u = points (sim_of x) u \<and> phase (lk s) u = phase (lk (sim_of x)) u
      \<and> infos (lk s) u = infos (lk (sim_of x)) u"
  shows "waits_inv L cfg (x\<lparr>sim_of := s, waits := note_wait L (phase (lk (sim_of x)) t) t (waits x)\<rparr>)"
proof -
  let ?s = "sim_of x"
  have ops: "ti_opsCompleted (infos (lk s) t) + of_bool (begun L (points s t) (phase (lk s) t))
      = ti_opsCompleted (infos (lk ?s) t) + of_bool (begun L (points ?s t) (phase (lk ?s) t))
        + of_bool (at_entry L (phase (lk ?s) t))"
    using eff unfolding record_effect_def by blast
  have len: "length (waits x) = num_threads cfg" using waits by (simp add: waits_inv_def)
  have "int (note_wait L (phase (lk ?s) t) t (waits x) ! u) = ti_opsCompleted (infos (lk s) u)
      + of_bool (begun L (points s u) (phase (lk s) u))" if u: "u < num_threads cfg" for u
  proof -
    have now: "int (waits x ! u) = ti_opsCompleted (infos (lk ?s) u)
        + of_bool (begun L (points ?s u) (phase (lk ?s) u))" using waits u by (simp add: waits_inv_def)
    show ?thesis
    proof (cases "u = t")
      case True
      then show ?thesis using ops now len u by (simp add: note_wait_def)
    next
      case False
      then show ?thesis using now others [OF False] by (simp add: note_wait_def)
    qed
  qed
  then show ?thesis using len by (simp add: waits_inv_def note_wait_def)
qed

lemma worker_status:
  assumes status: "status_inv L cfg s"
    and eff: "record_effect L n (points s t) (phase (lk s) t) (infos (lk s) t)
      (points s' t) (phase (lk s') t) (infos (lk s') t)"
    and others: "\<And>u. u \<noteq> t \<Longrightarrow> points s' u = points s u \<and> phase (lk s') u = phase (lk s) u
      \<and> infos (lk s') u = infos (lk s) u"
  shows "status_inv L cfg s'"
  unfolding status_inv_def
proof (intro allI)
  fix u
  have before: "same_identity (initial_info cfg u) (infos (lk s) u)"
    "ti_state (infos (lk s) u) \<in> shown L (points s u) (phase (lk s) u) \<or> ti_state (infos (lk s) u) = BLOCKED"
    using status by (simp_all add: status_inv_def)
  have own: "same_identity (infos (lk s) t) (infos (lk s') t)"
    "ti_state (infos (lk s') t) \<in> shown L (points s' t) (phase (lk s') t)
      \<or> ti_state (infos (lk s') t) = ti_state (infos (lk s) t)
        \<and> shown L (points s t) (phase (lk s) t) \<subseteq> shown L (points s' t) (phase (lk s') t)"
    using eff unfolding record_effect_def by blast+
  show "same_identity (initial_info cfg u) (infos (lk s') u)
    \<and> (ti_state (infos (lk s') u) \<in> shown L (points s' u) (phase (lk s') u) \<or> ti_state (infos (lk s') u) = BLOCKED)"
  proof (cases "u = t")
    case True
    have "same_identity (initial_info cfg t) (infos (lk s') t)"
      using before(1) own(1) True by (simp add: same_identity_def)
    moreover have "ti_state (infos (lk s') t) \<in> shown L (points s' t) (phase (lk s') t) \<or> ti_state (infos (lk s') t) = BLOCKED"
      using before(2) own(2) True by auto
    ultimately show ?thesis by (simp add: True)
  next
    case False
    then show ?thesis using before others [OF False] by simp
  qed
qed

lemma worker_inv:
  assumes cfg: "valid_cfg cfg" and inv: "program_inv L l0 cfg g x" and created: "points (sim_of x) t \<noteq> W_new"
    and act: "worker_act L cfg t w (sim_of x) = Done s"
    and x': "x' = x\<lparr>sim_of := elapse s, waits := note_wait L (phase (lk (sim_of x)) t) t (waits x)\<rparr>"
  shows "dog_refined cfg x'" "main_inv cfg x'" "waits_inv L cfg x'" "status_inv L cfg (sim_of x')"
proof -
  let ?s = "sim_of x"
  have r: "reachable (sim_start l0 cfg g) (sim_step L cfg) ?s" and dog: "not_started cfg x \<or> dog_refined cfg x"
    and main: "main_inv cfg x" and waits: "waits_inv L cfg x" and status: "status_inv L cfg ?s"
    using inv by (simp_all add: program_inv_def)
  note sim = sim_inv_reachable [OF cfg r]
  note pts = act_points [OF act]
  note eff = act_effect [OF act sim_inv_facts(2) [OF sim]]
  have others: "u \<noteq> t \<Longrightarrow> points s u = points ?s u \<and> phase (lk s) u = phase (lk ?s) u
      \<and> infos (lk s) u = infos (lk ?s) u" for u
    by (rule worker_act_effect(4) [OF act sim])
  have started: "dog_refined cfg x" using dog created by (auto simp: not_started_def)
  then obtain g' where d: "reachable (watchdog_started (initial_registry cfg) cfg g') watchdog_step (dog_view cfg x)"
    by (auto simp: dog_refined_def)
  have "reachable (watchdog_started (initial_registry cfg) cfg g') watchdog_step (dog_view cfg x')"
    unfolding x' by (rule dog_reach_work [OF d pts(1)]) (use others eff in simp_all)
  then show "dog_refined cfg x'" using started x' by (auto simp: dog_refined_def)
  show "main_inv cfg x'"
  proof (rule main_inv_other [OF main dog])
    show "points (sim_of x') u = W_new \<longleftrightarrow> points ?s u = W_new" for u
      using x' created pts(3) others [of u] by (cases "u = t") simp_all
    show "points (sim_of x') u = points ?s u" "infos (lk (sim_of x')) u = infos (lk ?s) u"
      if "worker_done (points ?s u)" for u
      using x' pts(2) others [of u] that by (cases "u = t"; simp)+
  qed (simp_all add: x')
  show "waits_inv L cfg x'" unfolding x' by (rule worker_waits [OF waits pts(1)]) (use others eff in simp_all)
  have "status_inv L cfg (elapse s)" by (rule worker_status [OF status]) (use others eff in simp_all)
  then show "status_inv L cfg (sim_of x')" by (simp add: x')
qed

end

lemma waits_inv_cong:
  assumes "waits x' = waits x" "phase (lk (sim_of x')) = phase (lk (sim_of x))"
    and "\<And>t. points (sim_of x') t = points (sim_of x) t \<or> points (sim_of x') t = W_init \<and> points (sim_of x) t = W_new"
    and "\<And>t. t < num_threads cfg \<Longrightarrow>
        ti_opsCompleted (infos (lk (sim_of x')) t) = ti_opsCompleted (infos (lk (sim_of x)) t)"
  shows "waits_inv L cfg x \<Longrightarrow> waits_inv L cfg x'"
proof -
  have "begun L (points (sim_of x') t) (phase (lk (sim_of x)) t) = begun L (points (sim_of x) t) (phase (lk (sim_of x)) t)" for t
    using assms(3) [of t] by auto
  then show "waits_inv L cfg x \<Longrightarrow> waits_inv L cfg x'" using assms(1,2,4) by (simp add: waits_inv_def)
qed

lemma same_identity_trans: "same_identity i j \<Longrightarrow> same_identity j k \<Longrightarrow> same_identity i k"
  by (simp add: same_identity_def)

lemma status_inv_cong:
  assumes "phase (lk s') = phase (lk s)"
    and pts: "\<And>t. points s' t = points s t \<or> points s' t = W_init \<and> points s t = W_new"
    and infos: "\<And>t. same_identity (infos (lk s) t) (infos (lk s') t)
        \<and> (ti_state (infos (lk s') t) = ti_state (infos (lk s) t) \<or> ti_state (infos (lk s') t) = BLOCKED)"
  shows "status_inv L cfg s \<Longrightarrow> status_inv L cfg s'"
  unfolding status_inv_def
proof (intro allI)
  fix t assume "\<forall>t. same_identity (initial_info cfg t) (infos (lk s) t)
      \<and> (ti_state (infos (lk s) t) \<in> shown L (points s t) (phase (lk s) t) \<or> ti_state (infos (lk s) t) = BLOCKED)"
  then have before: "same_identity (initial_info cfg t) (infos (lk s) t)"
    "ti_state (infos (lk s) t) \<in> shown L (points s t) (phase (lk s) t) \<or> ti_state (infos (lk s) t) = BLOCKED"
    by blast+
  have "shown L (points s' t) (phase (lk s') t) = shown L (points s t) (phase (lk s) t)"
    using pts [of t] assms(1) by auto
  with before infos [of t] same_identity_trans
  show "same_identity (initial_info cfg t) (infos (lk s') t)
      \<and> (ti_state (infos (lk s') t) \<in> shown L (points s' t) (phase (lk s') t) \<or> ti_state (infos (lk s') t) = BLOCKED)"
    by metis
qed

lemma same_identity_refl [simp]: "same_identity i i"
  by (simp add: same_identity_def)

lemma may_change_identity: "watchdog_may_change i j \<Longrightarrow> same_identity i j"
  unfolding watchdog_may_change_def same_identity_def
  by (metis ThreadInfo.select_convs(1-3) ThreadInfo.surjective ThreadInfo.update_convs(10,4))

text \<open>An action of the main thread moves at most one thread, from \<open>W_new\<close> to \<open>W_init\<close>, and writes no record.\<close>

lemma main_act_frame:
  assumes act: "main_act cfg rc usage (main_at x) x = Some x'" and main: "main_inv cfg x"
  shows "phase (lk (sim_of x')) = phase (lk (sim_of x)) \<and> infos (lk (sim_of x')) = infos (lk (sim_of x))
     \<and> (\<forall>t. points (sim_of x') t = points (sim_of x) t \<or> points (sim_of x') t = W_init \<and> points (sim_of x) t = W_new)
     \<and> (waits x' = waits x \<or> waits x' = replicate (num_threads cfg) 0 \<and> main_at x = M_watchdog)"
  using act
proof (cases rule: main_act_cases)
  case (create t)
  have "points (sim_of x) t = W_new" using main_point_facts [OF main create(1), of t] by simp
  then show ?thesis by (simp add: create(4))
next
  case (start d)
  then show ?thesis by simp
next
  case stop
  then show ?thesis by simp
qed simp_all

lemma main_act_waits:
  assumes act: "main_act cfg rc usage (main_at x) x = Some x'" and main: "main_inv cfg x"
    and waits: "waits_inv L cfg x" and dog: "not_started cfg x \<or> dog_refined cfg x"
  shows "waits_inv L cfg x'"
proof -
  note frame = main_act_frame [OF act main]
  have "waits x' = waits x"
  proof (cases "main_at x = M_watchdog")
    case True
    then have "waits x = replicate (num_threads cfg) 0" using dog by (auto simp: not_started_def dog_refined_def)
    then show ?thesis using frame by metis
  qed (use frame in blast)
  then show ?thesis using frame by (intro waits_inv_cong [OF _ _ _ _ waits]) simp_all
qed

context recording_lock
begin

lemma main_step_inv:
  assumes cfg: "valid_cfg cfg" and inv: "program_inv L l0 cfg g x"
    and act: "main_act cfg rc usage (main_at x) x = Some x'"
  shows "not_started cfg x' \<or> dog_refined cfg x'" "main_inv cfg x'" "waits_inv L cfg x'" "status_inv L cfg (sim_of x')"
proof -
  have r: "reachable (sim_start l0 cfg g) (sim_step L cfg) (sim_of x)"
    and dog: "not_started cfg x \<or> dog_refined cfg x"
    and main: "main_inv cfg x" and waits: "waits_inv L cfg x" and status: "status_inv L cfg (sim_of x)"
    using inv by (simp_all add: program_inv_def)
  note sim = sim_inv_reachable [OF cfg r]
  note frame = main_act_frame [OF act main]
  show "not_started cfg x' \<or> dog_refined cfg x'" by (rule dog_main_step [OF act dog])
  show "main_inv cfg x'" by (rule main_inv_main [OF act main dog sim_inv_facts(3) [OF sim]])
  show "waits_inv L cfg x'" by (rule main_act_waits [OF act main waits dog])
  show "status_inv L cfg (sim_of x')" using frame by (intro status_inv_cong [OF _ _ _ status]) simp_all
qed

end

lemma dog_step_inv:
  assumes run: "Watchdog_run n (dog_at x) (dog_view cfg x) = Some d"
    and dog: "not_started cfg x \<or> dog_refined cfg x"
    and main: "main_inv cfg x" and waits: "waits_inv L cfg x" and status: "status_inv L cfg (sim_of x)"
  shows "dog_refined cfg (put_dog d x)" "main_inv cfg (put_dog d x)" "waits_inv L cfg (put_dog d x)"
    "status_inv L cfg (sim_of (put_dog d x))"
proof -
  have idx: "\<And>k. scan_index (dog_at x) = Some k \<Longrightarrow> k < length (wd_registry (dog_view cfg x))"
    using dog_index [OF dog] by simp
  note frame = Watchdog_run_frame [OF run _ idx, simplified]
  have infos: "watchdog_may_change (infos (lk (sim_of x)) t) (write_records (wd_registry d) (infos (lk (sim_of x))) t)
      \<and> (ti_state (write_records (wd_registry d) (infos (lk (sim_of x))) t) = ti_state (infos (lk (sim_of x)) t)
         \<or> ti_state (write_records (wd_registry d) (infos (lk (sim_of x))) t) = BLOCKED)" for t
    using frame(1) frame(7) [of t] by (simp add: write_records_def)
  have view: "dog_view cfg (put_dog d x) = d" by (rule dog_view_put) (simp_all add: frame)
  have "dog_refined cfg x" using dog frame(5) by (auto simp: not_started_def)
  then show "dog_refined cfg (put_dog d x)"
  proof (rule dog_refined_step)
    show "dog_view cfg (put_dog d x) = dog_view cfg x \<or> watchdog_step (dog_view cfg x) (dog_view cfg (put_dog d x))"
      unfolding view using watchdog_step.scan [of n "dog_view cfg x"] run by simp
  qed (use \<open>dog_refined cfg x\<close> in \<open>simp_all add: dog_refined_def\<close>)
  have running: "dog_at x \<noteq> WD_returned" using run by auto
  show "main_inv cfg (put_dog d x)"
    by (rule main_inv_other [OF main dog]) (simp_all add: running frame)
  show "waits_inv L cfg (put_dog d x)"
    by (rule waits_inv_cong [OF _ _ _ _ waits]) (simp_all add: frame watchdog_keeps_ops [OF conjunct1 [OF infos]])
  show "status_inv L cfg (sim_of (put_dog d x))"
    by (rule status_inv_cong [OF _ _ _ status]) (use infos may_change_identity in auto)
qed

lemma sigusr1_inv:
  assumes "program_inv L l0 cfg g x" and "x' = x\<lparr>sim_of := (sim_of x)\<lparr>abortSignal := True\<rparr>\<rparr>"
    and "reachable (sim_start l0 cfg g) (sim_step L cfg) (sim_of x')"
  shows "program_inv L l0 cfg g x'"
proof -
  have dog: "not_started cfg x \<or> dog_refined cfg x" and main: "main_inv cfg x"
    and waits: "waits_inv L cfg x" and status: "status_inv L cfg (sim_of x)"
    using assms(1) by (simp_all add: program_inv_def)
  have view: "dog_view cfg x' = dog_view cfg x" by (simp add: assms(2) dog_view_def registry_def)
  from dog have "not_started cfg x' \<or> dog_refined cfg x'"
  proof
    assume "not_started cfg x"
    then show ?thesis by (simp add: assms(2) not_started_def)
  next
    assume "dog_refined cfg x"
    then show ?thesis using view by (simp add: assms(2) dog_refined_def)
  qed
  moreover have "main_inv cfg x'" by (rule main_inv_other [OF main dog]) (simp_all add: assms(2))
  moreover have "waits_inv L cfg x'" by (rule waits_inv_cong [OF _ _ _ _ waits]) (simp_all add: assms(2))
  moreover have "status_inv L cfg (sim_of x')" by (rule status_inv_cong [OF _ _ _ status]) (simp_all add: assms(2))
  ultimately show ?thesis using assms(3) by (simp add: program_inv_def)
qed

lemma tick_inv:
  assumes "program_inv L l0 cfg g x"
    and x': "x' = x\<lparr>sim_of := (sim_of x)\<lparr>lk := (lk (sim_of x))\<lparr>now := n, later := n', logger := h\<rparr>\<rparr>\<rparr>"
    and "reachable (sim_start l0 cfg g) (sim_step L cfg) (sim_of x')"
  shows "program_inv L l0 cfg g x'"
proof -
  have dog: "not_started cfg x \<or> dog_refined cfg x" and main: "main_inv cfg x"
    and waits: "waits_inv L cfg x" and status: "status_inv L cfg (sim_of x)"
    using assms(1) by (simp_all add: program_inv_def)
  have view: "dog_view cfg x' = (dog_view cfg x)\<lparr>wd_logger := h\<rparr>" by (simp add: x' dog_view_def registry_def)
  from dog have "not_started cfg x' \<or> dog_refined cfg x'"
  proof
    assume "not_started cfg x"
    then show ?thesis by (simp add: x' not_started_def)
  next
    assume d: "dog_refined cfg x"
    have "watchdog_step (dog_view cfg x) (dog_view cfg x')" unfolding view by (rule watchdog_step.log)
    moreover have "main_at x' \<noteq> M_header" "main_at x' \<noteq> M_watchdog" using d by (simp_all add: x' dog_refined_def)
    ultimately show ?thesis using dog_refined_step [OF d] by blast
  qed
  moreover have "main_inv cfg x'" by (rule main_inv_other [OF main dog]) (simp_all add: x')
  moreover have "waits_inv L cfg x'" by (rule waits_inv_cong [OF _ _ _ _ waits]) (simp_all add: x')
  moreover have "status_inv L cfg (sim_of x')" by (rule status_inv_cong [OF _ _ _ status]) (simp_all add: x')
  ultimately show ?thesis using assms(3) by (simp add: program_inv_def)
qed

context recording_lock
begin

lemma program_step_inv:
  assumes cfg: "valid_cfg cfg" and inv: "program_inv L l0 cfg g x" and step: "program_step L cfg x x'"
  shows "program_inv L l0 cfg g x'"
proof -
  have r: "reachable (sim_start l0 cfg g) (sim_step L cfg) (sim_of x)"
    and dog: "not_started cfg x \<or> dog_refined cfg x" and main: "main_inv cfg x"
    using inv by (simp_all add: program_inv_def)
  have idx: "\<And>k. scan_index (dog_at x) = Some k \<Longrightarrow> k < num_threads cfg" by (rule dog_index [OF dog])
  have new: "\<And>t. main_at x = M_create t \<Longrightarrow> points (sim_of x) t = W_new"
    using main_point_facts [OF main] by blast
  have r': "reachable (sim_start l0 cfg g) (sim_step L cfg) (sim_of x')"
    by (rule reachable_trans [OF sim_refined [OF step idx new] r])
  from step show ?thesis
  proof (cases rule: program_step.cases)
    case (worker t w s)
    from worker_inv [OF cfg inv worker(2,3,1)] r' show ?thesis by (simp add: program_inv_def)
  next
    case (main rc usage)
    from main_step_inv [OF cfg inv main(1)] r' show ?thesis by (simp add: program_inv_def)
  next
    case (dog d)
    have "waits_inv L cfg x" "status_inv L cfg (sim_of x)" using inv by (simp_all add: program_inv_def)
    from dog_step_inv [OF dog(2) \<open>not_started cfg x \<or> dog_refined cfg x\<close> main this] r' dog(1)
    show ?thesis by (simp add: program_inv_def)
  next
    case sigusr1
    then show ?thesis by (intro sigusr1_inv [OF inv _ r'])
  next
    case (tick n n' c)
    show ?thesis by (rule tick_inv [OF inv tick(1) r'])
  qed
qed

lemma program_inv_reachable:
  assumes cfg: "valid_cfg cfg" and "reachable (program_start l0 cfg g) (program_step L cfg) x"
  shows "program_inv L l0 cfg g x"
  using assms(2)
  by (induction rule: reachable.induct) (auto intro: program_inv_start program_step_inv [OF cfg])

end

end
