(* ===== verification/Late_Alert.thy ===== *)
theory Late_Alert
  imports Run_Simulation
begin

text \<open>
  A run of the whole program (\<open>runSimulation\<close> of \<open>src/main.cpp\<close>: main thread, worker and watchdog) in which the
  watchdog reports a thread that has already finished.  \<open>Watchdog::run\<close> loads the state at one line and stores
  \<open>BLOCKED\<close> eight lines below; in between the waiting thread can get the lock, finish and write its summary.
\<close>

section \<open>Scheduled runs of the program\<close>

text \<open>Who acts next; every call the environment answers succeeds, and time passes when the schedule says so.\<close>

datatype program_event = Ev_main | Ev_worker tid | Ev_dog | Ev_time TimePoint

fun program_do ::
    "('l, 'p) RWLockBase \<Rightarrow> SimConfig \<Rightarrow> program_event \<Rightarrow> ('l, 'p) program \<Rightarrow> ('l, 'p) program option" where
  "program_do L cfg Ev_main x = main_act cfg 0 None (main_at x) x"
| "program_do L cfg (Ev_worker t) x =
     (if points (sim_of x) t = W_new then None
      else case worker_act L cfg t (Pick t) (sim_of x) of
        Done s \<Rightarrow> Some (x\<lparr>sim_of := elapse s, waits := note_wait L (phase (lk (sim_of x)) t) t (waits x)\<rparr>)
      | _ \<Rightarrow> None)"
| "program_do L cfg Ev_dog x =
     (case Watchdog_run (now (lk (sim_of x))) (dog_at x) (dog_view cfg x) of
        Some d \<Rightarrow> Some (put_dog d x) | None \<Rightarrow> None)"
| "program_do L cfg (Ev_time n) x =
     (if now (lk (sim_of x)) \<le> n
      then Some (x\<lparr>sim_of := (sim_of x)\<lparr>lk := (lk (sim_of x))\<lparr>now := n, later := n\<rparr>\<rparr>\<rparr>) else None)"

fun program_sched ::
    "('l, 'p) RWLockBase \<Rightarrow> SimConfig \<Rightarrow> program_event list \<Rightarrow> ('l, 'p) program \<Rightarrow> ('l, 'p) program option" where
  "program_sched L cfg [] x = Some x"
| "program_sched L cfg (e # es) x =
     (case program_do L cfg e x of Some y \<Rightarrow> program_sched L cfg es y | None \<Rightarrow> None)"

lemma program_do_step: "program_do L cfg e x = Some y \<Longrightarrow> program_step L cfg x y"
proof (cases e)
  case (Ev_time n)
  let ?s = "sim_of x"
  have "(lk ?s)\<lparr>now := n, later := n, logger := (logger (lk ?s))\<lparr>lg_wall := lg_wall (logger (lk ?s))\<rparr>\<rparr>
      = (lk ?s)\<lparr>now := n, later := n\<rparr>" by simp
  moreover assume "program_do L cfg e x = Some y"
  ultimately show ?thesis
    using program_step.tick [of x n n L cfg "lg_wall (logger (lk ?s))"] Ev_time by (simp split: if_splits)
qed (auto split: option.splits outcome.splits if_splits intro: program_step.intros)

lemma program_sched_reachable:
  "program_sched L cfg es x = Some y \<Longrightarrow> reachable x0 (program_step L cfg) x \<Longrightarrow>
     reachable x0 (program_step L cfg) y"
  by (induction es arbitrary: x) (auto split: option.splits intro: reachable_step dest: program_do_step)

lemma program_sched_append:
  "program_sched L cfg (es @ fs) x =
     (case program_sched L cfg es x of Some y \<Rightarrow> program_sched L cfg fs y | None \<Rightarrow> None)"
  by (induction es arbitrary: x) (auto split: option.splits)

lemma program_sched_seq:
  "program_sched L cfg es x = Some y \<Longrightarrow> program_sched L cfg fs y = Some z \<Longrightarrow>
     program_sched L cfg (es @ fs) x = Some z"
  by (simp add: program_sched_append)

section \<open>The run\<close>

text \<open>One reader, no writer, one operation.\<close>

definition lone_reader :: SimConfig where
  "lone_reader = default_SimConfig\<lparr>cfg_numReaders := 1, cfg_numWriters := 0, cfg_totalOps := 1\<rparr>"

lemma lone_reader_simps [simp]:
  "num_threads lone_reader = 1" "cfg_totalOps lone_reader = 1" "cfg_starveThresholdMs lone_reader = 500"
  "thread_arg lone_reader 0 = \<lparr>arg_type = READER, arg_isAbortTarget = False\<rparr>"
  by (simp_all add: lone_reader_def num_threads_def thread_arg_def default_SimConfig_def STARVE_MS_def)

text \<open>
  What matters of the program's state: where its three threads are, the lock, the operations left, and of the
  record of the reader its state, its starvation count and when its wait began.
\<close>

definition scene ::
    "(rp_lock, rp_point) program \<Rightarrow> main_point \<Rightarrow> worker_point \<Rightarrow> rp_point phase \<Rightarrow> watchdog_point \<Rightarrow>
       rp_lock \<Rightarrow> 32 word \<Rightarrow> ThreadState \<Rightarrow> int \<Rightarrow> TimePoint \<Rightarrow> bool" where
  "scene x m p ph d l ops st starves time \<longleftrightarrow>
     main_at x = m \<and> points (sim_of x) 0 = p \<and> phase (lk (sim_of x)) 0 = ph \<and> dog_at x = d \<and> dog_running x
   \<and> shared (lk (sim_of x)) = l \<and> opsRemaining (sim_of x) = ops
   \<and> ti_state (infos (lk (sim_of x)) 0) = st \<and> ti_starveCount (infos (lk (sim_of x)) 0) = starves
   \<and> now (lk (sim_of x)) = time \<and> later (lk (sim_of x)) = time
   \<and> (st = WAITING \<longrightarrow> ti_waitStart (infos (lk (sim_of x)) 0) = 0)"

lemma SEM_VALUE_MAX_pos: "SEM_VALUE_MAX \<noteq> 0" "0 \<noteq> SEM_VALUE_MAX"
  by (simp_all add: SEM_VALUE_MAX_def)

lemmas scene_simps = scene_def worker_act_def goto_def worker_log_def worker_summary_def set_info_def enter_call_def
  in_lock_call_def advance_def run_method_def fetch_op_def refund_op_def elapse_def
  Semaphore_wait_unfold Semaphore_post_unfold SEM_VALUE_MAX_pos ReaderPriorityLock_def binary_semaphore_def
  transitionWaiting_def transitionActive_def transitionReleasing_def enterWaiting_def enterActive_def Let_def

lemma scene_start:
  "\<exists>x. program_sched rp_class lone_reader (replicate 5 Ev_main) (program_start ReaderPriorityLock lone_reader g) = Some x
     \<and> scene x (M_join 0) W_init Outside WD_test ReaderPriorityLock 1 INIT 0 0"
  by (simp add: eval_nat_numeral program_start_def sim_start_def lock_start_def scene_def main_log_def set_main_def
      set_dog_def Watchdog_start_def goto_def Let_def initial_info_def default_ThreadInfo_def)

lemma scene_waits:
  assumes "scene x (M_join 0) W_init Outside WD_test ReaderPriorityLock 1 INIT 0 0"
  shows "\<exists>y. program_sched rp_class lone_reader [Ev_worker 0, Ev_worker 0, Ev_worker 0, Ev_worker 0, Ev_time 1000000000] x = Some y
     \<and> scene y (M_join 0) W_in_lock (InReadLock RL_mutex_wait) WD_test ReaderPriorityLock 0 WAITING 0 1000000000"
  using assms by (simp add: scene_simps)

lemma lone_registry [simp]: "registry lone_reader x = [infos (lk (sim_of x)) 0]"
  by (simp add: registry_def)

lemma put_dog_more [simp]:
  "opsRemaining (sim_of (put_dog d x)) = opsRemaining (sim_of x)"
  "now (lk (sim_of (put_dog d x))) = now (lk (sim_of x))" "later (lk (sim_of (put_dog d x))) = later (lk (sim_of x))"
  by (simp_all add: put_dog_def Let_def set_dog_def)

lemmas dog_simps = scene_def dog_view_def wd_entry_def currentWaitMs_def write_records_def duration_cast_ms_def

lemma scene_watched:
  assumes "scene x (M_join 0) W_in_lock (InReadLock RL_mutex_wait) WD_test ReaderPriorityLock 0 WAITING 0 1000000000"
  shows "\<exists>y. program_sched rp_class lone_reader [Ev_dog, Ev_dog, Ev_dog, Ev_dog] x = Some y
     \<and> scene y (M_join 0) W_in_lock (InReadLock RL_mutex_wait) (WD_block 0 1000) ReaderPriorityLock 0 WAITING 0 1000000000"
  using assms by (simp add: dog_simps)

lemma scene_locks:
  assumes "scene x (M_join 0) W_in_lock (InReadLock RL_mutex_wait) (WD_block 0 1000) ReaderPriorityLock 0 WAITING 0 1000000000"
  shows "\<exists>y. program_sched rp_class lone_reader [Ev_worker 0, Ev_worker 0, Ev_worker 0, Ev_worker 0, Ev_worker 0] x = Some y
     \<and> scene y (M_join 0) W_read Reading (WD_block 0 1000)
         (ReaderPriorityLock\<lparr>rp_readCount := 1, rp_wrt := binary_semaphore\<lparr>sem_count := 0\<rparr>\<rparr>) 0 ACTIVE 0 1000000000"
  using assms by (simp add: scene_simps)

lemma scene_reads:
  assumes "scene x (M_join 0) W_read Reading (WD_block 0 1000)
         (ReaderPriorityLock\<lparr>rp_readCount := 1, rp_wrt := binary_semaphore\<lparr>sem_count := 0\<rparr>\<rparr>) 0 ACTIVE 0 1000000000"
  shows "\<exists>y. program_sched rp_class lone_reader [Ev_worker 0, Ev_worker 0, Ev_worker 0, Ev_worker 0, Ev_worker 0] x = Some y
     \<and> scene y (M_join 0) W_in_unlock (InReadUnlock RU_mutex_wait) (WD_block 0 1000)
         (ReaderPriorityLock\<lparr>rp_readCount := 1, rp_wrt := binary_semaphore\<lparr>sem_count := 0\<rparr>\<rparr>) 0 ACTIVE 0 1000000000"
  using assms by (simp add: scene_simps complete_op_def)

lemma scene_unlocks:
  assumes "scene x (M_join 0) W_in_unlock (InReadUnlock RU_mutex_wait) (WD_block 0 1000)
         (ReaderPriorityLock\<lparr>rp_readCount := 1, rp_wrt := binary_semaphore\<lparr>sem_count := 0\<rparr>\<rparr>) 0 ACTIVE 0 1000000000"
  shows "\<exists>y. program_sched rp_class lone_reader [Ev_worker 0, Ev_worker 0, Ev_worker 0, Ev_worker 0, Ev_worker 0] x = Some y
     \<and> scene y (M_join 0) W_fetch Outside (WD_block 0 1000) ReaderPriorityLock 0 RELEASING 0 1000000000"
  using assms by (simp add: scene_simps)

lemma scene_finishes:
  assumes "scene x (M_join 0) W_fetch Outside (WD_block 0 1000) ReaderPriorityLock 0 RELEASING 0 1000000000"
  shows "\<exists>y. program_sched rp_class lone_reader [Ev_worker 0, Ev_worker 0, Ev_worker 0] x = Some y
     \<and> scene y (M_join 0) W_exit Outside (WD_block 0 1000) ReaderPriorityLock 0 DONE 0 1000000000
     \<and> last (lg_stdout (logger (lk (sim_of y)))) = summary_line (logger (lk (sim_of y))) (infos (lk (sim_of y)) 0)"
  using assms by (simp add: scene_simps log_summary_def summary_line_def writeLine_def)

lemma scene_reported:
  assumes "scene x (M_join 0) W_exit Outside (WD_block 0 1000) ReaderPriorityLock 0 DONE 0 1000000000"
  shows "\<exists>y. program_sched rp_class lone_reader [Ev_dog, Ev_dog, Ev_dog, Ev_dog] x = Some y
     \<and> scene y (M_join 0) W_exit Outside WD_unlock ReaderPriorityLock 0 BLOCKED 1 1000000000
     \<and> lg_stdout (logger (lk (sim_of y)))
         = lg_stdout (logger (lk (sim_of x))) @ [alert_line (logger (lk (sim_of x))) (infos (lk (sim_of y)) 0) 1000]"
  using assms by (simp add: dog_simps log_alert_def)

lemma scene_stops:
  assumes "scene x (M_join 0) W_exit Outside WD_unlock ReaderPriorityLock 0 BLOCKED 1 1000000000"
  shows "\<exists>y. program_sched rp_class lone_reader [Ev_main, Ev_main, Ev_main, Ev_dog, Ev_dog, Ev_main] x = Some y
     \<and> main_at y = M_report \<and> ti_starveCount (infos (lk (sim_of y)) 0) = 1"
  using assms by (simp add: dog_simps worker_done_def Watchdog_stop_def)

lemma lone_result:
  "mr_starvationCount (simulation_result lone_reader s w b a) = ti_starveCount (infos (lk s) 0)"
  by (cases "ti_type (infos (lk s) 0)")
     (simp_all add: simulation_result_def Metrics_compute_def no_sums_def Let_def split: prod.split)

lemma scene_ends:
  assumes "main_at x = M_report" and "ti_starveCount (infos (lk (sim_of x)) 0) = 1"
  shows "\<exists>y r. program_sched rp_class lone_reader [Ev_main] x = Some y
     \<and> main_at y = M_returned r \<and> mr_starvationCount r = 1"
  using assms by (simp add: lone_result Let_def)

text \<open>Up to the end of the reader's thread function.\<close>

lemma reader_finished:
  "\<exists>x. reachable (program_start ReaderPriorityLock lone_reader g) (program_step rp_class lone_reader) x
     \<and> scene x (M_join 0) W_exit Outside (WD_block 0 1000) ReaderPriorityLock 0 DONE 0 1000000000
     \<and> last (lg_stdout (logger (lk (sim_of x)))) = summary_line (logger (lk (sim_of x))) (infos (lk (sim_of x)) 0)"
proof -
  let ?run = "program_sched rp_class lone_reader"
  obtain x1 where 1: "?run (replicate 5 Ev_main) (program_start ReaderPriorityLock lone_reader g) = Some x1"
    "scene x1 (M_join 0) W_init Outside WD_test ReaderPriorityLock 1 INIT 0 0" using scene_start by blast
  obtain x2 where 2: "?run [Ev_worker 0, Ev_worker 0, Ev_worker 0, Ev_worker 0, Ev_time 1000000000] x1 = Some x2"
    "scene x2 (M_join 0) W_in_lock (InReadLock RL_mutex_wait) WD_test ReaderPriorityLock 0 WAITING 0 1000000000"
    using scene_waits [OF 1(2)] by blast
  obtain x3 where 3: "?run [Ev_dog, Ev_dog, Ev_dog, Ev_dog] x2 = Some x3"
    "scene x3 (M_join 0) W_in_lock (InReadLock RL_mutex_wait) (WD_block 0 1000) ReaderPriorityLock 0 WAITING 0 1000000000"
    using scene_watched [OF 2(2)] by blast
  obtain x4 where 4: "?run [Ev_worker 0, Ev_worker 0, Ev_worker 0, Ev_worker 0, Ev_worker 0] x3 = Some x4"
    "scene x4 (M_join 0) W_read Reading (WD_block 0 1000)
       (ReaderPriorityLock\<lparr>rp_readCount := 1, rp_wrt := binary_semaphore\<lparr>sem_count := 0\<rparr>\<rparr>) 0 ACTIVE 0 1000000000"
    using scene_locks [OF 3(2)] by blast
  obtain x5 where 5: "?run [Ev_worker 0, Ev_worker 0, Ev_worker 0, Ev_worker 0, Ev_worker 0] x4 = Some x5"
    "scene x5 (M_join 0) W_in_unlock (InReadUnlock RU_mutex_wait) (WD_block 0 1000)
       (ReaderPriorityLock\<lparr>rp_readCount := 1, rp_wrt := binary_semaphore\<lparr>sem_count := 0\<rparr>\<rparr>) 0 ACTIVE 0 1000000000"
    using scene_reads [OF 4(2)] by blast
  obtain x6 where 6: "?run [Ev_worker 0, Ev_worker 0, Ev_worker 0, Ev_worker 0, Ev_worker 0] x5 = Some x6"
    "scene x6 (M_join 0) W_fetch Outside (WD_block 0 1000) ReaderPriorityLock 0 RELEASING 0 1000000000"
    using scene_unlocks [OF 5(2)] by blast
  obtain x where x: "?run [Ev_worker 0, Ev_worker 0, Ev_worker 0] x6 = Some x"
    "scene x (M_join 0) W_exit Outside (WD_block 0 1000) ReaderPriorityLock 0 DONE 0 1000000000"
    "last (lg_stdout (logger (lk (sim_of x)))) = summary_line (logger (lk (sim_of x))) (infos (lk (sim_of x)) 0)"
    using scene_finishes [OF 6(2)] by blast
  note steps = program_sched_reachable [of rp_class lone_reader]
  have "reachable (program_start ReaderPriorityLock lone_reader g) (program_step rp_class lone_reader) x"
    by (rule steps [OF x(1) steps [OF 6(1) steps [OF 5(1) steps [OF 4(1) steps [OF 3(1) steps [OF 2(1)
          steps [OF 1(1) reachable_init]]]]]]])
  with x(2,3) show ?thesis by blast
qed

section \<open>Properties\<close>

text \<open>
  C27: The watchdog reports a thread that is no longer there.  Its load of the state and its store of \<open>BLOCKED\<close>
  are not one action, and the program has a run in which a reader, found \<open>WAITING\<close> by the load, gets the lock,
  completes its operation and finishes in between: its thread function has ended, its record is \<open>DONE\<close> with no
  starvation, and the last line logged is its summary, written from that record.  The watchdog's next four
  actions turn the record into \<open>BLOCKED\<close> with one starvation and log a starvation alert for it after the summary,
  and the run then ends with a result that counts one starvation.
\<close>

theorem watchdog_overwrites_done:
  "\<exists>x x' es y r. reachable (program_start ReaderPriorityLock lone_reader g) (program_step rp_class lone_reader) x
     \<and> points (sim_of x) 0 = W_exit
     \<and> ti_state (infos (lk (sim_of x)) 0) = DONE \<and> ti_starveCount (infos (lk (sim_of x)) 0) = 0
     \<and> last (lg_stdout (logger (lk (sim_of x)))) = summary_line (logger (lk (sim_of x))) (infos (lk (sim_of x)) 0)
     \<and> program_sched rp_class lone_reader [Ev_dog, Ev_dog, Ev_dog, Ev_dog] x = Some x'
     \<and> points (sim_of x') 0 = W_exit
     \<and> ti_state (infos (lk (sim_of x')) 0) = BLOCKED \<and> ti_starveCount (infos (lk (sim_of x')) 0) = 1
     \<and> lg_stdout (logger (lk (sim_of x')))
         = lg_stdout (logger (lk (sim_of x))) @ [alert_line (logger (lk (sim_of x))) (infos (lk (sim_of x')) 0) 1000]
     \<and> program_sched rp_class lone_reader es x' = Some y
     \<and> main_at y = M_returned r \<and> mr_starvationCount r = 1"
proof -
  let ?run = "program_sched rp_class lone_reader"
  obtain x where x: "reachable (program_start ReaderPriorityLock lone_reader g) (program_step rp_class lone_reader) x"
    "scene x (M_join 0) W_exit Outside (WD_block 0 1000) ReaderPriorityLock 0 DONE 0 1000000000"
    "last (lg_stdout (logger (lk (sim_of x)))) = summary_line (logger (lk (sim_of x))) (infos (lk (sim_of x)) 0)"
    using reader_finished by blast
  obtain x' where x': "?run [Ev_dog, Ev_dog, Ev_dog, Ev_dog] x = Some x'"
    "scene x' (M_join 0) W_exit Outside WD_unlock ReaderPriorityLock 0 BLOCKED 1 1000000000"
    "lg_stdout (logger (lk (sim_of x')))
       = lg_stdout (logger (lk (sim_of x))) @ [alert_line (logger (lk (sim_of x))) (infos (lk (sim_of x')) 0) 1000]"
    using scene_reported [OF x(2)] by blast
  obtain es y r where y: "?run es x' = Some y" "main_at y = M_returned r" "mr_starvationCount r = 1"
    using scene_stops [OF x'(2)] scene_ends program_sched_seq by metis
  have "points (sim_of x) 0 = W_exit" "ti_state (infos (lk (sim_of x)) 0) = DONE"
    "ti_starveCount (infos (lk (sim_of x)) 0) = 0" "points (sim_of x') 0 = W_exit"
    "ti_state (infos (lk (sim_of x')) 0) = BLOCKED" "ti_starveCount (infos (lk (sim_of x')) 0) = 1"
    using x(2) x'(2) by (simp_all only: scene_def)
  with x(1,3) x'(1,3) y show ?thesis by blast
qed

end
