(* ===== verification/Run_Times.thy ===== *)
theory Run_Times
  imports Run_Simulation Benchmark
begin

text \<open>
  The times of a whole simulation: the waits a record accumulates lie between the start and the end that
  \<open>runSimulation\<close> measures, so the average waits it reports are neither negative nor longer than the run.
\<close>

section \<open>The invariant\<close>

text \<open>
  \<open>ws\<close> is the start of the measurement and \<open>n\<close> the current time; what a thread has accumulated ended before
  its current wait began.
\<close>

definition thread_times ::
    "('l, 'p) RWLockBase \<Rightarrow> TimePoint \<Rightarrow> TimePoint \<Rightarrow> worker_point \<Rightarrow> 'p phase \<Rightarrow> ThreadInfo \<Rightarrow> bool" where
  "thread_times L ws n p x i \<longleftrightarrow> 0 \<le> ti_totalWaitMs i
     \<and> (if p = W_new then ti_totalWaitMs i = 0
        else if waiting_at L p x then ti_waitStart i \<le> n \<and> 1000000 * ti_totalWaitMs i \<le> ti_waitStart i - ws
        else 1000000 * ti_totalWaitMs i \<le> n - ws)"

fun measuring :: "main_point \<Rightarrow> bool" where
  "measuring (M_create k) = True"
| "measuring (M_join k) = True"
| "measuring _ = False"

fun measured :: "main_point \<Rightarrow> bool" where
  "measured M_stop = True"
| "measured M_join_watchdog = True"
| "measured M_report = True"
| "measured (M_returned r) = True"
| "measured _ = False"

definition time_inv :: "('l, 'p) RWLockBase \<Rightarrow> SimConfig \<Rightarrow> ('l, 'p) program \<Rightarrow> bool" where
  "time_inv L cfg x \<longleftrightarrow> now (lk (sim_of x)) \<le> later (lk (sim_of x))
     \<and> (measuring (main_at x) \<longrightarrow> wall_start x \<le> now (lk (sim_of x)))
     \<and> (\<forall>t. thread_times L (wall_start x) (now (lk (sim_of x))) (points (sim_of x) t) (phase (lk (sim_of x)) t)
              (infos (lk (sim_of x)) t))
     \<and> (measured (main_at x) \<longrightarrow> wall_start x \<le> wall_end x
          \<and> (\<forall>t < num_threads cfg. 1000000 * ti_totalWaitMs (infos (lk (sim_of x)) t) \<le> wall_end x - wall_start x))"

lemma thread_times_later: "thread_times L ws n p x i \<Longrightarrow> n \<le> n' \<Longrightarrow> thread_times L ws n' p x i"
  by (simp add: thread_times_def split: if_splits)

lemma thread_times_cong:
  "ti_waitStart j = ti_waitStart i \<Longrightarrow> ti_totalWaitMs j = ti_totalWaitMs i \<Longrightarrow>
     thread_times L ws n p x j = thread_times L ws n p x i"
  by (simp add: thread_times_def)

lemma thread_times_new: "thread_times L ws n W_new x i \<Longrightarrow> thread_times L ws' n' W_new x i"
  by (simp add: thread_times_def)

lemma may_change_times:
  "watchdog_may_change i j \<Longrightarrow> ti_waitStart j = ti_waitStart i \<and> ti_totalWaitMs j = ti_totalWaitMs i"
  unfolding watchdog_may_change_def
  by (metis ThreadInfo.select_convs(5,8) ThreadInfo.surjective ThreadInfo.update_convs(10,4))

text \<open>An action of a worker, ending at the later of its two readings.\<close>

lemma thread_times_act:
  assumes times: "thread_times L ws n p x i" and clocks: "n \<le> n'"
    and eff: "clock_effect L n n' p x i p' x' j" and new: "p = W_new \<Longrightarrow> ws \<le> n" "p' \<noteq> W_new" "p \<noteq> W_in_lock \<longrightarrow> \<not> at_entry L x"
  shows "thread_times L ws n' p' x' j"
proof -
  have pos: "0 \<le> ti_totalWaitMs i" using times by (simp add: thread_times_def)
  consider (entry) "at_entry L x" "p = W_in_lock" | (got) "\<not> at_entry L x" "waiting_at L p x" "\<not> waiting_at L p' x'"
    | (same) "\<not> at_entry L x" "\<not> (waiting_at L p x \<and> \<not> waiting_at L p' x')"
    using new(3) by blast
  then show ?thesis
  proof cases
    case entry
    then show ?thesis using times eff clocks new by (auto simp: thread_times_def clock_effect_def waiting_at_def)
  next
    case got
    have w: "ti_waitStart i \<le> n" "1000000 * ti_totalWaitMs i \<le> ti_waitStart i - ws"
      using times got by (simp_all add: thread_times_def waiting_at_def)
    have d: "0 \<le> n' - ti_waitStart i" using w(1) clocks by simp
    have j: "ti_totalWaitMs j = ti_totalWaitMs i + duration_cast_ms (n' - ti_waitStart i)"
      using eff got by (simp add: clock_effect_def)
    show ?thesis
      using duration_cast_bounds(1) [OF d] duration_cast_nonneg [OF d] d w(2) pos got(3) new(2)
      by (simp add: thread_times_def j)
  next
    case same
    then have j: "ti_waitStart j = ti_waitStart i" "ti_totalWaitMs j = ti_totalWaitMs i"
      and wait: "waiting_at L p' x' \<longrightarrow> waiting_at L p x"
      using eff by (auto simp: clock_effect_def)
    show ?thesis
    proof (cases "waiting_at L p' x'")
      case True
      then show ?thesis using wait times clocks new(2) by (simp add: thread_times_def j waiting_at_def)
    next
      case False
      then have nw: "\<not> waiting_at L p x" using same(2) by blast
      show ?thesis using times nw False clocks new by (cases "p = W_new") (simp_all add: thread_times_def j)
    qed
  qed
qed

lemma thread_times_join:
  "thread_times L ws n p x i \<Longrightarrow> worker_done p \<Longrightarrow> 1000000 * ti_totalWaitMs i \<le> n - ws"
  by (auto simp: thread_times_def worker_done_def waiting_at_def)

lemma time_inv_start: "time_inv L cfg (program_start l0 cfg g)"
  by (simp add: time_inv_def program_start_def sim_start_simps thread_times_def)
     (simp add: sim_start_def lock_start_def initial_info_def default_ThreadInfo_def)

lemma time_inv_main:
  assumes act: "main_act cfg rc usage (main_at x) x = Some x'" and time: "time_inv L cfg x" and main: "main_inv cfg x"
  shows "time_inv L cfg x'"
proof -
  have clocks: "now (lk (sim_of x)) \<le> later (lk (sim_of x))"
    and threads: "\<And>t. thread_times L (wall_start x) (now (lk (sim_of x))) (points (sim_of x) t)
      (phase (lk (sim_of x)) t) (infos (lk (sim_of x)) t)"
    using time by (simp_all add: time_inv_def)
  from act show ?thesis
  proof (cases rule: main_act_cases)
    case measure
    have "points (sim_of x) t = W_new" for t using main measure(1) by (simp add: main_inv_def)
    then show ?thesis using clocks threads thread_times_new [of L "wall_start x"]
      by (simp add: measure(2) time_inv_def) metis
  next
    case (create t)
    have "wall_start x \<le> now (lk (sim_of x))" using time create(1) by (simp add: time_inv_def)
    moreover have "points (sim_of x) t = W_new" using main_point_facts [OF main create(1), of t] by simp
    ultimately have "thread_times L (wall_start x) (now (lk (sim_of x))) W_init (phase (lk (sim_of x)) t) (infos (lk (sim_of x)) t)"
      using threads [of t] by (simp add: thread_times_def waiting_at_def)
    then show ?thesis using time create(1) threads by (simp add: create(4) time_inv_def)
  next
    case (joined t)
    have "wall_start x \<le> now (lk (sim_of x))" using time joined(1) by (simp add: time_inv_def)
    moreover have "worker_done (points (sim_of x) u)" if "u < num_threads cfg" for u
      using main joined(1,2) that by (simp add: main_inv_def)
    ultimately show ?thesis
      using clocks threads thread_times_join [OF threads] by (simp add: joined(3) time_inv_def)
  next
    case (report r)
    then show ?thesis using time by (simp add: time_inv_def) (simp add: main_log_def Let_def)
  next
    case header
    then show ?thesis using time by (simp add: time_inv_def) (simp add: main_log_def Let_def)
  next
    case (start d)
    then show ?thesis using time by (simp add: time_inv_def)
  next
    case stop
    then show ?thesis using time by (simp add: time_inv_def)
  next
    case (created t)
    then show ?thesis using time by (simp add: time_inv_def)
  next
    case (join t)
    then show ?thesis using time by (simp add: time_inv_def)
  next
    case join_dog
    then show ?thesis using time by (simp add: time_inv_def)
  next
    case (threw e what)
    then show ?thesis using time by (simp add: time_inv_def)
  qed
qed

text \<open>Steps of others: records keep their times, and time may pass.\<close>

lemma time_inv_other:
  assumes time: "time_inv L cfg x" and same: "points (sim_of x') = points (sim_of x)"
      "phase (lk (sim_of x')) = phase (lk (sim_of x))" "main_at x' = main_at x" "wall_start x' = wall_start x"
      "wall_end x' = wall_end x"
    and clocks: "now (lk (sim_of x)) \<le> now (lk (sim_of x'))" "now (lk (sim_of x')) \<le> later (lk (sim_of x'))"
    and infos: "\<And>t. watchdog_may_change (infos (lk (sim_of x)) t) (infos (lk (sim_of x')) t)"
  shows "time_inv L cfg x'"
proof -
  have times: "ti_waitStart (infos (lk (sim_of x')) t) = ti_waitStart (infos (lk (sim_of x)) t)"
    "ti_totalWaitMs (infos (lk (sim_of x')) t) = ti_totalWaitMs (infos (lk (sim_of x)) t)" for t
    using may_change_times [OF infos] by simp_all
  have "thread_times L (wall_start x) (now (lk (sim_of x'))) (points (sim_of x) t) (phase (lk (sim_of x)) t)
      (infos (lk (sim_of x')) t)" for t
    unfolding thread_times_cong [OF times]
    by (rule thread_times_later [OF _ clocks(1)]) (use time in \<open>simp add: time_inv_def\<close>)
  then show ?thesis using time same clocks times by (auto simp: time_inv_def)
qed

context recording_lock
begin

lemma time_inv_worker:
  assumes cfg: "valid_cfg cfg" and inv: "program_inv L l0 cfg g x" and time: "time_inv L cfg x"
    and created: "points (sim_of x) t \<noteq> W_new" and act: "worker_act L cfg t w (sim_of x) = Done s"
  shows "time_inv L cfg (x\<lparr>sim_of := elapse s, waits := ws\<rparr>)"
proof -
  let ?s = "sim_of x"
  have main: "main_inv cfg x" and r: "reachable (sim_start l0 cfg g) (sim_step L cfg) ?s"
    using inv by (simp_all add: program_inv_def)
  note sim = sim_inv_reachable [OF cfg r]
  note pts = act_points [OF act]
  note coh = sim_inv_facts(2) [OF sim, of t]
  note clock = act_clock [OF act coh]
  have others: "u \<noteq> t \<Longrightarrow> points s u = points ?s u \<and> phase (lk s) u = phase (lk ?s) u
      \<and> infos (lk s) u = infos (lk ?s) u" for u
    by (rule worker_act_effect(4) [OF act sim])
  have clocks: "now (lk ?s) \<le> later (lk ?s)"
    and threads: "\<And>u. thread_times L (wall_start x) (now (lk ?s)) (points ?s u) (phase (lk ?s) u) (infos (lk ?s) u)"
    using time by (simp_all add: time_inv_def)
  have "thread_times L (wall_start x) (later (lk ?s)) (points s t) (phase (lk s) t) (infos (lk s) t)"
    by (rule thread_times_act [OF threads clocks clock(1)]) (use created pts(3) coherent_entry [OF coh] in auto)
  moreover have "thread_times L (wall_start x) (later (lk ?s)) (points s u) (phase (lk s) u) (infos (lk s) u)"
    if "u \<noteq> t" for u using thread_times_later [OF threads clocks, of u] others [OF that] by simp
  ultimately have all: "thread_times L (wall_start x) (later (lk ?s)) (points s u) (phase (lk s) u) (infos (lk s) u)" for u
    by (cases "u = t") auto
  have "\<not> measured (main_at x)"
  proof
    assume "measured (main_at x)"
    then have "all_returned cfg ?s" using main by (cases "main_at x") (simp_all add: main_inv_def)
    then show False using pts(1,2) by (simp add: all_returned_def)
  qed
  then show ?thesis using time all clocks by (auto simp: time_inv_def clock(3))
qed

lemma time_inv_step:
  assumes cfg: "valid_cfg cfg" and inv: "program_inv L l0 cfg g x" and time: "time_inv L cfg x"
    and step: "program_step L cfg x x'"
  shows "time_inv L cfg x'"
  using step
proof (cases rule: program_step.cases)
  case (worker t w s)
  show ?thesis unfolding worker(1) by (rule time_inv_worker [OF cfg inv time worker(2,3)])
next
  case (main rc usage)
  have "main_inv cfg x" using inv by (simp add: program_inv_def)
  then show ?thesis by (rule time_inv_main [OF main time])
next
  case (dog d)
  have "not_started cfg x \<or> dog_refined cfg x" using inv by (simp add: program_inv_def)
  then have idx: "\<And>k. scan_index (dog_at x) = Some k \<Longrightarrow> k < length (wd_registry (dog_view cfg x))"
    using dog_index by simp
  note frame = Watchdog_run_frame [OF dog(2) _ idx, simplified]
  have clocks: "now (lk (sim_of x)) \<le> later (lk (sim_of x))" using time by (simp add: time_inv_def)
  show ?thesis
    by (rule time_inv_other [OF time])
       (use clocks frame(1,7) in \<open>simp_all add: dog(1) put_dog_def set_dog_def write_records_def Let_def\<close>)
next
  case sigusr1
  have clocks: "now (lk (sim_of x)) \<le> later (lk (sim_of x))" using time by (simp add: time_inv_def)
  show ?thesis by (rule time_inv_other [OF time]) (use clocks in \<open>simp_all add: sigusr1\<close>)
next
  case (tick n n' c)
  show ?thesis by (rule time_inv_other [OF time]) (use tick in simp_all)
qed

lemma time_inv_reachable:
  assumes cfg: "valid_cfg cfg" and "reachable (program_start l0 cfg g) (program_step L cfg) x"
  shows "time_inv L cfg x"
  using assms(2)
proof (induction rule: reachable.induct)
  case reachable_init
  show ?case by (rule time_inv_start)
next
  case (reachable_step x x')
  from time_inv_step [OF cfg program_inv_reachable [OF cfg reachable_step(1)] reachable_step(3,2)] show ?case .
qed

end

end
