(* ===== verification/Run_Length.thy ===== *)
theory Run_Length
  imports Run_Simulation Fair_Work Single_Writer
begin

text \<open>
  How long \<open>runSimulation\<close> takes and when it returns: every action of main thread, workers and stopped watchdog
  lowers a measure, whatever the lock, up to spurious wakeups of condition variables.
\<close>

section \<open>The length of a run\<close>

text \<open>
  Actions that bring the program closer to its end: all but the polls of a watchdog that has not been
  asked to stop.  The flag marks those a condition variable may take without having been signalled.
\<close>

inductive productive ::
    "('l, 'p) RWLockBase \<Rightarrow> SimConfig \<Rightarrow> bool \<Rightarrow> ('l, 'p) program \<Rightarrow> ('l, 'p) program \<Rightarrow> bool" for L cfg where
  worker: "points (sim_of x) t \<noteq> W_new \<Longrightarrow> worker_act L cfg t w (sim_of x) = Done s \<Longrightarrow>
     productive L cfg (w = Spurious) x (x\<lparr>sim_of := elapse s, waits := note_wait L (phase (lk (sim_of x)) t) t (waits x)\<rparr>)"
| main: "main_act cfg rc usage (main_at x) x = Some x' \<Longrightarrow> productive L cfg False x x'"
| dog: "\<not> dog_running x \<Longrightarrow> Watchdog_run (now (lk (sim_of x))) (dog_at x) (dog_view cfg x) = Some d \<Longrightarrow>
     productive L cfg False x (put_dog d x)"

lemma productive_step: "productive L cfg b x x' \<Longrightarrow> program_step L cfg x x'"
  by (induction rule: productive.induct) (auto intro: program_step.intros)

text \<open>A run with \<open>k\<close> productive actions among its steps, \<open>m\<close> of them spurious.\<close>

inductive program_run ::
    "('l, 'p) RWLockBase \<Rightarrow> SimConfig \<Rightarrow> nat \<Rightarrow> nat \<Rightarrow> ('l, 'p) program \<Rightarrow> ('l, 'p) program \<Rightarrow> bool" for L cfg where
  run_none: "program_run L cfg 0 0 x x"
| run_productive: "program_run L cfg k m x0 x \<Longrightarrow> productive L cfg b x x' \<Longrightarrow>
     program_run L cfg (Suc k) (m + of_bool b) x0 x'"
| run_other: "program_run L cfg k m x0 x \<Longrightarrow> program_step L cfg x x' \<Longrightarrow>
     points (sim_of x') = points (sim_of x) \<Longrightarrow> phase (lk (sim_of x')) = phase (lk (sim_of x)) \<Longrightarrow>
     shared (lk (sim_of x')) = shared (lk (sim_of x)) \<Longrightarrow> program_run L cfg k m x0 x'"

lemma program_run_reachable:
  "program_run L cfg k m x0 x \<Longrightarrow> reachable x1 (program_step L cfg) x0 \<Longrightarrow> reachable x1 (program_step L cfg) x"
  by (induction rule: program_run.induct) (auto intro: reachable_step productive_step)

text \<open>No step is left out: each is productive, or moves neither a worker nor the lock.\<close>

lemma reachable_run:
  assumes "reachable x0 (program_step L cfg) x"
  shows "\<exists>k m. program_run L cfg k m x0 x"
  using assms
proof (induction rule: reachable.induct)
  case reachable_init
  show ?case using run_none by blast
next
  case (reachable_step x x')
  then obtain k m where run: "program_run L cfg k m x0 x" by blast
  from reachable_step(2) show ?case
  proof (cases rule: program_step.cases)
    case (worker t w s)
    then show ?thesis using run_productive [OF run productive.worker] by blast
  next
    case (main rc usage)
    then show ?thesis using run_productive [OF run productive.main] by blast
  next
    case (dog d)
    then show ?thesis using run_other [OF run reachable_step(2)] by (simp add: put_dog_def set_dog_def Let_def) blast
  next
    case sigusr1
    then show ?thesis using run_other [OF run reachable_step(2)] by simp blast
  next
    case (tick n n' c)
    then show ?thesis using run_other [OF run reachable_step(2)] by simp blast
  qed
qed

definition main_left :: "SimConfig \<Rightarrow> main_point \<Rightarrow> nat" where
  "main_left cfg m = (let n = num_threads cfg in case m of
     M_header \<Rightarrow> 2 * n + 8 | M_watchdog \<Rightarrow> 2 * n + 7 | M_measure \<Rightarrow> 2 * n + 6
   | M_create k \<Rightarrow> (n - k) + n + 5 | M_join k \<Rightarrow> (n - k) + 4 | M_stop \<Rightarrow> 3 | M_join_watchdog \<Rightarrow> 2
   | M_report \<Rightarrow> 1 | M_returned r \<Rightarrow> 0 | M_threw e what \<Rightarrow> 0)"

definition dog_left :: "SimConfig \<Rightarrow> ('l, 'p) program \<Rightarrow> nat" where
  "dog_left cfg x = (if dog_running x \<or> dog_at x = WD_not_started then 6 * num_threads cfg + 3
                     else wd_left (dog_view cfg x))"

definition program_work :: "(SimConfig \<Rightarrow> ('l, 'p) sim \<Rightarrow> nat) \<Rightarrow> SimConfig \<Rightarrow> ('l, 'p) program \<Rightarrow> nat" where
  "program_work work cfg x = work cfg (sim_of x) + main_left cfg (main_at x) + dog_left cfg x"

lemma work_with_cong:
  assumes "points s' = points s" "phase (lk s') = phase (lk s)"
    and "\<And>t. ti_opsCompleted (infos (lk s') t) = ti_opsCompleted (infos (lk s) t)"
  shows "work_with B rk cfg s' = work_with B rk cfg s"
  using assms by (simp add: work_with_def claimed_def op_account_def)

lemma wd_left_cong:
  "wd_point d' = wd_point d \<Longrightarrow> length (wd_registry d') = length (wd_registry d) \<Longrightarrow> wd_left d' = wd_left d"
  by (simp add: wd_left_def)

lemma dog_left_cong:
  "dog_running x' = dog_running x \<Longrightarrow> dog_at x' = dog_at x \<Longrightarrow> dog_left cfg x' = dog_left cfg x"
  using wd_left_cong [of "dog_view cfg x'" "dog_view cfg x"] by (simp add: dog_left_def)

lemma dog_inv:
  assumes "dog_refined cfg x"
  shows "watchdog_inv (dog_view cfg x)" "dog_at x \<noteq> WD_not_started"
  using assms watchdog_inv_reachable [OF started_registry] by (auto simp: dog_refined_def)

lemma dog_stopping: "dog_refined cfg x \<Longrightarrow> \<not> dog_running x \<Longrightarrow> stopping (dog_view cfg x)"
  using dog_inv by (fastforce simp: stopping_def watchdog_inv_def)

text \<open>
  From the states \<open>G\<close> the workers can go on within \<open>G\<close>: \<open>G\<close> is about points, phases and the lock only, survives
  the creation of a worker, and a worker can act until all have returned, without a spurious wakeup.
\<close>

definition keeps_going ::
    "('l, 'p) RWLockBase \<Rightarrow> 'l \<Rightarrow> SimConfig \<Rightarrow> (('l, 'p) sim \<Rightarrow> bool) \<Rightarrow> bool" where
  "keeps_going L l0 cfg G \<longleftrightarrow>
     (\<forall>s s'. G s \<longrightarrow> points s' = points s \<longrightarrow> phase (lk s') = phase (lk s) \<longrightarrow> shared (lk s') = shared (lk s) \<longrightarrow> G s')
   \<and> (\<forall>s t. G s \<longrightarrow> points s t = W_new \<longrightarrow> G (goto t W_init s))
   \<and> (\<forall>g s t. reachable (sim_start l0 cfg g) (sim_step L cfg) s \<longrightarrow> G s \<longrightarrow>
        (\<forall>u < num_threads cfg. points s u \<noteq> W_new) \<longrightarrow> t < num_threads cfg \<longrightarrow> \<not> worker_done (points s t) \<longrightarrow>
        (\<exists>u v s'. worker_act L cfg u (Pick v) s = Done s' \<and> G s'))"

text \<open>
  The two halves of termination: a run has at most \<open>b\<close> productive actions, and \<open>penalty\<close> more for each spurious
  wakeup; and in every state that can be reached, the main thread has ended or somebody can act.
\<close>

definition run_bounded :: "('l, 'p) RWLockBase \<Rightarrow> 'l \<Rightarrow> SimConfig \<Rightarrow> nat \<Rightarrow> nat \<Rightarrow> bool" where
  "run_bounded L l0 cfg b penalty \<longleftrightarrow>
     (\<forall>g k m x. program_run L cfg k m (program_start l0 cfg g) x \<longrightarrow> k \<le> b + penalty * m)"

definition never_stuck :: "('l, 'p) RWLockBase \<Rightarrow> 'l \<Rightarrow> SimConfig \<Rightarrow> bool" where
  "never_stuck L l0 cfg \<longleftrightarrow>
     (\<forall>g x. reachable (program_start l0 cfg g) (program_step L cfg) x \<longrightarrow>
        (\<exists>r. main_at x = M_returned r) \<or> (\<exists>e what. main_at x = M_threw e what)
      \<or> (\<exists>x'. productive L cfg False x x'))"

section \<open>The contract: a measure of the workers\<close>

text \<open>
  \<open>work\<close> bounds the actions of the workers, and each spurious wakeup may add up to \<open>penalty\<close> to it.
\<close>

locale ending_lock = recording_lock L l0 inv
  for L :: "('l, 'p) RWLockBase" and l0 inv +
  fixes work :: "SimConfig \<Rightarrow> ('l, 'p) sim \<Rightarrow> nat" and penalty :: nat
  assumes work_act: "valid_cfg cfg \<Longrightarrow> worker_act L cfg t w s = Done s' \<Longrightarrow> sim_inv L l0 cfg s \<Longrightarrow>
        work cfg s' < work cfg s + (if w = Spurious then penalty else 0)"
    and work_cong: "points s' = points s \<Longrightarrow> phase (lk s') = phase (lk s) \<Longrightarrow> shared (lk s') = shared (lk s) \<Longrightarrow>
        (\<And>t. ti_opsCompleted (infos (lk s') t) = ti_opsCompleted (infos (lk s) t)) \<Longrightarrow> work cfg s' = work cfg s"
begin

lemma main_work:
  assumes cfg: "valid_cfg cfg" and inv: "program_inv L l0 cfg g x"
    and act: "main_act cfg rc usage (main_at x) x = Some x'"
  shows "program_work work cfg x' < program_work work cfg x"
proof -
  have r: "reachable (sim_start l0 cfg g) (sim_step L cfg) (sim_of x)"
    and dog: "not_started cfg x \<or> dog_refined cfg x" and main: "main_inv cfg x"
    using inv by (simp_all add: program_inv_def)
  note sim = sim_inv_reachable [OF cfg r]
  note work = program_work_def main_left_def Let_def
  from act show ?thesis
  proof (cases rule: main_act_cases)
    case (create t)
    have "worker_act L cfg t w (sim_of x) = Done (goto t W_init (sim_of x))" for w
      using main_point_facts [OF main create(1), of t] create(2) by (simp add: worker_act_def)
    from work_act [OF cfg this [of "Pick t"] sim]
    have "work cfg (sim_of x') < work cfg (sim_of x)" by (simp add: create(4))
    moreover have "dog_left cfg x' = dog_left cfg x" by (rule dog_left_cong) (simp_all add: create(4))
    ultimately show ?thesis using create by (simp add: work)
  next
    case (start d)
    then have "not_started cfg x" using dog by (simp add: dog_refined_def)
    then have "dog_left cfg x = 6 * num_threads cfg + 3" by (simp add: dog_left_def not_started_def)
    then show ?thesis using start by (simp add: work dog_left_def)
  next
    case stop
    have run: "dog_running x" using main stop(1) by (simp add: main_inv_def)
    have "dog_refined cfg x" using dog stop(1) by (auto simp: not_started_def)
    note dinv = dog_inv [OF this]
    have view: "dog_view cfg x' = snd (Watchdog_stop (dog_view cfg x))"
      using stop by (simp add: dog_view_set Watchdog_stop_def)
    have "dog_left cfg x' \<le> 6 * num_threads cfg + 3"
      using stop_left [OF dinv(1)] by (simp add: dog_left_def view)
    moreover have "dog_left cfg x = 6 * num_threads cfg + 3" using run by (simp add: dog_left_def)
    ultimately show ?thesis using stop run by (simp add: work)
  next
    case (report r)
    then show ?thesis
      using work_cong [of "sim_of x'" "sim_of x" cfg] dog_left_cong [of x' x cfg] by (simp add: work)
  next
    case header
    then show ?thesis
      using work_cong [of "sim_of x'" "sim_of x" cfg] dog_left_cong [of x' x cfg] by (simp add: work)
  next
    case measure
    then show ?thesis using dog_left_cong [of x' x cfg] by (simp add: work)
  next
    case (created t)
    then show ?thesis using dog_left_cong [of x' x cfg] by (simp add: work)
  next
    case (join t)
    then show ?thesis using dog_left_cong [of x' x cfg] by (simp add: work)
  next
    case (joined t)
    then show ?thesis using dog_left_cong [of x' x cfg] by (simp add: work)
  next
    case join_dog
    then show ?thesis using dog_left_cong [of x' x cfg] by (simp add: work)
  next
    case (threw e what)
    have "0 < main_left cfg (main_at x)" using threw(1) by (auto simp: main_left_def Let_def)
    moreover have "dog_left cfg x' = dog_left cfg x" by (rule dog_left_cong) (simp_all add: threw(3))
    ultimately show ?thesis by (simp add: threw(3) work)
  qed
qed

lemma dog_work:
  assumes inv: "program_inv L l0 cfg g x"
    and run: "Watchdog_run n (dog_at x) (dog_view cfg x) = Some d"
  shows "program_work work cfg (put_dog d x) \<le> program_work work cfg x"
    and "\<not> dog_running x \<Longrightarrow> program_work work cfg (put_dog d x) < program_work work cfg x"
proof -
  have dog: "not_started cfg x \<or> dog_refined cfg x" using inv by (simp add: program_inv_def)
  have idx: "\<And>k. scan_index (dog_at x) = Some k \<Longrightarrow> k < length (wd_registry (dog_view cfg x))"
    using dog_index [OF dog] by simp
  note frame = Watchdog_run_frame [OF run _ idx, simplified]
  have started: "dog_refined cfg x" using dog frame(5) by (auto simp: not_started_def)
  have "ti_opsCompleted (write_records (wd_registry d) (infos (lk (sim_of x))) t) = ti_opsCompleted (infos (lk (sim_of x)) t)" for t
    using frame(1) frame(7) [of t] watchdog_keeps_ops by (simp add: write_records_def)
  then have sim: "work cfg (sim_of (put_dog d x)) = work cfg (sim_of x)"
    by (intro work_cong) simp_all
  have view: "dog_view cfg (put_dog d x) = d" by (rule dog_view_put) (simp_all add: frame)
  show less: "program_work work cfg (put_dog d x) < program_work work cfg x" if stopped: "\<not> dog_running x"
  proof -
    from stopping_cases [where now = n, OF dog_stopping [OF started stopped]]
    have "wd_left d < wd_left (dog_view cfg x)" using run by (cases) auto
    then show ?thesis
      using stopped frame(4,5,6) by (simp add: program_work_def sim dog_left_def view)
  qed
  show "program_work work cfg (put_dog d x) \<le> program_work work cfg x"
  proof (cases "dog_running x")
    case True
    then show ?thesis using frame(4) by (simp add: program_work_def sim dog_left_def)
  next
    case False
    then show ?thesis using less by simp
  qed
qed

lemma worker_work:
  assumes cfg: "valid_cfg cfg" and inv: "program_inv L l0 cfg g x"
    and act: "worker_act L cfg t w (sim_of x) = Done s"
  shows "program_work work cfg (x\<lparr>sim_of := elapse s, waits := ws\<rparr>)
       < program_work work cfg x + (if w = Spurious then penalty else 0)"
proof -
  have "reachable (sim_start l0 cfg g) (sim_step L cfg) (sim_of x)" using inv by (simp add: program_inv_def)
  from work_act [OF cfg act sim_inv_reachable [OF cfg this]]
  show ?thesis
    using dog_left_cong [of "x\<lparr>sim_of := elapse s, waits := ws\<rparr>" x cfg] work_cong [of "elapse s" s cfg]
    by (simp add: program_work_def)
qed

lemma productive_work:
  assumes cfg: "valid_cfg cfg" and inv: "program_inv L l0 cfg g x" and step: "productive L cfg b x x'"
  shows "program_work work cfg x' < program_work work cfg x + (if b then penalty else 0)"
  using step
proof (cases rule: productive.cases)
  case (worker t w s)
  then show ?thesis using worker_work [OF cfg inv worker(4)] by simp
next
  case (main rc usage)
  then show ?thesis using main_work [OF cfg inv] by simp
next
  case (dog d)
  then show ?thesis using dog_work(2) [OF inv dog(4)] by simp
qed

lemma step_work:
  assumes cfg: "valid_cfg cfg" and inv: "program_inv L l0 cfg g x" and step: "program_step L cfg x x'"
    and same: "points (sim_of x') = points (sim_of x)" "phase (lk (sim_of x')) = phase (lk (sim_of x))"
      "shared (lk (sim_of x')) = shared (lk (sim_of x))"
  shows "program_work work cfg x' \<le> program_work work cfg x"
  using step
proof (cases rule: program_step.cases)
  case (worker t w s)
  have "reachable (sim_start l0 cfg g) (sim_step L cfg) (sim_of x)" using inv by (simp add: program_inv_def)
  note eff = worker_act_effect(4,5) [OF worker(3) sim_inv_reachable [OF cfg this]]
  have "points s = points (sim_of x)" using same(1) by (simp add: worker(1))
  then have "ti_opsCompleted (infos (lk s) t) = ti_opsCompleted (infos (lk (sim_of x)) t)"
    using eff(2) by (auto simp: account_step_def op_account_def)
  then have "ti_opsCompleted (infos (lk s) u) = ti_opsCompleted (infos (lk (sim_of x)) u)" for u
    using eff(1) [of u] by (cases "u = t") simp_all
  then have "work cfg (sim_of x') = work cfg (sim_of x)" by (intro work_cong same) (simp add: worker(1))
  then show ?thesis using dog_left_cong [of x' x cfg] worker(1) by (simp add: program_work_def)
next
  case (main rc usage)
  then show ?thesis using main_work [OF cfg inv main(1)] by simp
next
  case (dog d)
  then show ?thesis using dog_work(1) [OF inv dog(2)] by simp
next
  case sigusr1
  then show ?thesis
    using work_cong [of "sim_of x'" "sim_of x" cfg] dog_left_cong [of x' x cfg] by (simp add: program_work_def)
next
  case (tick n n' c)
  then show ?thesis
    using work_cong [of "sim_of x'" "sim_of x" cfg] dog_left_cong [of x' x cfg] by (simp add: program_work_def)
qed

lemma program_run_work:
  assumes "program_run L cfg k m x0 x" and cfg: "valid_cfg cfg" and "program_inv L l0 cfg g x0"
  shows "program_inv L l0 cfg g x \<and> k + program_work work cfg x \<le> program_work work cfg x0 + penalty * m"
  using assms(1,3)
proof (induction rule: program_run.induct)
  case (run_productive k m x0 x b x')
  then show ?case
    using program_step_inv [OF cfg _ productive_step] productive_work [OF cfg, of g x b x']
    by (cases b) fastforce+
next
  case (run_other k m x0 x x')
  then show ?case using program_step_inv [OF cfg] step_work [OF cfg] by fastforce
qed simp

text \<open>Until the main thread has returned, somebody can do something that brings the end closer.\<close>

lemma program_progress:
  assumes cfg: "valid_cfg cfg" and inv: "program_inv L l0 cfg g x"
    and going: "keeps_going L l0 cfg G" and G: "G (sim_of x)"
    and "\<forall>r. main_at x \<noteq> M_returned r" "\<forall>e what. main_at x \<noteq> M_threw e what"
  shows "\<exists>x'. productive L cfg False x x' \<and> G (sim_of x')
           \<and> (\<forall>e what. main_at x' \<noteq> M_threw e what)"
proof -
  have r: "reachable (sim_start l0 cfg g) (sim_step L cfg) (sim_of x)"
    and dog: "not_started cfg x \<or> dog_refined cfg x" and main: "main_inv cfg x"
    using inv by (simp_all add: program_inv_def)
  have same: "G s'" if "points s' = points (sim_of x)" "phase (lk s') = phase (lk (sim_of x))"
      "shared (lk s') = shared (lk (sim_of x))" for s'
    using going G that unfolding keeps_going_def by blast
  have by_main: ?thesis if act: "main_act cfg 0 None (main_at x) x = Some x'" for x'
  proof -
    have "\<forall>e what. main_at x' \<noteq> M_threw e what" using act by (cases rule: main_act_cases) simp_all
    moreover have "G (sim_of x')"
      using act
    proof (cases rule: main_act_cases)
      case (create t)
      then have "points (sim_of x) t = W_new" using main_point_facts [OF main, of t t] by simp
      then have "G (goto t W_init (sim_of x))" using going G unfolding keeps_going_def by blast
      then show ?thesis by (simp add: create(4))
    qed (use G in \<open>auto intro!: same simp: main_log_def Let_def\<close>)
    ultimately show ?thesis using productive.main [OF act] by blast
  qed
  show ?thesis
  proof (cases "main_at x")
    case M_watchdog
    then show ?thesis using by_main by (simp add: Watchdog_start_def)
  next
    case (M_create t)
    then show ?thesis using by_main by (cases "t < num_threads cfg") simp_all
  next
    case (M_join t)
    show ?thesis
    proof (cases "t < num_threads cfg \<and> \<not> worker_done (points (sim_of x) t)")
      case True
      have made: "\<forall>u < num_threads cfg. points (sim_of x) u \<noteq> W_new" using main M_join by (simp add: main_inv_def)
      with going r G True obtain u v s where act: "worker_act L cfg u (Pick v) (sim_of x) = Done s"
        and s: "G s" unfolding keeps_going_def by blast
      have "points (sim_of x) u \<noteq> W_new" using made act_points(1) [OF act] by simp
      from productive.worker [OF this act] have "productive L cfg False x
          (x\<lparr>sim_of := elapse s, waits := note_wait L (phase (lk (sim_of x)) u) u (waits x)\<rparr>)" by simp
      moreover have "G (elapse s)" using going s elapse_simps unfolding keeps_going_def by metis
      ultimately show ?thesis using assms(6) by fastforce
    next
      case False
      then show ?thesis using by_main M_join by (cases "t < num_threads cfg") simp_all
    qed
  next
    case M_stop
    then show ?thesis using by_main by (simp add: Watchdog_stop_def)
  next
    case M_join_watchdog
    have stopped: "\<not> dog_running x" using main M_join_watchdog by (simp add: main_inv_def)
    have "dog_refined cfg x" using dog M_join_watchdog by (auto simp: not_started_def)
    from stopping_cases [where now = "now (lk (sim_of x))", OF dog_stopping [OF this stopped]] show ?thesis
    proof cases
      case 1
      then show ?thesis using by_main M_join_watchdog by simp
    next
      case (2 d')
      have "Watchdog_run (now (lk (sim_of x))) (dog_at x) (dog_view cfg x) = Some d'" using 2 by simp
      from productive.dog [OF stopped this] have "productive L cfg False x (put_dog d' x)" .
      moreover have "G (sim_of (put_dog d' x))" by (rule same) (simp_all add: put_dog_def set_dog_def Let_def)
      ultimately show ?thesis using assms(6) by fastforce
    qed
  qed (use by_main assms(5,6) in \<open>simp_all add: Let_def\<close>)
qed

lemma program_bound:
  assumes cfg: "valid_cfg cfg" and start: "\<And>g. work cfg (sim_start l0 cfg g) = b + 6 * num_threads cfg"
  shows "run_bounded L l0 cfg (b + 14 * num_threads cfg + 11) penalty"
  unfolding run_bounded_def
proof (intro allI impI)
  fix g k m x assume run: "program_run L cfg k m (program_start l0 cfg g) x"
  have "program_work work cfg (program_start l0 cfg g) = b + 14 * num_threads cfg + 11"
    using start [of g] by (simp add: program_work_def program_start_def main_left_def dog_left_def Let_def)
  then show "k \<le> b + 14 * num_threads cfg + 11 + penalty * m"
    using program_run_work [OF run cfg program_inv_start] by simp
qed

lemma program_not_stuck:
  assumes cfg: "valid_cfg cfg" and going: "keeps_going L l0 cfg (\<lambda>_. True)"
  shows "never_stuck L l0 cfg"
  unfolding never_stuck_def
  using program_progress [OF cfg program_inv_reachable [OF cfg] going TrueI] by blast

text \<open>
  A run in which no thread creation failed and that is at a state from which the workers can go on can be
  continued until the main thread returns.
\<close>

lemma program_returns:
  assumes cfg: "valid_cfg cfg" and going: "keeps_going L l0 cfg G"
  shows "program_inv L l0 cfg g x \<Longrightarrow> G (sim_of x) \<Longrightarrow> \<forall>e what. main_at x \<noteq> M_threw e what \<Longrightarrow>
     program_run L cfg k m x0 x \<Longrightarrow> \<exists>k' m' x' r. program_run L cfg k' m' x0 x' \<and> main_at x' = M_returned r"
proof (induction "program_work work cfg x" arbitrary: x k m rule: less_induct)
  case less
  show ?case
  proof (cases "\<exists>r. main_at x = M_returned r")
    case True
    then show ?thesis using less.prems(4) by blast
  next
    case False
    with program_progress [OF cfg less.prems(1) going less.prems(2)] less.prems(3)
    obtain x' where x': "productive L cfg False x x'" "G (sim_of x')"
      "\<forall>e what. main_at x' \<noteq> M_threw e what" by blast
    have "program_work work cfg x' < program_work work cfg x"
      using productive_work [OF cfg less.prems(1) x'(1)] by simp
    from less.hyps [OF this program_step_inv [OF cfg less.prems(1) productive_step [OF x'(1)]] x'(2,3)
        run_productive [OF less.prems(4) x'(1)]]
    show ?thesis .
  qed
qed

lemma some_run_returns:
  assumes "valid_cfg cfg" and "keeps_going L l0 cfg G" and "G (sim_start l0 cfg g)"
  obtains k m x r where "program_run L cfg k m (program_start l0 cfg g) x" "main_at x = M_returned r"
proof -
  have "\<forall>e what. main_at (program_start l0 cfg g :: ('l, 'p) program) \<noteq> M_threw e what"
    "G (sim_of (program_start l0 cfg g))"
    using assms(3) by (simp_all add: program_start_def)
  from program_returns [OF assms(1,2) program_inv_start this(2,1) run_none] show ?thesis using that by blast
qed

end

section \<open>The semaphore locks\<close>

text \<open>A choice matters to condition variables only; their methods leave none.\<close>

locale live_recording_lock = recording_lock L l0 inv + live_sim_lock L l0 inv rank
  for L :: "('l, 'p) RWLockBase" and l0 inv and rank :: "'p \<Rightarrow> nat" +
  assumes no_choice: "advance L t w k = advance L t w' k"

sublocale live_recording_lock \<subseteq> ending: ending_lock L l0 inv "sim_work L rank" 0
proof
  show "valid_cfg cfg \<Longrightarrow> worker_act L cfg t w s = Done s' \<Longrightarrow> sim_inv L l0 cfg s \<Longrightarrow>
      sim_work L rank cfg s' < sim_work L rank cfg s + (if w = Spurious then 0 else 0)" for cfg t w s s'
    using sim_work_decreases by simp
  show "points s' = points s \<Longrightarrow> phase (lk s') = phase (lk s) \<Longrightarrow> shared (lk s') = shared (lk s) \<Longrightarrow>
      (\<And>t. ti_opsCompleted (infos (lk s') t) = ti_opsCompleted (infos (lk s) t)) \<Longrightarrow>
      sim_work L rank cfg s' = sim_work L rank cfg s" for s s' :: "('l, 'p) sim" and cfg
    unfolding sim_work_def by (rule work_with_cong)
qed

lemma act_choice:
  assumes "\<And>k. advance L t w k = advance L t w' k"
  shows "worker_act L cfg t w s = worker_act L cfg t w' s"
  by (cases "arg_type (thread_arg cfg t)"; cases "points s t") (simp_all add: worker_act_def in_lock_call_def assms)

context live_recording_lock
begin

lemma going:
  assumes "valid_cfg cfg"
  shows "keeps_going L l0 cfg (\<lambda>_. True)"
proof -
  have "\<exists>u v s'. worker_act L cfg u (Pick v) s = Done s'"
    if "reachable (sim_start l0 cfg g) (sim_step L cfg) s" "t < num_threads cfg" "\<not> worker_done (points s t)" for g s t
    using some_worker_acts [OF sim_inv_reachable [OF assms that(1)] that(2,3)] act_choice [OF no_choice] by metis
  then show ?thesis unfolding keeps_going_def by blast
qed

lemma sim_work_start:
  "sim_work L rank cfg (sim_start l0 cfg g) = nat (cfg_totalOps cfg) * op_cost B + 6 * num_threads cfg"
proof -
  have "claimed cfg (sim_start l0 cfg g :: ('l, 'p) sim) = 0"
    unfolding claimed_def by (rule sum.neutral) (simp add: op_account_def holds_op_def sim_start_simps)
  then show ?thesis by (simp add: sim_work_def work_with_def sim_start_simps point_work_def)
qed

lemma returning_run:
  assumes "valid_cfg cfg"
  obtains k m x r where "program_run L cfg k m (program_start l0 cfg g) x" "main_at x = M_returned r"
  by (rule ending.some_run_returns [OF assms going [OF assms] TrueI])

end

lemma rp_no_choice: "advance rp_class t w k = advance rp_class t w' k"
proof -
  have "rp_readLock p t w c = rp_readLock p t w' c" "rp_readUnlock p t w c = rp_readUnlock p t w' c"
    "rp_writeLock p t w c = rp_writeLock p t w' c" "rp_writeUnlock p t w c = rp_writeUnlock p t w' c" for p c
    by (cases p; cases c; simp)+
  then show ?thesis by (simp add: advance_def run_method_def cong: phase.case_cong)
qed

lemma wp_no_choice: "advance wp_class t w k = advance wp_class t w' k"
proof -
  have "wp_readLock p t w c = wp_readLock p t w' c" "wp_readUnlock p t w c = wp_readUnlock p t w' c"
    "wp_writeLock p t w c = wp_writeLock p t w' c" "wp_writeUnlock p t w c = wp_writeUnlock p t w' c" for p c
    by (cases p; cases c; simp)+
  then show ?thesis by (simp add: advance_def run_method_def cong: phase.case_cong)
qed

interpretation rp_run: live_recording_lock rp_class ReaderPriorityLock rp_inv rp_rank
  by unfold_locales (rule rp_no_choice)

interpretation wp_run: live_recording_lock wp_class WriterPriorityLock wp_inv wp_rank
  by unfold_locales (rule wp_no_choice)

end
