(* ===== verification/Fair_Return.thy ===== *)
theory Fair_Return
  imports Run_Length
begin

text \<open>
  When \<open>runSimulation\<close> returns with \<open>FairMorrisLock\<close>: always with at most one writer, and with any number of
  writers at least if the scheduler lets each worker finish before the next one begins.
\<close>

section \<open>The measure is one of the program\<close>

interpretation fa_run: ending_lock fa_class FairMorrisLock fa_inv fa_work 5
proof
  show "valid_cfg cfg \<Longrightarrow> worker_act fa_class cfg t w s = Done s' \<Longrightarrow> sim_inv fa_class FairMorrisLock cfg s \<Longrightarrow>
      fa_work cfg s' < fa_work cfg s + (if w = Spurious then 5 else 0)" for cfg t w s s'
    by (rule fa_work_decreases)
  show "points s' = points s \<Longrightarrow> phase (lk s') = phase (lk s) \<Longrightarrow> shared (lk s') = shared (lk s) \<Longrightarrow>
      (\<And>t. ti_opsCompleted (infos (lk s') t) = ti_opsCompleted (infos (lk s) t)) \<Longrightarrow>
      fa_work cfg s' = fa_work cfg s" for s s' :: "(fa_lock, fa_point) sim" and cfg
    using work_with_cong [of s' s] by (simp add: fa_work_def Let_def)
qed

section \<open>At most one writer\<close>

lemma fa_going:
  assumes "valid_cfg cfg" and "cfg_numWriters cfg \<le> 1"
  shows "keeps_going fa_class FairMorrisLock cfg (\<lambda>_. True)"
proof -
  have "\<exists>u v s'. worker_act fa_class cfg u (Pick v) s = Done s'"
    if "reachable (sim_start FairMorrisLock cfg g) (sim_step fa_class cfg) s" "t < num_threads cfg"
      "\<not> worker_done (points s t)" for g s t
    using fa_some_worker_acts [OF assms that] by blast
  then show ?thesis unfolding keeps_going_def by blast
qed

section \<open>One worker after the other\<close>

text \<open>All but one worker are outside every call, and that one has not been sent to sleep.\<close>

definition resting :: "worker_point \<Rightarrow> bool" where
  "resting p \<longleftrightarrow> p = W_new \<or> p = W_init \<or> worker_done p"

definition fa_queued :: "fa_point phase \<Rightarrow> bool" where
  "fa_queued x \<longleftrightarrow> x = InReadLock FaRL_enqueue \<or> x = InWriteLock FaWL_enqueue \<or> fa_rqueued x \<or> fa_wqueued x"

definition fa_alone :: "(fa_lock, fa_point) sim \<Rightarrow> bool" where
  "fa_alone s \<longleftrightarrow> (\<exists>t. (\<forall>u. u \<noteq> t \<longrightarrow> resting (points s u)) \<and> \<not> fa_queued (phase (lk s) t))"

lemma tcount_single:
  assumes "\<And>u. u \<noteq> t \<Longrightarrow> f u = z" and "\<not> P z"
  shows "tcount P f = of_bool (P (f t))"
proof -
  have iff: "P (f u) \<longleftrightarrow> u = t \<and> P (f t)" for u using assms by (cases "u = t") simp_all
  have "{u. P (f u)} = {u. u = t \<and> P (f t)}" by (rule Collect_cong) (rule iff)
  then show ?thesis by (cases "P (f t)") (simp_all add: tcount_def)
qed

text \<open>Alone with the lock, a thread is neither blocked nor sent to sleep.\<close>

lemma fa_alone_advances:
  assumes inv: "fa_inv (shared k) (phase k)" and alone: "\<And>u. u \<noteq> t \<Longrightarrow> phase k u = Outside"
    and call: "in_call (phase k t)" and awake: "\<not> fa_queued (phase k t)"
  shows "\<exists>k'. advance fa_class t w k = Done k' \<and> \<not> fa_queued (phase k' t)"
proof -
  let ?x = "phase k t" and ?l = "shared k"
  have one: "\<not> P Outside \<Longrightarrow> int (tcount P (phase k)) = of_bool (P ?x)" for P
    using tcount_single [of t "phase k" Outside P] alone by simp
  have counts: "fa_activeReaders ?l = of_bool (fa_ractive ?x)" "fa_activeWriter ?l \<longleftrightarrow> fa_wactive ?x"
    "fa_waitingReaders ?l = 0" "fa_waitingWriters ?l = 0"
    using fa_inv_counts [OF inv] one [of fa_ractive] one [of fa_wactive] one [of fa_rqueued] one [of fa_wqueued] awake by (simp_all add: fa_queued_def) (simp add: of_bool_def split: if_splits)
  have free: "fa_mtx ?l = None" if "\<not> fa_holds ?x"
  proof (rule ccontr)
    assume "fa_mtx ?l \<noteq> None"
    then obtain u where "fa_mtx ?l = Some u" by blast
    then have "fa_holds (phase k u)" using fa_inv_facts(2) [OF inv] by blast
    then show False using that alone [of u] by (cases "u = t") simp_all
  qed
  note placed = fa_inv_facts(4) [OF inv, of t]
  show ?thesis
  proof (cases ?x)
    case (InReadLock p)
    with counts free placed awake show ?thesis
      by (cases p) (simp_all add: advance_def run_method_def fa_queued_def pthread_mutex_lock_def)
  next
    case (InReadUnlock p)
    with counts free placed awake show ?thesis
      by (cases p) (simp_all add: advance_def run_method_def fa_queued_def pthread_mutex_lock_def Let_def)
  next
    case (InWriteLock p)
    with counts free placed awake show ?thesis
      by (cases p) (simp_all add: advance_def run_method_def fa_queued_def pthread_mutex_lock_def)
  next
    case (InWriteUnlock p)
    with counts free placed awake show ?thesis
      by (cases p) (simp_all add: advance_def run_method_def fa_queued_def pthread_mutex_lock_def)
  qed (use call in simp_all)
qed

lemma resting_outside:
  "coherent ty p x \<Longrightarrow> resting p \<Longrightarrow> x = Outside"
  by (auto simp: coherent_def resting_def worker_done_def)

lemma act_awake:
  assumes "worker_act fa_class cfg t w s = Done s'" and "\<not> in_call (phase (lk s) t)"
    and "coherent (arg_type (thread_arg cfg t)) (points s t) (phase (lk s) t)"
  shows "\<not> fa_queued (phase (lk s') t)"
  using assms
  by (cases "arg_type (thread_arg cfg t)"; cases "points s t")
     (auto simp: worker_act_def coherent_def fa_queued_def Let_def split: if_splits)

text \<open>If a worker has not returned, the lone one, or a new one, takes its next action and stays alone.\<close>

lemma fa_alone_acts:
  assumes cfg: "valid_cfg cfg" and r: "reachable (sim_start FairMorrisLock cfg g) (sim_step fa_class cfg) s"
    and alone: "fa_alone s" and made: "\<forall>u < num_threads cfg. points s u \<noteq> W_new"
    and t: "t < num_threads cfg" "\<not> worker_done (points s t)"
  shows "\<exists>u s'. worker_act fa_class cfg u (Pick 0) s = Done s' \<and> fa_alone s'"
proof -
  note inv = fa_sim.sim_inv_reachable [OF cfg r]
  obtain v where v: "\<And>u. u \<noteq> v \<Longrightarrow> resting (points s u)" "\<not> fa_queued (phase (lk s) v)"
    using alone unfolding fa_alone_def by blast
  define u where "u = (if resting (points s v) then t else v)"
  have others: "resting (points s x)" if "x \<noteq> u" for x
    using that v(1) by (cases "x = v") (auto simp: u_def split: if_splits)
  have active: "u < num_threads cfg" "\<not> worker_done (points s u)" "\<not> fa_queued (phase (lk s) u)"
  proof -
    have rest: "\<not> fa_queued (phase (lk s) x)" if "resting (points s x)" for x
      using resting_outside [OF sim_inv_facts(2) [OF inv, of x] that] by (simp add: fa_queued_def)
    have "v < num_threads cfg \<and> \<not> worker_done (points s v)" if "\<not> resting (points s v)"
      using that sim_inv_facts(3) [OF inv, of v] by (auto simp: resting_def not_less [symmetric])
    then show "u < num_threads cfg" "\<not> worker_done (points s u)" "\<not> fa_queued (phase (lk s) u)"
      using t v rest [of t] by (cases "t = v"; auto simp: u_def)+
  qed
  note coh = sim_inv_facts(2) [OF inv, of u]
  have "\<exists>s'. worker_act fa_class cfg u (Pick 0) s = Done s' \<and> \<not> fa_queued (phase (lk s') u)"
  proof (cases "in_call (phase (lk s) u)")
    case True
    have "phase (lk s) x = Outside" if "x \<noteq> u" for x
      using sim_inv_facts(2) [OF inv, of x] others [OF that] by (rule resting_outside)
    moreover have "fa_inv (shared (lk s)) (phase (lk s))"
      by (rule fa.inv_reachable [OF sim_inv_facts(1) [OF inv]])
    ultimately obtain k where k: "advance fa_class u (Pick 0) (lk s) = Done k" "\<not> fa_queued (phase k u)"
      using fa_alone_advances [of "lk s" u] True active(3) by blast
    from acts_in_call [OF active(1) k(1) coh] obtain s' where s': "worker_act fa_class cfg u (Pick 0) s = Done s'" by blast
    moreover have "lk s' = k" using act_call(1) [OF s' coh True] k(1) by simp
    ultimately show ?thesis using k(2) by blast
  next
    case False
    then show ?thesis using acts_outside_calls [OF active(1) coh active(2)] act_awake [OF _ False coh] by blast
  qed
  then obtain s' where s': "worker_act fa_class cfg u (Pick 0) s = Done s'" "\<not> fa_queued (phase (lk s') u)" by blast
  have "resting (points s' x)" if "x \<noteq> u" for x
    using fa_sim.worker_act_effect(4) [OF s'(1) inv that] others [OF that] by simp
  with s' show ?thesis unfolding fa_alone_def by blast
qed

lemma fa_alone_going:
  assumes "valid_cfg cfg"
  shows "keeps_going fa_class FairMorrisLock cfg fa_alone"
  unfolding keeps_going_def
proof (intro conjI allI impI)
  fix s s' :: "(fa_lock, fa_point) sim"
  show "fa_alone s'" if "fa_alone s" "points s' = points s" "phase (lk s') = phase (lk s)"
    using that by (simp add: fa_alone_def)
next
  fix s :: "(fa_lock, fa_point) sim" and t
  show "fa_alone (goto t W_init s)" if "fa_alone s"
    using that by (auto simp: fa_alone_def resting_def)
next
  fix g s t
  assume "reachable (sim_start FairMorrisLock cfg g) (sim_step fa_class cfg) s" "fa_alone s"
    "\<forall>u < num_threads cfg. points s u \<noteq> W_new" "t < num_threads cfg" "\<not> worker_done (points s t)"
  from fa_alone_acts [OF assms this]
  show "\<exists>u v s'. worker_act fa_class cfg u (Pick v) s = Done s' \<and> fa_alone s'"
    by blast
qed

lemma fa_alone_start: "fa_alone (sim_start FairMorrisLock cfg g)"
  by (simp add: fa_alone_def resting_def sim_start_simps fa_queued_def)

lemma fair_morris_may_return:
  assumes "valid_cfg cfg"
  obtains k m x r where "program_run fa_class cfg k m (program_start FairMorrisLock cfg g) x" "main_at x = M_returned r"
  by (rule fa_run.some_run_returns [OF assms fa_alone_going [OF assms] fa_alone_start])

end
