(* ===== verification/Run_Results.thy ===== *)
theory Run_Results
  imports Run_Times Fair_Return
begin

text \<open>
  What holds of \<open>runSimulation\<close> as a whole: it returns, the watchdog's events are bounded by the
  operations and the waits by the duration, and the records say what their threads do.
\<close>

section \<open>What the records say\<close>

lemma starve_nonneg:
  assumes "reachable (watchdog_started (initial_registry cfg) cfg g) watchdog_step d"
  shows "\<forall>k < length (wd_registry d). 0 \<le> ti_starveCount (wd_registry d ! k)"
  using assms
proof (induction rule: reachable.induct)
  case reachable_init
  show ?case by (simp add: watchdog_started_def initial_info_def default_ThreadInfo_def)
next
  case (reachable_step d d')
  from reachable_step(2) show ?case
  proof (cases rule: watchdog_step.cases)
    case (scan now)
    have "scan_index (wd_point d) = Some k \<Longrightarrow> k < length (wd_registry d)" for k
      using watchdog_inv_reachable [OF started_registry reachable_step(1)] by (simp add: watchdog_inv_def)
    then show ?thesis using scan reachable_step(3)
      by (cases "wd_point d") (auto simp: Let_def nth_list_update scan_index_def split: if_splits)
  qed (use reachable_step(3) in \<open>auto simp: Watchdog_stop_def enterWaiting_def worker_update_def nth_list_update\<close>)
qed

text \<open>Waits begun are operations taken.\<close>

lemma waits_claimed:
  assumes "waits_inv L cfg x"
  shows "(\<Sum>t<num_threads cfg. int (waits x ! t)) \<le> claimed cfg (sim_of x)"
  unfolding claimed_def
proof (rule sum_mono)
  fix t assume "t \<in> {..<num_threads cfg}"
  then have "int (waits x ! t) = ti_opsCompleted (infos (lk (sim_of x)) t)
      + of_bool (begun L (points (sim_of x) t) (phase (lk (sim_of x)) t))" using assms by (simp add: waits_inv_def)
  also have "\<dots> \<le> op_account (sim_of x) t" by (simp add: op_account_def begun_def)
  finally show "int (waits x ! t) \<le> op_account (sim_of x) t" .
qed

lemma registry_sum:
  "(\<Sum>i \<leftarrow> registry cfg x. ti_starveCount i) = (\<Sum>t<num_threads cfg. ti_starveCount (infos (lk (sim_of x)) t))"
  by (simp add: registry_def sum_list_upt comp_def)

text \<open>The events charged to the threads and counted by the watchdog, at any time.\<close>

definition starve_events :: "SimConfig \<Rightarrow> ('l, 'p) program \<Rightarrow> int" where
  "starve_events cfg x = (\<Sum>t<num_threads cfg. ti_starveCount (infos (lk (sim_of x)) t))"

lemma not_started_records:
  assumes "not_started cfg x"
  shows "ti_starveCount (infos (lk (sim_of x)) t) = 0" "starve_events cfg x = 0"
  using assms by (simp_all add: starve_events_def not_started_def initial_info_def default_ThreadInfo_def)

lemma starvation_accounts:
  assumes inv: "program_inv L l0 cfg g x" and claimed: "claimed cfg (sim_of x) \<le> cfg_totalOps cfg"
    and ops: "\<forall>t. 0 \<le> ti_opsCompleted (infos (lk (sim_of x)) t)"
  shows "dog_total x + uncounted (dog_at x) = starve_events cfg x" "starve_events cfg x \<le> cfg_totalOps cfg"
    and "t < num_threads cfg \<Longrightarrow> 0 \<le> ti_starveCount (infos (lk (sim_of x)) t)
       \<and> ti_starveCount (infos (lk (sim_of x)) t) \<le> ti_opsCompleted (infos (lk (sim_of x)) t) + 1"
proof -
  have waits: "waits_inv L cfg x" and dog: "not_started cfg x \<or> dog_refined cfg x"
    using inv by (simp_all add: program_inv_def)
  have each: "0 \<le> ti_starveCount (infos (lk (sim_of x)) t) \<and> ti_starveCount (infos (lk (sim_of x)) t) \<le> int (waits x ! t)"
    if t: "t < num_threads cfg" for t
    using dog
  proof
    assume "dog_refined cfg x"
    then obtain g where r: "reachable (watchdog_started (initial_registry cfg) cfg g) watchdog_step (dog_view cfg x)"
      by (auto simp: dog_refined_def)
    have "ti_starveCount (registry cfg x ! t) + int (owed (dog_at x) t (registry cfg x ! t)) \<le> int (waits x ! t)"
      using watchdog_inv_reachable [OF started_registry r] t by (simp add: watchdog_inv_def)
    then show ?thesis using starve_nonneg [OF r] t by simp
  qed (simp add: not_started_records)
  show "dog_total x + uncounted (dog_at x) = starve_events cfg x"
    using dog
  proof
    assume "not_started cfg x"
    then show ?thesis using not_started_records by (simp add: not_started_def uncounted_def)
  next
    assume "dog_refined cfg x"
    from dog_inv(1) [OF this] show ?thesis by (simp add: watchdog_inv_def registry_sum starve_events_def)
  qed
  have "starve_events cfg x \<le> (\<Sum>t<num_threads cfg. int (waits x ! t))"
    unfolding starve_events_def by (rule sum_mono) (use each in simp)
  then show "starve_events cfg x \<le> cfg_totalOps cfg" using waits_claimed [OF waits] claimed by simp
  have one: "int (waits x ! t) \<le> ti_opsCompleted (infos (lk (sim_of x)) t) + 1" if "t < num_threads cfg" for t
    using waits that by (simp add: waits_inv_def)
  show "0 \<le> ti_starveCount (infos (lk (sim_of x)) t)
       \<and> ti_starveCount (infos (lk (sim_of x)) t) \<le> ti_opsCompleted (infos (lk (sim_of x)) t) + 1"
    if "t < num_threads cfg"
    using each [OF that] one [OF that] by linarith
qed

section \<open>The guarantees, of one lock class and one configuration\<close>

definition program_refines :: "('l, 'p) RWLockBase \<Rightarrow> 'l \<Rightarrow> SimConfig \<Rightarrow> bool" where
  "program_refines L l0 cfg \<longleftrightarrow>
     (\<forall>g x. reachable (program_start l0 cfg g) (program_step L cfg) x \<longrightarrow>
        reachable (sim_start l0 cfg g) (sim_step L cfg) (sim_of x)
      \<and> (dog_at x \<noteq> WD_not_started \<longrightarrow>
           (\<exists>h. reachable (watchdog_started (map (initial_info cfg) [0..<num_threads cfg]) cfg h) watchdog_step
                  (dog_view cfg x))))"

definition starvation_bounded :: "('l, 'p) RWLockBase \<Rightarrow> 'l \<Rightarrow> SimConfig \<Rightarrow> bool" where
  "starvation_bounded L l0 cfg \<longleftrightarrow>
     (\<forall>g x. reachable (program_start l0 cfg g) (program_step L cfg) x \<longrightarrow>
        starve_events cfg x \<le> cfg_totalOps cfg \<and> dog_total x \<le> starve_events cfg x
      \<and> (\<forall>t < num_threads cfg. ti_starveCount (infos (lk (sim_of x)) t)
           \<le> ti_opsCompleted (infos (lk (sim_of x)) t) + 1)
      \<and> (\<forall>r. main_at x = M_returned r \<longrightarrow> mr_starvationCount r = dog_total x))"

definition records_typed :: "('l, 'p) RWLockBase \<Rightarrow> 'l \<Rightarrow> SimConfig \<Rightarrow> bool" where
  "records_typed L l0 cfg \<longleftrightarrow>
     (\<forall>g x t. reachable (program_start l0 cfg g) (program_step L cfg) x \<longrightarrow> t < num_threads cfg \<longrightarrow>
        (let i = infos (lk (sim_of x)) t
         in ti_tid i = int t + 1 \<and> ti_type i = (if int t < cfg_numReaders cfg then READER else WRITER)
          \<and> ti_algo i = cfg_algo cfg \<and> ti_opsCompleted i \<in> {0..cfg_totalOps cfg}
          \<and> ti_starveCount i \<in> {0..cfg_totalOps cfg}))"

text \<open>What each state of a record means for the position of its thread, and the other way round.\<close>

definition in_critical :: "worker_point \<Rightarrow> bool" where
  "in_critical p \<longleftrightarrow> touches p \<or> p = W_locked \<or> p = W_done_op"

definition in_release :: "worker_point \<Rightarrow> bool" where
  "in_release p \<longleftrightarrow> p = W_call_unlock \<or> p = W_in_unlock \<or> p = W_abort_unlock \<or> p = W_in_abort_unlock"

definition states_mean :: "('l, 'p) RWLockBase \<Rightarrow> 'l \<Rightarrow> SimConfig \<Rightarrow> bool" where
  "states_mean L l0 cfg \<longleftrightarrow>
     (\<forall>g x t. reachable (program_start l0 cfg g) (program_step L cfg) x \<longrightarrow>
        (let p = points (sim_of x) t; st = ti_state (infos (lk (sim_of x)) t)
         in (touches p \<longrightarrow> st = ACTIVE \<or> st = BLOCKED) \<and> (worker_done p \<longrightarrow> st = DONE \<or> st = BLOCKED)
          \<and> (st = WAITING \<longrightarrow> p = W_in_lock) \<and> (st = DONE \<longrightarrow> worker_done p)
          \<and> (st = ACTIVE \<longrightarrow> in_critical p \<or> in_release p)))"

text \<open>What the figures of a finished simulation should be, if it took any time at all.\<close>

definition figures_exact :: "SimConfig \<Rightarrow> ('l, 'p) sim \<Rightarrow> MetricsResult \<Rightarrow> bool" where
  "figures_exact cfg s r \<longleftrightarrow> (0 < mr_simulationDurationMs r \<longrightarrow>
     mr_throughputOpsPerSec r * mr_simulationDurationMs r = 1000 * real_of_int (cfg_totalOps cfg)
   \<and> 1 / real (num_threads cfg) \<le> mr_jainsFairnessIndex r \<and> mr_jainsFairnessIndex r \<le> 1
   \<and> (mr_jainsFairnessIndex r = 1 \<longrightarrow> (\<forall>t < num_threads cfg.
        real_of_int (ti_opsCompleted (infos (lk s) t)) = real_of_int (cfg_totalOps cfg) / real (num_threads cfg))))"

definition report_exact :: "('l, 'p) RWLockBase \<Rightarrow> 'l \<Rightarrow> SimConfig \<Rightarrow> bool" where
  "report_exact L l0 cfg \<longleftrightarrow>
     (\<forall>g x r. reachable (program_start l0 cfg g) (program_step L cfg) x \<longrightarrow> main_at x = M_returned r \<longrightarrow>
        all_returned cfg (sim_of x) \<and> dog_at x = WD_returned
      \<and> sr_data (res (sim_of x)) = writer_ops cfg (sim_of x)
      \<and> mr_starvationCount r = starve_events cfg x
      \<and> figures_exact cfg (sim_of x) r)"

text \<open>The reported averages lie within the run.\<close>

definition waits_within :: "('l, 'p) RWLockBase \<Rightarrow> 'l \<Rightarrow> SimConfig \<Rightarrow> bool" where
  "waits_within L l0 cfg \<longleftrightarrow>
     (\<forall>g x r. reachable (program_start l0 cfg g) (program_step L cfg) x \<longrightarrow> main_at x = M_returned r \<longrightarrow>
        mr_avgReaderWaitMs r \<in> {0..mr_simulationDurationMs r}
      \<and> mr_avgWriterWaitMs r \<in> {0..mr_simulationDurationMs r})"

lemma simulation_result_compute:
  obtains vol ivol where "simulation_result cfg s wallMs u v
    = Metrics_compute (map Some (map (infos (lk s)) [0..<num_threads cfg])) cfg wallMs vol ivol"
  by (cases "captureContextSwitches u"; cases "captureContextSwitches v")
     (simp add: simulation_result_def comp_def)

lemma simulation_result_figures:
  "mr_starvationCount (simulation_result cfg s wallMs u v) = (\<Sum>t<num_threads cfg. ti_starveCount (infos (lk s) t))"
  "mr_simulationDurationMs (simulation_result cfg s wallMs u v) = wallMs"
proof -
  let ?ts = "map (infos (lk s)) [0..<num_threads cfg]"
  obtain vol ivol where r: "simulation_result cfg s wallMs u v = Metrics_compute (map Some ?ts) cfg wallMs vol ivol"
    by (rule simulation_result_compute)
  show "mr_starvationCount (simulation_result cfg s wallMs u v) = (\<Sum>t<num_threads cfg. ti_starveCount (infos (lk s) t))"
    by (simp add: r Metrics_compute_def metric_fold no_sums_def Let_def del: map_map)
       (simp add: sum_list_upt comp_def)
  show "mr_simulationDurationMs (simulation_result cfg s wallMs u v) = wallMs"
    by (simp add: r Metrics_compute_def zero_MetricsResult_def Let_def)
qed

lemma simulation_result_waits:
  "mr_avgReaderWaitMs (simulation_result cfg s wallMs u v)
     = mean (map avg_wait (of_type READER (map (infos (lk s)) [0..<num_threads cfg])))"
  "mr_avgWriterWaitMs (simulation_result cfg s wallMs u v)
     = mean (map avg_wait (of_type WRITER (map (infos (lk s)) [0..<num_threads cfg])))"
proof -
  let ?ts = "map (infos (lk s)) [0..<num_threads cfg]"
  obtain vol ivol where r: "simulation_result cfg s wallMs u v = Metrics_compute (map Some ?ts) cfg wallMs vol ivol"
    by (rule simulation_result_compute)
  have "records (map Some ?ts) = ?ts" by (simp add: records_def filter_map comp_def)
  then show "mr_avgReaderWaitMs (simulation_result cfg s wallMs u v) = mean (map avg_wait (of_type READER ?ts))"
    "mr_avgWriterWaitMs (simulation_result cfg s wallMs u v) = mean (map avg_wait (of_type WRITER ?ts))"
    by (simp_all add: r Metrics_compute_def metric_fold no_sums_def mean_def zero_MetricsResult_def Let_def
        del: map_map)
qed

lemma avg_wait_range:
  assumes "0 \<le> ti_totalWaitMs i" and "real_of_int (ti_totalWaitMs i) \<le> d"
  shows "0 \<le> avg_wait i \<and> avg_wait i \<le> d"
proof (cases "0 < ti_opsCompleted i")
  case True
  then have "real_of_int (ti_totalWaitMs i) / real_of_int (ti_opsCompleted i) \<le> real_of_int (ti_totalWaitMs i)"
    using assms(1) by (simp add: pos_divide_le_eq mult_le_cancel_left1)
  then show ?thesis using assms True by (simp add: avg_wait_def)
qed (use assms in \<open>simp add: avg_wait_def\<close>)

lemma mean_wait_range:
  assumes "\<And>i. i \<in> set is \<Longrightarrow> 0 \<le> ti_totalWaitMs i \<and> real_of_int (ti_totalWaitMs i) \<le> d" and "0 \<le> d"
  shows "mean (map avg_wait (of_type ty is)) \<in> {0..d}"
proof (cases "of_type ty is = []")
  case False
  have "0 \<le> mean (map avg_wait (of_type ty is)) \<and> mean (map avg_wait (of_type ty is)) \<le> d"
    by (rule mean_range) (use False assms(1) avg_wait_range in \<open>auto simp: of_type_def\<close>)
  then show ?thesis by simp
qed (simp add: mean_def assms(2))

context recording_lock
begin

lemma within:
  assumes cfg: "valid_cfg cfg"
  shows "waits_within L l0 cfg"
  unfolding waits_within_def
proof (intro allI impI)
  fix g x r
  assume reach: "reachable (program_start l0 cfg g) (program_step L cfg) x" and m: "main_at x = M_returned r"
  let ?d = "real_of_int (wall_end x - wall_start x) / 1000000"
  have r: "r = simulation_result cfg (sim_of x) ?d (usage_before x) (usage_after x)"
    using program_inv_reachable [OF cfg reach] m by (simp add: program_inv_def main_inv_def)
  have time: "wall_start x \<le> wall_end x"
    "\<And>t. t < num_threads cfg \<Longrightarrow> 1000000 * ti_totalWaitMs (infos (lk (sim_of x)) t) \<le> wall_end x - wall_start x"
    "\<And>t. 0 \<le> ti_totalWaitMs (infos (lk (sim_of x)) t)"
    using time_inv_reachable [OF cfg reach] m by (simp_all add: time_inv_def thread_times_def)
  have wait: "0 \<le> ti_totalWaitMs i \<and> real_of_int (ti_totalWaitMs i) \<le> ?d"
    if i: "i \<in> set (map (infos (lk (sim_of x))) [0..<num_threads cfg])" for i
  proof -
    obtain t where t: "t < num_threads cfg" "i = infos (lk (sim_of x)) t" using i by auto
    have "real_of_int (1000000 * ti_totalWaitMs i) \<le> real_of_int (wall_end x - wall_start x)"
      using time(2) [OF t(1)] t(2) by (simp only: of_int_le_iff)
    then show ?thesis using time(3) t(2) by simp
  qed
  have "0 \<le> ?d" using time(1) by simp
  from mean_wait_range [OF wait this]
  show "mr_avgReaderWaitMs r \<in> {0..mr_simulationDurationMs r} \<and> mr_avgWriterWaitMs r \<in> {0..mr_simulationDurationMs r}"
    unfolding r simulation_result_waits simulation_result_figures by blast
qed

lemma refines:
  assumes "valid_cfg cfg"
  shows "program_refines L l0 cfg"
  unfolding program_refines_def
  using program_inv_reachable [OF assms] by (auto simp: program_inv_def not_started_def dog_refined_def)

lemma program_accounts:
  assumes "valid_cfg cfg" and "program_inv L l0 cfg g x"
  shows "claimed cfg (sim_of x) \<le> cfg_totalOps cfg" "\<forall>t. 0 \<le> ti_opsCompleted (infos (lk (sim_of x)) t)"
    and "(\<Sum>t<num_threads cfg. ti_opsCompleted (infos (lk (sim_of x)) t)) \<le> cfg_totalOps cfg"
proof -
  have "reachable (sim_start l0 cfg g) (sim_step L cfg) (sim_of x)" using assms(2) by (simp add: program_inv_def)
  note sim = sim_inv_reachable [OF assms(1) this]
  show "claimed cfg (sim_of x) \<le> cfg_totalOps cfg" "\<forall>t. 0 \<le> ti_opsCompleted (infos (lk (sim_of x)) t)"
    using sim_inv_facts(4) [OF sim] by (simp_all add: ops_inv_def)
  show "(\<Sum>t<num_threads cfg. ti_opsCompleted (infos (lk (sim_of x)) t)) \<le> cfg_totalOps cfg"
    by (rule sim_ops_bound [OF sim])
qed

lemma bounded:
  assumes cfg: "valid_cfg cfg"
  shows "starvation_bounded L l0 cfg"
  unfolding starvation_bounded_def
proof (intro allI impI)
  fix g x assume "reachable (program_start l0 cfg g) (program_step L cfg) x"
  note inv = program_inv_reachable [OF cfg this]
  note acc = starvation_accounts [OF inv program_accounts(1,2) [OF cfg inv]]
  have "0 \<le> uncounted (dog_at x)" by (simp add: uncounted_def split: watchdog_point.splits)
  then have "dog_total x \<le> starve_events cfg x" using acc(1) by simp
  moreover have "mr_starvationCount r = dog_total x" if r: "main_at x = M_returned r" for r
  proof -
    have "dog_at x = WD_returned" "r = simulation_result cfg (sim_of x)
        (real_of_int (wall_end x - wall_start x) / 1000000) (usage_before x) (usage_after x)"
      using inv r by (simp_all add: program_inv_def main_inv_def)
    then show ?thesis using acc(1) by (simp add: uncounted_def simulation_result_figures starve_events_def)
  qed
  ultimately show "starve_events cfg x \<le> cfg_totalOps cfg \<and> dog_total x \<le> starve_events cfg x
      \<and> (\<forall>t < num_threads cfg. ti_starveCount (infos (lk (sim_of x)) t)
           \<le> ti_opsCompleted (infos (lk (sim_of x)) t) + 1)
      \<and> (\<forall>r. main_at x = M_returned r \<longrightarrow> mr_starvationCount r = dog_total x)"
    using acc(2,3) by blast
qed

lemma typed:
  assumes cfg: "valid_cfg cfg"
  shows "records_typed L l0 cfg"
  unfolding records_typed_def Let_def
proof (intro allI impI)
  fix g x t assume "reachable (program_start l0 cfg g) (program_step L cfg) x" and t: "t < num_threads cfg"
  note inv = program_inv_reachable [OF cfg this(1)]
  let ?i = "infos (lk (sim_of x)) t"
  note ops = program_accounts [OF cfg inv]
  note acc = starvation_accounts [OF inv ops(1,2)]
  have "same_identity (initial_info cfg t) ?i" using inv by (simp add: program_inv_def status_inv_def)
  then have id: "ti_tid ?i = int t + 1" "ti_type ?i = (if int t < cfg_numReaders cfg then READER else WRITER)"
    "ti_algo ?i = cfg_algo cfg"
    by (simp_all add: same_identity_def initial_info_def thread_arg_def)
  have "ti_opsCompleted ?i \<le> (\<Sum>t<num_threads cfg. ti_opsCompleted (infos (lk (sim_of x)) t))"
    by (rule member_le_sum) (use t ops(2) in simp_all)
  moreover have "ti_starveCount ?i \<le> starve_events cfg x"
    unfolding starve_events_def by (rule member_le_sum) (use t acc(3) in simp_all)
  ultimately show "ti_tid ?i = int t + 1
      \<and> ti_type ?i = (if int t < cfg_numReaders cfg then READER else WRITER)
      \<and> ti_algo ?i = cfg_algo cfg \<and> ti_opsCompleted ?i \<in> {0..cfg_totalOps cfg}
      \<and> ti_starveCount ?i \<in> {0..cfg_totalOps cfg}"
    using id ops(2,3) acc(2) acc(3) [OF t] by simp
qed

lemma meaning:
  assumes cfg: "valid_cfg cfg"
  shows "states_mean L l0 cfg"
  unfolding states_mean_def Let_def
proof (intro allI impI)
  fix g x t assume "reachable (program_start l0 cfg g) (program_step L cfg) x"
  note inv = program_inv_reachable [OF cfg this]
  let ?p = "points (sim_of x) t" and ?st = "ti_state (infos (lk (sim_of x)) t)"
  have "?st \<in> shown L ?p (phase (lk (sim_of x)) t) \<or> ?st = BLOCKED"
    using inv by (simp add: program_inv_def status_inv_def)
  then show "(touches ?p \<longrightarrow> ?st = ACTIVE \<or> ?st = BLOCKED) \<and> (worker_done ?p \<longrightarrow> ?st = DONE \<or> ?st = BLOCKED)
      \<and> (?st = WAITING \<longrightarrow> ?p = W_in_lock) \<and> (?st = DONE \<longrightarrow> worker_done ?p)
      \<and> (?st = ACTIVE \<longrightarrow> in_critical ?p \<or> in_release ?p)"
    by (cases ?p) (auto simp: touches_def worker_done_def in_critical_def in_release_def split: if_splits)
qed

lemma report:
  assumes cfg: "valid_cfg cfg" "\<not> cfg_enableAbortTest cfg" "0 < num_threads cfg"
  shows "report_exact L l0 cfg"
  unfolding report_exact_def
proof (intro allI impI)
  fix g x r
  assume "reachable (program_start l0 cfg g) (program_step L cfg) x" and m: "main_at x = M_returned r"
  note inv = program_inv_reachable [OF cfg(1) this(1)]
  have sim: "reachable (sim_start l0 cfg g) (sim_step L cfg) (sim_of x)" using inv by (simp add: program_inv_def)
  have fin: "dog_at x = WD_returned" "all_returned cfg (sim_of x)"
    and r: "r = simulation_result cfg (sim_of x) (real_of_int (wall_end x - wall_start x) / 1000000)
        (usage_before x) (usage_after x)"
    using inv m by (simp_all add: program_inv_def main_inv_def)
  have "sr_data (res (sim_of x)) = writer_ops cfg (sim_of x)"
    using counts_writes [OF cfg(1)] sim fin(2) by (auto simp: data_counts_writes_def)
  moreover have "mr_starvationCount r = starve_events cfg x"
    by (simp add: r simulation_result_figures starve_events_def)
  moreover have "figures_exact cfg (sim_of x) r"
    using metrics_of_run [OF cfg] sim fin(2) unfolding figures_exact_def metrics_exact_def Let_def r simulation_result_figures
    by blast
  ultimately show "all_returned cfg (sim_of x) \<and> dog_at x = WD_returned
      \<and> sr_data (res (sim_of x)) = writer_ops cfg (sim_of x)
      \<and> mr_starvationCount r = starve_events cfg x \<and> figures_exact cfg (sim_of x) r"
    using fin by blast
qed

end

section \<open>Properties\<close>

text \<open>
  C9: The main thread, the workers and the watchdog together, composed action by action over the same
  records and the same log, refine what is said of them separately: each state that \<open>runSimulation\<close> can
  reach shows the workers a state of a run of workers alone, and the watchdog a state of a run of the
  watchdog among threads that write the records at will.  So every result about one of the two holds
  for the program.
\<close>

theorem run_refines_parts:
  assumes "valid_cfg cfg"
  shows "program_refines rp_class ReaderPriorityLock cfg \<and> program_refines wp_class WriterPriorityLock cfg
       \<and> program_refines fa_class FairMorrisLock cfg"
  using rp_rec.refines wp_rec.refines fa_rec.refines assms by blast

lemma run_refines_parts_witness: "program_refines fa_class FairMorrisLock small_cfg"
  using run_refines_parts [OF small_cfg_valid] by blast

text \<open>
  C4: \<open>runSimulation\<close> terminates under every schedule.  Apart from the polls of a watchdog that nobody has asked
  to stop, main thread, workers and watchdog together take a bounded number of actions: 42, 66 or \<open>10 n + 26\<close>
  per operation with \<open>n\<close> threads, 14 per thread and 11 more, and with \<open>FairMorrisLock\<close> five more for each
  spurious wakeup.  Until it has returned (or a \<open>pthread_create\<close> failed) some thread can take such an action:
  always with the semaphore algorithms, and with \<open>FairMorrisLock\<close> if there is at most one writer.
\<close>

theorem run_terminates:
  assumes "valid_cfg cfg" and "n = num_threads cfg" and "ops = nat (cfg_totalOps cfg)"
  shows "run_bounded rp_class ReaderPriorityLock cfg (ops * 42 + 14 * n + 11) 0
       \<and> run_bounded wp_class WriterPriorityLock cfg (ops * 66 + 14 * n + 11) 0
       \<and> run_bounded fa_class FairMorrisLock cfg (ops * (10 * n + 26) + 14 * n + 11) 5
       \<and> never_stuck rp_class ReaderPriorityLock cfg \<and> never_stuck wp_class WriterPriorityLock cfg
       \<and> (cfg_numWriters cfg \<le> 1 \<longrightarrow> never_stuck fa_class FairMorrisLock cfg)"
proof (intro conjI impI)
  have "op_cost (call_bound rp_class rp_rank) = 42" "op_cost (call_bound wp_class wp_rank) = 66"
    by (simp_all add: op_cost_def call_bound_def)
  then show "run_bounded rp_class ReaderPriorityLock cfg (ops * 42 + 14 * n + 11) 0"
    and "run_bounded wp_class WriterPriorityLock cfg (ops * 66 + 14 * n + 11) 0"
    using rp_run.ending.program_bound [OF assms(1) rp_run.sim_work_start]
      wp_run.ending.program_bound [OF assms(1) wp_run.sim_work_start] by (simp_all add: assms(2,3))
  show "run_bounded fa_class FairMorrisLock cfg (ops * (10 * n + 26) + 14 * n + 11) 5"
    unfolding assms(2,3) by (rule fa_run.program_bound [OF assms(1) fa_work_start])
  show "never_stuck rp_class ReaderPriorityLock cfg"
    by (rule rp_run.ending.program_not_stuck [OF assms(1) rp_run.going [OF assms(1)]])
  show "never_stuck wp_class WriterPriorityLock cfg"
    by (rule wp_run.ending.program_not_stuck [OF assms(1) wp_run.going [OF assms(1)]])
  show "never_stuck fa_class FairMorrisLock cfg" if "cfg_numWriters cfg \<le> 1"
    by (rule fa_run.program_not_stuck [OF assms(1) fa_going [OF assms(1) that]])
qed

lemma run_terminates_witness:
  "\<exists>k m x r. program_run fa_class one_writer_cfg k m (program_start FairMorrisLock one_writer_cfg default_Logger) x
     \<and> main_at x = M_returned r \<and> k \<le> 221 + 5 * m \<and> never_stuck fa_class FairMorrisLock one_writer_cfg"
proof -
  obtain k m x r where run: "program_run fa_class one_writer_cfg k m
      (program_start FairMorrisLock one_writer_cfg default_Logger) x"
    and ret: "main_at x = M_returned r" by (rule fair_morris_may_return [OF one_writer_valid(1)])
  note ends = run_terminates [OF one_writer_valid(1) refl refl]
  have "num_threads one_writer_cfg = 3" "cfg_totalOps one_writer_cfg = 3"
    by (simp_all add: num_threads_def one_writer_cfg_def default_SimConfig_def)
  then have "run_bounded fa_class FairMorrisLock one_writer_cfg 221 5" using ends by simp
  then have "k \<le> 221 + 5 * m" using run unfolding run_bounded_def by blast
  then show ?thesis using run ret ends one_writer_valid(2) by blast
qed

text \<open>
  C10: When \<open>runSimulation\<close> returns (no abort test, at least one thread), with any of the three algorithms, all
  workers and the watchdog thread have ended, \<open>data_\<close> is the number of writes, and the result it returns
  is exact: its starvation count is the sum over the threads, throughput times duration is the number of
  operations asked for, and the fairness index is between \<open>1 / n\<close> and 1, and 1 only for equal shares.
\<close>

theorem run_report_exact:
  assumes "valid_cfg cfg" and "\<not> cfg_enableAbortTest cfg" and "0 < num_threads cfg"
  shows "report_exact rp_class ReaderPriorityLock cfg \<and> report_exact wp_class WriterPriorityLock cfg
       \<and> report_exact fa_class FairMorrisLock cfg"
  using rp_rec.report wp_rec.report fa_rec.report assms by blast

lemma run_report_exact_witness:
  "\<exists>x r. reachable (program_start ReaderPriorityLock small_cfg default_Logger) (program_step rp_class small_cfg) x
     \<and> main_at x = M_returned r \<and> all_returned small_cfg (sim_of x) \<and> dog_at x = WD_returned
     \<and> sr_data (res (sim_of x)) = writer_ops small_cfg (sim_of x)"
proof -
  obtain k m x r where run: "program_run rp_class small_cfg k m (program_start ReaderPriorityLock small_cfg default_Logger) x"
    and m: "main_at x = M_returned r" by (rule rp_run.returning_run [OF small_cfg_valid])
  have reach: "reachable (program_start ReaderPriorityLock small_cfg default_Logger) (program_step rp_class small_cfg) x"
    by (rule program_run_reachable [OF run reachable_init])
  have "\<not> cfg_enableAbortTest small_cfg" "0 < num_threads small_cfg"
    by (simp add: small_cfg_def default_SimConfig_def, simp)
  from run_report_exact [OF small_cfg_valid this] reach m show ?thesis unfolding report_exact_def by blast
qed

text \<open>
  C14: The waits \<open>runSimulation\<close> reports are possible: with any of the three algorithms and under every schedule,
  as long as the steady clock does not go back, the average wait of the readers and that of the writers
  are not negative and not longer than the run it measured.
\<close>

theorem run_waits_within:
  assumes "valid_cfg cfg"
  shows "waits_within rp_class ReaderPriorityLock cfg \<and> waits_within wp_class WriterPriorityLock cfg
       \<and> waits_within fa_class FairMorrisLock cfg"
  using rp_rec.within wp_rec.within fa_rec.within assms by blast

lemma run_waits_within_witness:
  "\<exists>x r. reachable (program_start WriterPriorityLock small_cfg default_Logger) (program_step wp_class small_cfg) x
     \<and> main_at x = M_returned r \<and> 0 \<le> mr_avgReaderWaitMs r \<and> mr_avgReaderWaitMs r \<le> mr_simulationDurationMs r"
proof -
  obtain k m x r where run: "program_run wp_class small_cfg k m (program_start WriterPriorityLock small_cfg default_Logger) x"
    and m: "main_at x = M_returned r" by (rule wp_run.returning_run [OF small_cfg_valid])
  have reach: "reachable (program_start WriterPriorityLock small_cfg default_Logger) (program_step wp_class small_cfg) x"
    by (rule program_run_reachable [OF run reachable_init])
  from run_waits_within [OF small_cfg_valid] reach m show ?thesis
    unfolding waits_within_def atLeastAtMost_iff by blast
qed

text \<open>
  C13: However long threads wait and however often the watchdog polls, it reports at most one event per
  operation: the events charged to all threads, and the watchdog's total, never exceed \<open>totalOps\<close>, no
  thread is charged more events than operations it has completed plus one, and the starvation count that
  \<open>runSimulation\<close> returns is the watchdog's total.
\<close>

theorem run_starvation_bounded:
  assumes "valid_cfg cfg"
  shows "starvation_bounded rp_class ReaderPriorityLock cfg \<and> starvation_bounded wp_class WriterPriorityLock cfg
       \<and> starvation_bounded fa_class FairMorrisLock cfg"
  using rp_rec.bounded wp_rec.bounded fa_rec.bounded assms by blast

lemma run_starvation_bounded_witness: "starvation_bounded wp_class WriterPriorityLock small_cfg"
  using run_starvation_bounded [OF small_cfg_valid] by blast

text \<open>
  C22: The records keep their type: at all times during a simulation the record at index \<open>t\<close> has the id \<open>t + 1\<close>,
  the type its place says (readers first) and the algorithm of the configuration, and its two counters
  lie between 0 and \<open>totalOps\<close>, so the \<open>int\<close> members cannot overflow.
\<close>

theorem run_records_typed:
  assumes "valid_cfg cfg"
  shows "records_typed rp_class ReaderPriorityLock cfg \<and> records_typed wp_class WriterPriorityLock cfg
       \<and> records_typed fa_class FairMorrisLock cfg"
  using rp_rec.typed wp_rec.typed fa_rec.typed assms by blast

lemma run_records_typed_witness: "records_typed rp_class ReaderPriorityLock small_cfg"
  using run_records_typed [OF small_cfg_valid] by blast

text \<open>
  C20: What the state in a record says of its thread, although the watchdog overwrites it: a thread that is
  about to use the resource shows \<open>ACTIVE\<close>, or \<open>BLOCKED\<close> if the watchdog marked it, one that has returned shows
  \<open>DONE\<close> or \<open>BLOCKED\<close>; \<open>WAITING\<close> is shown only inside a lock call, \<open>DONE\<close> only after the end, and
  \<open>ACTIVE\<close> only between the acquisition and the end of the unlock call.
\<close>

theorem run_states_mean:
  assumes "valid_cfg cfg"
  shows "states_mean rp_class ReaderPriorityLock cfg \<and> states_mean wp_class WriterPriorityLock cfg
       \<and> states_mean fa_class FairMorrisLock cfg"
  using rp_rec.meaning wp_rec.meaning fa_rec.meaning assms by blast

lemma run_states_mean_witness: "states_mean fa_class FairMorrisLock small_cfg"
  using run_states_mean [OF small_cfg_valid] by blast

end
