(* ===== verification/Run_Benchmark.thy ===== *)
theory Run_Benchmark
  imports Run_Results
begin

text \<open>
  The benchmark over the simulations it starts: what \<open>runSimulation\<close> can return, with the lock that the
  configuration names, and what that makes of the nine rows of the benchmark's table.
\<close>

section \<open>What runSimulation can return\<close>

definition can_return :: "('l, 'p) RWLockBase \<Rightarrow> 'l \<Rightarrow> SimConfig \<Rightarrow> MetricsResult \<Rightarrow> bool" where
  "can_return L l0 cfg r \<longleftrightarrow>
     (\<exists>g x. reachable (program_start l0 cfg g) (program_step L cfg) x \<and> main_at x = M_returned r)"

text \<open>The \<open>switch\<close> that creates the lock.\<close>

definition simulation_returns :: "SimConfig \<Rightarrow> MetricsResult \<Rightarrow> bool" where
  "simulation_returns cfg r =
     (case cfg_algo cfg of
        READER_PRIORITY \<Rightarrow> can_return rp_class ReaderPriorityLock cfg r
      | WRITER_PRIORITY \<Rightarrow> can_return wp_class WriterPriorityLock cfg r
      | FAIR_MORRIS \<Rightarrow> can_return fa_class FairMorrisLock cfg r)"

text \<open>Every valid simulation returns something, if the scheduler wants.\<close>

lemma simulation_may_return:
  assumes "valid_cfg cfg"
  shows "\<exists>r. simulation_returns cfg r"
proof (cases "cfg_algo cfg")
  case READER_PRIORITY
  obtain k m x r where "program_run rp_class cfg k m (program_start ReaderPriorityLock cfg default_Logger) x"
    "main_at x = M_returned r" by (rule rp_run.returning_run [OF assms])
  then show ?thesis
    using program_run_reachable [OF _ reachable_init] unfolding simulation_returns_def can_return_def READER_PRIORITY AlgoType.case by blast
next
  case WRITER_PRIORITY
  obtain k m x r where "program_run wp_class cfg k m (program_start WriterPriorityLock cfg default_Logger) x"
    "main_at x = M_returned r" by (rule wp_run.returning_run [OF assms])
  then show ?thesis
    using program_run_reachable [OF _ reachable_init] unfolding simulation_returns_def can_return_def WRITER_PRIORITY AlgoType.case by blast
next
  case FAIR_MORRIS
  obtain k m x r where "program_run fa_class cfg k m (program_start FairMorrisLock cfg default_Logger) x"
    "main_at x = M_returned r" by (rule fair_morris_may_return [OF assms])
  then show ?thesis
    using program_run_reachable [OF _ reachable_init] unfolding simulation_returns_def can_return_def FAIR_MORRIS AlgoType.case by blast
qed

section \<open>What every result satisfies\<close>

definition plausible :: "SimConfig \<Rightarrow> MetricsResult \<Rightarrow> bool" where
  "plausible cfg r \<longleftrightarrow>
     mr_algo r = cfg_algo cfg \<and> mr_numReaders r = cfg_numReaders cfg \<and> mr_numWriters r = cfg_numWriters cfg
   \<and> mr_totalOps r = cfg_totalOps cfg \<and> mr_starvationCount r \<in> {0..cfg_totalOps cfg}
   \<and> mr_avgReaderWaitMs r \<in> {0..mr_simulationDurationMs r}
   \<and> mr_avgWriterWaitMs r \<in> {0..mr_simulationDurationMs r}
   \<and> mr_jainsFairnessIndex r \<in> {1 / real (num_threads cfg)..1}"

lemma simulation_result_echo:
  assumes "0 < num_threads cfg" and nonneg: "\<forall>t. 0 \<le> ti_opsCompleted (infos (lk s) t)"
  shows "mr_algo (simulation_result cfg s wallMs u v) = cfg_algo cfg"
    and "mr_numReaders (simulation_result cfg s wallMs u v) = cfg_numReaders cfg"
    and "mr_numWriters (simulation_result cfg s wallMs u v) = cfg_numWriters cfg"
    and "mr_totalOps (simulation_result cfg s wallMs u v) = cfg_totalOps cfg"
    and "mr_jainsFairnessIndex (simulation_result cfg s wallMs u v) \<in> {1 / real (num_threads cfg)..1}"
proof -
  let ?ts = "map (infos (lk s)) [0..<num_threads cfg]"
  obtain vol ivol where r: "simulation_result cfg s wallMs u v = Metrics_compute (map Some ?ts) cfg wallMs vol ivol"
    by (rule simulation_result_compute)
  show "mr_algo (simulation_result cfg s wallMs u v) = cfg_algo cfg"
    "mr_numReaders (simulation_result cfg s wallMs u v) = cfg_numReaders cfg"
    "mr_numWriters (simulation_result cfg s wallMs u v) = cfg_numWriters cfg"
    "mr_totalOps (simulation_result cfg s wallMs u v) = cfg_totalOps cfg"
    by (simp_all add: r Metrics_compute_def Let_def)
  have "?ts \<noteq> []" "\<forall>t \<in> set ?ts. 0 \<le> ti_opsCompleted t" using assms by auto
  from jains_index_fair [OF this, of cfg wallMs vol ivol]
  show "mr_jainsFairnessIndex (simulation_result cfg s wallMs u v) \<in> {1 / real (num_threads cfg)..1}"
    unfolding r atLeastAtMost_iff length_map length_upt minus_nat.diff_0 by blast
qed

context recording_lock
begin

lemma result_plausible:
  assumes cfg: "valid_cfg cfg" "0 < num_threads cfg" and ret: "can_return L l0 cfg r"
  shows "plausible cfg r"
proof -
  obtain g x where reach: "reachable (program_start l0 cfg g) (program_step L cfg) x" and m: "main_at x = M_returned r"
    using ret by (auto simp: can_return_def)
  note inv = program_inv_reachable [OF cfg(1) reach]
  note acc = starvation_accounts [OF inv program_accounts(1,2) [OF cfg(1) inv]]
  have r: "r = simulation_result cfg (sim_of x) (real_of_int (wall_end x - wall_start x) / 1000000)
      (usage_before x) (usage_after x)"
    using inv m by (simp add: program_inv_def main_inv_def)
  have "mr_starvationCount r = starve_events cfg x"
    unfolding r simulation_result_figures(1) starve_events_def ..
  moreover have "0 \<le> starve_events cfg x"
    unfolding starve_events_def by (rule sum_nonneg) (use acc(3) in auto)
  ultimately have "mr_starvationCount r \<in> {0..cfg_totalOps cfg}" using acc(2) by simp
  moreover have "mr_avgReaderWaitMs r \<in> {0..mr_simulationDurationMs r}"
    "mr_avgWriterWaitMs r \<in> {0..mr_simulationDurationMs r}"
    using within [OF cfg(1)] reach m unfolding waits_within_def by blast+
  ultimately show ?thesis
    unfolding plausible_def using simulation_result_echo [OF cfg(2) program_accounts(2) [OF cfg(1) inv]] unfolding r by blast
qed

end

lemma simulation_plausible:
  assumes "valid_cfg cfg" and "0 < num_threads cfg" and "simulation_returns cfg r"
  shows "plausible cfg r"
  using assms(3) rp_rec.result_plausible [OF assms(1,2)] wp_rec.result_plausible [OF assms(1,2)]
    fa_rec.result_plausible [OF assms(1,2)]
  by (cases "cfg_algo cfg") (simp_all add: simulation_returns_def)

section \<open>Averages of plausible results\<close>

lemma mean_within:
  assumes "rs \<noteq> []" and "\<And>r. r \<in> set rs \<Longrightarrow> f r \<in> {0..h r :: real}"
  shows "mean (map f rs) \<in> {0..mean (map h rs)}"
proof -
  have "0 \<le> sum_list (map f rs) \<and> sum_list (map f rs) \<le> sum_list (map h rs)"
    using assms(2) by (induction rs) (fastforce)+
  then show ?thesis using assms(1) by (simp add: mean_def divide_right_mono)
qed

lemma cdiv_nonneg: "0 \<le> a \<Longrightarrow> 0 < b \<Longrightarrow> cdiv a b = a div b"
  by (cases "a = 0") (simp_all add: cdiv_def)

lemma average_plausible:
  assumes rs: "rs \<noteq> []" and each: "\<And>r. r \<in> set rs \<Longrightarrow> plausible cfg r" and a: "a = cfg_algo cfg"
  shows "plausible cfg (bench_average a rs)"
proof -
  have "last rs \<in> set rs" using rs by simp
  note each [OF this]
  moreover have "mean (map mr_avgReaderWaitMs rs) \<in> {0..mean (map mr_simulationDurationMs rs)}"
    "mean (map mr_avgWriterWaitMs rs) \<in> {0..mean (map mr_simulationDurationMs rs)}"
    by (rule mean_within [OF rs]; use each in \<open>simp add: plausible_def\<close>)+
  moreover have "mean (map mr_jainsFairnessIndex rs) \<in> {1 / real (num_threads cfg)..1}"
    using mean_range [of "map mr_jainsFairnessIndex rs" "1 / real (num_threads cfg)" 1] rs each
    by (auto simp: plausible_def)
  moreover have "cdiv (\<Sum>r \<leftarrow> rs. mr_starvationCount r) (int (length rs)) \<in> {0..cfg_totalOps cfg}"
  proof -
    have s: "0 \<le> (\<Sum>r \<leftarrow> rs. mr_starvationCount r)
        \<and> (\<Sum>r \<leftarrow> rs. mr_starvationCount r) \<le> int (length rs) * cfg_totalOps cfg"
      using each by (induction rs) (fastforce simp: plausible_def algebra_simps)+
    have n: "0 < int (length rs)" using rs by simp
    have "(\<Sum>r \<leftarrow> rs. mr_starvationCount r) div int (length rs) \<le> cfg_totalOps cfg"
      using zdiv_mono1 [OF conjunct2 [OF s] n] n by simp
    then show ?thesis using s n by (simp add: cdiv_nonneg pos_imp_zdiv_nonneg_iff)
  qed
  ultimately show ?thesis by (simp add: plausible_def bench_average_def a)
qed

lemma cell_results_all:
  assumes "\<And>k p a. k < BENCHMARK_RUNS * length cs \<Longrightarrow> cs ! (k div BENCHMARK_RUNS) = (p, a) \<Longrightarrow>
      P p a (sims (k0 + k) (run_cfg base p a))"
  shows "list_all2 (\<lambda>(p, a) r. \<exists>rs. rs \<noteq> [] \<and> (\<forall>x \<in> set rs. P p a x) \<and> r = bench_average a rs) cs
           (cell_results sims base k0 cs)"
  using assms
proof (induction cs arbitrary: k0)
  case (Cons c cs)
  obtain p a where c: "c = (p, a)" by (cases c)
  let ?rs = "results_of sims (run_cfg base p a) k0 BENCHMARK_RUNS"
  have "P p a (sims (k0 + i) (run_cfg base p a))" if "i < BENCHMARK_RUNS" for i
    by (rule Cons.prems) (use that c in \<open>simp_all add: BENCHMARK_RUNS_def\<close>)
  then have "\<forall>x \<in> set ?rs. P p a x" by (auto simp: results_of_def)
  moreover have "?rs \<noteq> []" by (simp add: results_of_def BENCHMARK_RUNS_def)
  moreover have "list_all2 (\<lambda>(p, a) r. \<exists>rs. rs \<noteq> [] \<and> (\<forall>x \<in> set rs. P p a x) \<and> r = bench_average a rs) cs
      (cell_results sims base (k0 + BENCHMARK_RUNS) cs)"
  proof (rule Cons.IH)
    fix k q b assume k: "k < BENCHMARK_RUNS * length cs" "cs ! (k div BENCHMARK_RUNS) = (q, b)"
    have "P q b (sims (k0 + (BENCHMARK_RUNS + k)) (run_cfg base q b))"
      by (rule Cons.prems) (use k in \<open>simp_all add: BENCHMARK_RUNS_def\<close>)
    then show "P q b (sims (k0 + BENCHMARK_RUNS + k) (run_cfg base q b))" by (simp add: add.assoc)
  qed
  ultimately show ?case unfolding c cell_results.simps by blast
qed simp

lemma run_cfg_valid:
  assumes "(p, a) \<in> set cells"
  shows "valid_cfg (run_cfg base p a)" "0 < num_threads (run_cfg base p a)" "cfg_algo (run_cfg base p a) = a"
  using assms by (auto simp: cells_def profiles_def algorithms_def run_cfg_def valid_cfg_def num_threads_def)

lemma benchmark_rows_plausible:
  assumes "\<And>k p a. k < 45 \<Longrightarrow> cells ! (k div 5) = (p, a) \<Longrightarrow>
      simulation_returns (run_cfg base p a) (sims k (run_cfg base p a))"
  shows "list_all2 (\<lambda>(p, a) r. plausible (run_cfg base p a) r) cells (cell_results sims base 0 cells)"
proof -
  have all: "list_all2 (\<lambda>(p, a) r. \<exists>rs. rs \<noteq> [] \<and> (\<forall>x \<in> set rs. simulation_returns (run_cfg base p a) x)
      \<and> r = bench_average a rs) cells (cell_results sims base 0 cells)"
    by (rule cell_results_all) (use assms in \<open>simp add: BENCHMARK_RUNS_def length_cells\<close>)
  have avg: "plausible (run_cfg base p a) (bench_average a rs)"
    if "(p, a) \<in> set cells" "rs \<noteq> []" "\<forall>x \<in> set rs. simulation_returns (run_cfg base p a) x" for p a rs
    using average_plausible [OF that(2)] simulation_plausible run_cfg_valid [OF that(1)] that(3) by metis
  from all show ?thesis by (rule list.rel_mono_strong) (use avg in auto)
qed

section \<open>Properties\<close>

text \<open>
  C15: The benchmark over real simulations: if each of its 45 simulations returns what \<open>runSimulation\<close> can return
  for its configuration under some schedule, then each of the nine rows it reports is plausible for its
  profile and algorithm: the numbers of readers, writers and operations are those of the profile, whatever the
  command line asked for, the average number of starvation events lies between 0 and the operations, the
  waits between 0 and the duration, and Jain's index between \<open>1 / n\<close> and 1.
\<close>

theorem benchmark_of_runs:
  assumes "\<And>k p a. k < 45 \<Longrightarrow> cells ! (k div 5) = (p, a) \<Longrightarrow>
      simulation_returns (run_cfg base p a) (sims k (run_cfg base p a))"
  shows "list_all2 (\<lambda>(p, a) r. plausible (run_cfg base p a) r) cells (b_results (runBenchmark sims can_open base file))"
  unfolding runBenchmark_results(1) by (rule benchmark_rows_plausible) (rule assms)

lemma benchmark_of_runs_witness:
  "\<exists>sims. (\<forall>k p a. k < 45 \<longrightarrow> cells ! (k div 5) = (p, a) \<longrightarrow>
        simulation_returns (run_cfg default_SimConfig p a) (sims k (run_cfg default_SimConfig p a)))
     \<and> list_all2 (\<lambda>(p, a) r. plausible (run_cfg default_SimConfig p a) r) cells
         (b_results (runBenchmark sims True default_SimConfig None))"
proof -
  define sims where "sims k c = (SOME r. simulation_returns c r)" for k :: nat and c
  have "simulation_returns c (sims k c)" if "valid_cfg c" for k c
    unfolding sims_def by (rule someI_ex) (rule simulation_may_return [OF that])
  moreover have "(p, a) \<in> set cells" if "k < 45" "cells ! (k div 5) = (p, a)" for k p a
    using that nth_mem [of "k div 5" cells] by (simp add: length_cells)
  ultimately have all: "simulation_returns (run_cfg default_SimConfig p a) (sims k (run_cfg default_SimConfig p a))"
    if "k < 45" "cells ! (k div 5) = (p, a)" for k p a
    using run_cfg_valid(1) that by blast
  then show ?thesis using benchmark_of_runs [of default_SimConfig sims True None] by blast
qed

end
