(* ===== verification/Worker_Log.thy ===== *)
theory Worker_Log
  imports Recording Log_Threads
begin

text \<open>
  What a worker writes to the log: one record per transition of its lock calls, one for its start, one for its
  end and a summary.  The locale adds to the contract of the lock classes which of their actions log; from
  it follows the exact sequence of states a worker has logged at each of its points.
\<close>

section \<open>The log as a history of calls\<close>

text \<open>The logger \<open>g'\<close> is what the calls of \<open>h\<close> have made of \<open>g\<close>; the clock it holds is a reading of its own.\<close>

definition logged :: "Logger \<Rightarrow> history \<Rightarrow> Logger \<Rightarrow> bool" where
  "logged g h g' \<longleftrightarrow> (replay h g)\<lparr>lg_wall := lg_wall g'\<rparr> = g'"

definition at_clock :: "nat \<Rightarrow> wall_clock \<Rightarrow> log_call list \<Rightarrow> history" where
  "at_clock a w cs = map (\<lambda>c. (a, w, c)) cs"

lemma at_clock_simps [simp]:
  "at_clock a w [] = []" "at_clock a w (c # cs) = (a, w, c) # at_clock a w cs"
  by (simp_all add: at_clock_def)

lemma calls_of_simps [simp]:
  "calls_of a [] = []" "calls_of a (h @ h') = calls_of a h @ calls_of a h'"
  "calls_of a (at_clock b w cs) = (if a = b then cs else [])"
  by (simp_all add: calls_of_def at_clock_def filter_map comp_def)

lemma logged_Nil: "logged g [] g"
  by (simp add: logged_def replay_def)

lemma logged_wall: "logged g h g' \<Longrightarrow> logged g h (g'\<lparr>lg_wall := w\<rparr>)"
  unfolding logged_def by (metis Logger.select_convs(5) Logger.surjective Logger.update_convs(5))

lemma do_log_call_wall [simp]: "lg_wall (do_log_call c g) = lg_wall g"
  by (cases c) (simp_all add: log_record_def log_summary_def log_alert_def log_header_def)

lemma logged_call:
  assumes "logged g h g'"
  shows "logged g (h @ [(a, lg_wall g', c)]) (do_log_call c g')"
proof -
  have "call_at (lg_wall g') c (replay h g) = do_log_call c g'"
    using assms by (simp add: call_at_def logged_def)
  then show ?thesis by (simp add: logged_def)
qed

lemma logged_calls:
  "logged g h g' \<Longrightarrow> logged g (h @ at_clock a (lg_wall g') cs) (log_calls cs g')"
proof (induction cs arbitrary: h g')
  case (Cons c cs)
  from Cons.IH [OF logged_call [OF Cons.prems]] show ?case by (simp add: log_calls_def)
qed (simp add: log_calls_def)

text \<open>The lines a history leaves on the console, and in the file if one is open.\<close>

definition lines_of :: "LogLevel \<Rightarrow> history \<Rightarrow> string list" where
  "lines_of lv h = List.map_filter (\<lambda>(a, w, c). map_option snd (format_call lv w c)) h"

lemma replay_lines:
  "lg_stdout (replay h g) = lg_stdout g @ lines_of (lg_level g) h
   \<and> lg_file (replay h g) = map_option (\<lambda>f. f @ lines_of (lg_level g) h) (lg_file g)"
proof (induction h rule: rev_induct)
  case Nil
  then show ?case by (simp add: replay_def lines_of_def map_filter_simps option.map_ident)
next
  case (snoc x h)
  then show ?case
    by (cases x)
       (auto simp: call_at_format lines_of_def map_filter_def option.map_comp comp_def option.map_ident split: option.split)
qed

lemma logged_lines:
  assumes "logged g h g'"
  shows "lg_stdout g' = lg_stdout g @ lines_of (lg_level g) h"
    and "lg_file g' = map_option (\<lambda>f. f @ lines_of (lg_level g) h) (lg_file g)"
    and "lg_level g' = lg_level g"
proof -
  have g': "g' = (replay h g)\<lparr>lg_wall := lg_wall g'\<rparr>" using assms by (simp add: logged_def)
  show "lg_stdout g' = lg_stdout g @ lines_of (lg_level g) h"
    "lg_file g' = map_option (\<lambda>f. f @ lines_of (lg_level g) h) (lg_file g)" "lg_level g' = lg_level g"
    by (subst g', simp add: replay_lines)+
qed

section \<open>Which actions of a lock call log\<close>

text \<open>The caller's record, as it is after the action, has been logged in the state \<open>st\<close>.\<close>

definition noted :: "ThreadState \<Rightarrow> ctx \<Rightarrow> ctx \<Rightarrow> bool" where
  "noted st c c' \<longleftrightarrow> (\<exists>waited msg. c_logger c' = log_record (c_info c') st waited msg (c_logger c))"

locale logging_lock = recording_lock +
  assumes log_readLock: "readLock L p t w (l, c) = Done (l', c', r) \<Longrightarrow>
        (if p = readLock_entry L then noted WAITING c c' else if r = None then noted ACTIVE c c'
         else c_logger c' = c_logger c)"
    and log_writeLock: "writeLock L p t w (l, c) = Done (l', c', r) \<Longrightarrow>
        (if p = writeLock_entry L then noted WAITING c c' else if r = None then noted ACTIVE c c'
         else c_logger c' = c_logger c)"
    and log_readUnlock: "readUnlock L p t w (l, c) = Done (l', c', r) \<Longrightarrow>
        (if r = None then noted RELEASING c c' else c_logger c' = c_logger c)"
    and log_writeUnlock: "writeUnlock L p t w (l, c) = Done (l', c', r) \<Longrightarrow>
        (if r = None then noted RELEASING c c' else c_logger c' = c_logger c)"

lemma transitions_noted [simp]:
  "noted WAITING c (transitionWaiting m c)" "noted ACTIVE c (transitionActive m c)"
  "noted RELEASING c (transitionReleasing m c)"
  by (auto simp: noted_def transitionWaiting_def transitionActive_def transitionReleasing_def Let_def)

lemma rp_logs:
  "rp_readLock p t w (l, c) = Done (l', c', r) \<Longrightarrow>
     (if p = RL_waiting then noted WAITING c c' else if r = None then noted ACTIVE c c' else c_logger c' = c_logger c)"
  "rp_writeLock p t w (l, c) = Done (l', c', r) \<Longrightarrow>
     (if p = WL_waiting then noted WAITING c c' else if r = None then noted ACTIVE c c' else c_logger c' = c_logger c)"
  "rp_readUnlock p t w (l, c) = Done (l', c', r) \<Longrightarrow>
     (if r = None then noted RELEASING c c' else c_logger c' = c_logger c)"
  "rp_writeUnlock p t w (l, c) = Done (l', c', r) \<Longrightarrow>
     (if r = None then noted RELEASING c c' else c_logger c' = c_logger c)"
  by (cases p; auto simp: outcome_simps Let_def split: if_splits)+

lemma wp_logs:
  "wp_readLock p t w (l, c) = Done (l', c', r) \<Longrightarrow>
     (if p = WpRL_waiting then noted WAITING c c' else if r = None then noted ACTIVE c c' else c_logger c' = c_logger c)"
  "wp_writeLock p t w (l, c) = Done (l', c', r) \<Longrightarrow>
     (if p = WpWL_waiting then noted WAITING c c' else if r = None then noted ACTIVE c c' else c_logger c' = c_logger c)"
  "wp_readUnlock p t w (l, c) = Done (l', c', r) \<Longrightarrow>
     (if r = None then noted RELEASING c c' else c_logger c' = c_logger c)"
  "wp_writeUnlock p t w (l, c) = Done (l', c', r) \<Longrightarrow>
     (if r = None then noted RELEASING c c' else c_logger c' = c_logger c)"
  by (cases p; auto simp: outcome_simps Let_def split: if_splits)+

lemma fa_logs:
  "fa_readLock p t w (l, c) = Done (l', c', r) \<Longrightarrow>
     (if p = FaRL_waiting then noted WAITING c c' else if r = None then noted ACTIVE c c' else c_logger c' = c_logger c)"
  "fa_writeLock p t w (l, c) = Done (l', c', r) \<Longrightarrow>
     (if p = FaWL_waiting then noted WAITING c c' else if r = None then noted ACTIVE c c' else c_logger c' = c_logger c)"
  "fa_readUnlock p t w (l, c) = Done (l', c', r) \<Longrightarrow>
     (if r = None then noted RELEASING c c' else c_logger c' = c_logger c)"
  "fa_writeUnlock p t w (l, c) = Done (l', c', r) \<Longrightarrow>
     (if r = None then noted RELEASING c c' else c_logger c' = c_logger c)"
  by (cases p; auto simp: outcome_simps Let_def split: if_splits)+

interpretation rp_log: logging_lock rp_class ReaderPriorityLock rp_inv
  by unfold_locales (use rp_logs in simp_all)

interpretation wp_log: logging_lock wp_class WriterPriorityLock wp_inv
  by unfold_locales (use wp_logs in simp_all)

interpretation fa_log: logging_lock fa_class FairMorrisLock fa_inv
  by unfold_locales (use fa_logs in simp_all)

section \<open>The life of a worker as its log shows it\<close>

fun call_state :: "log_call \<Rightarrow> ThreadState option" where
  "call_state (CallRecord i st waited msg) = Some st"
| "call_state _ = None"

definition states_logged :: "log_call list \<Rightarrow> ThreadState list" where
  "states_logged cs = List.map_filter call_state cs"

definition summaries :: "log_call list \<Rightarrow> ThreadInfo list" where
  "summaries cs = List.map_filter (\<lambda>c. case c of CallSummary i \<Rightarrow> Some i | _ \<Rightarrow> None) cs"

fun own_call :: "tid \<Rightarrow> log_call \<Rightarrow> bool" where
  "own_call t (CallRecord i st waited msg) \<longleftrightarrow> ti_tid i = int t + 1"
| "own_call t (CallSummary i) \<longleftrightarrow> ti_tid i = int t + 1"
| "own_call t _ \<longleftrightarrow> False"

lemma states_logged_simps [simp]:
  "states_logged [] = []" "states_logged (cs @ ds) = states_logged cs @ states_logged ds"
  "states_logged [CallRecord i st waited msg] = [st]" "states_logged [CallSummary i] = []"
  "states_logged (CallRecord i st waited msg # cs) = st # states_logged cs"
  "states_logged (CallSummary i # cs) = states_logged cs"
  by (simp_all add: states_logged_def map_filter_def)

lemma summaries_simps [simp]:
  "summaries [] = []" "summaries (cs @ ds) = summaries cs @ summaries ds"
  "summaries (CallRecord i st waited msg # cs) = summaries cs" "summaries (CallSummary i # cs) = i # summaries cs"
  by (simp_all add: summaries_def map_filter_def)

text \<open>\<open>k\<close> complete rounds of a lock and an unlock call.\<close>

definition rounds :: "int \<Rightarrow> ThreadState list" where
  "rounds k = concat (replicate (nat k) [WAITING, ACTIVE, RELEASING])"

lemma rounds_0 [simp]: "rounds 0 = []"
  by (simp add: rounds_def)

lemma replicate_snoc_concat: "concat (replicate (Suc n) xs) = concat (replicate n xs) @ xs"
  by (induction n) simp_all

lemma rounds_last: "0 < k \<Longrightarrow> rounds k = rounds (k - 1) @ [WAITING, ACTIVE, RELEASING]"
proof -
  assume "0 < k"
  then have "nat k = Suc (nat (k - 1))" by simp
  then show ?thesis unfolding rounds_def using replicate_snoc_concat by metis
qed

text \<open>The first records of a worker, and what follows its complete rounds; \<open>target\<close> for the abort test.\<close>

definition first_records :: "bool \<Rightarrow> ThreadState list" where
  "first_records target = (if target then [INIT, INIT] else [INIT])"

definition after_rounds :: "('l, 'p) RWLockBase \<Rightarrow> bool \<Rightarrow> worker_point \<Rightarrow> 'p phase \<Rightarrow> ThreadState list set" where
  "after_rounds L target p x = (case p of
       W_top \<Rightarrow> {[]} | W_fetch \<Rightarrow> {[]} | W_refund \<Rightarrow> {[]} | W_call_lock \<Rightarrow> {[]}
     | W_in_lock \<Rightarrow> if at_entry L x then {[]} else {[WAITING]}
     | W_finish \<Rightarrow> if target then {[], [DONE]} else {[]}
     | W_exit \<Rightarrow> if target then {[DONE], [DONE, DONE]} else {[DONE]}
     | W_abort_exit \<Rightarrow> if target then {[WAITING, ACTIVE, RELEASING]} else {}
     | W_aborted \<Rightarrow> if target then {[WAITING, ACTIVE, RELEASING, DONE]} else {}
     | W_abort_unlock \<Rightarrow> if target then {[WAITING, ACTIVE]} else {}
     | W_in_abort_unlock \<Rightarrow> if target then {[WAITING, ACTIVE]} else {}
     | _ \<Rightarrow> {[WAITING, ACTIVE]})"

text \<open>An operation is counted before its round is complete.\<close>

definition life :: "('l, 'p) RWLockBase \<Rightarrow> bool \<Rightarrow> worker_point \<Rightarrow> 'p phase \<Rightarrow> int \<Rightarrow> ThreadState list \<Rightarrow> bool" where
  "life L target p x ops ss \<longleftrightarrow>
     (if p = W_new \<or> p = W_init then ss = [] \<and> ops = 0
      else if p = W_call_unlock \<or> p = W_in_unlock
      then 0 < ops \<and> ss = first_records target @ rounds (ops - 1) @ [WAITING, ACTIVE]
      else \<exists>e \<in> after_rounds L target p x. ss = first_records target @ rounds ops @ e)"

text \<open>A summary shows the record as it is at the end, up to what the watchdog may still add.\<close>

definition summary_of :: "ThreadInfo \<Rightarrow> ThreadInfo \<Rightarrow> bool" where
  "summary_of j i \<longleftrightarrow> same_identity i j \<and> ti_opsCompleted j = ti_opsCompleted i
     \<and> ti_totalWaitMs j = ti_totalWaitMs i \<and> ti_starveCount j \<le> ti_starveCount i"

definition worker_account ::
    "('l, 'p) RWLockBase \<Rightarrow> bool \<Rightarrow> tid \<Rightarrow> worker_point \<Rightarrow> 'p phase \<Rightarrow> ThreadInfo \<Rightarrow> log_call list \<Rightarrow> bool" where
  "worker_account L target t p x i cs \<longleftrightarrow>
     list_all (own_call t) cs \<and> ti_tid i = int t + 1 \<and> 0 \<le> ti_opsCompleted i
   \<and> life L target p x (ti_opsCompleted i) (states_logged cs)
   \<and> (if worker_done p then \<exists>ds j. cs = ds @ [CallSummary j] \<and> summaries ds = [] \<and> summary_of j i
      else summaries cs = [])"

lemma log_calls_simps [simp]:
  "log_calls [] g = g" "log_calls (c # cs) g = log_calls cs (do_log_call c g)"
  by (simp_all add: log_calls_def)

lemmas account_simps = worker_account_def life_def after_rounds_def first_records_def worker_done_def

text \<open>What a worker has logged between \<open>g\<close> and \<open>g'\<close>, if it is no summary.\<close>

definition says :: "tid \<Rightarrow> Logger \<Rightarrow> ThreadState list \<Rightarrow> Logger \<Rightarrow> bool" where
  "says t g sts g' \<longleftrightarrow>
     (\<exists>cs. g' = log_calls cs g \<and> list_all (own_call t) cs \<and> states_logged cs = sts \<and> summaries cs = [])"

lemma says_nothing [simp]: "says t g [] g"
  unfolding says_def by (rule exI [of _ "[]"]) simp

lemma says_record [simp]: "ti_tid i = int t + 1 \<Longrightarrow> says t g [st] (log_record i st waited msg g)"
  unfolding says_def by (rule exI [of _ "[CallRecord i st waited msg]"]) simp

lemma says_two [simp]:
  "ti_tid i = int t + 1 \<Longrightarrow> ti_tid j = int t + 1 \<Longrightarrow>
     says t g [st, st'] (log_record j st' w' msg' (log_record i st w msg g))"
  unfolding says_def by (rule exI [of _ "[CallRecord i st w msg, CallRecord j st' w' msg']"]) simp

lemma noted_says: "noted st c c' \<Longrightarrow> ti_tid (c_info c') = int t + 1 \<Longrightarrow> says t (c_logger c) [st] (c_logger c')"
  by (auto simp: noted_def)

lemma account_says:
  assumes "says t g sts g'" and "worker_account L target t p x i old"
    and "\<not> worker_done p" "\<not> worker_done p'" "ti_tid j = int t + 1" "0 \<le> ti_opsCompleted j"
    and "life L target p' x' (ti_opsCompleted j) (states_logged old @ sts)"
  shows "\<exists>cs. g' = log_calls cs g \<and> worker_account L target t p' x' j (old @ cs)"
  using assms unfolding says_def worker_account_def by fastforce

text \<open>What one action of a lock call logs.\<close>

definition call_word :: "('l, 'p) RWLockBase \<Rightarrow> 'p phase \<Rightarrow> 'p phase \<Rightarrow> ThreadState list" where
  "call_word L x x' = (if at_entry L x then [WAITING] else if in_call x' then []
     else if x' = Outside then [RELEASING] else [ACTIVE])"

context logging_lock
begin

lemma advance_says:
  assumes act: "advance L t w k = Done k'" and id: "ti_tid (infos k t) = int t + 1"
  shows "says t (logger k) (call_word L (phase k t) (phase k' t)) (logger k')
    \<and> ti_tid (infos k' t) = int t + 1 \<and> ti_opsCompleted (infos k' t) = ti_opsCompleted (infos k t)
    \<and> (at_entry L (phase k t) \<longrightarrow> in_call (phase k' t)) \<and> \<not> at_entry L (phase k' t)"
  using act
proof (cases rule: advance_cases)
  case (readLock q l c r)
  note laws = log_readLock [OF readLock(2)] record_readLock [OF readLock(2)]
  have "ti_tid (c_info c) = int t + 1" using laws(2) id by (simp add: enterWaiting_def enterActive_def Let_def)
  then show ?thesis using readLock(1,3) laws noted_says [where t = t]
    by (cases r) (fastforce simp: call_word_def enterWaiting_def enterActive_def Let_def split: if_splits)+
next
  case (readUnlock q l c r)
  note laws = log_readUnlock [OF readUnlock(2)] record_readUnlock [OF readUnlock(2)]
  have "ti_tid (c_info c) = int t + 1" using laws(2) id by simp
  then show ?thesis using readUnlock(1,3) laws noted_says [where t = t]
    by (cases r) (fastforce simp: call_word_def split: if_splits)+
next
  case (writeLock q l c r)
  note laws = log_writeLock [OF writeLock(2)] record_writeLock [OF writeLock(2)]
  have "ti_tid (c_info c) = int t + 1" using laws(2) id by (simp add: enterWaiting_def enterActive_def Let_def)
  then show ?thesis using writeLock(1,3) laws noted_says [where t = t]
    by (cases r) (fastforce simp: call_word_def enterWaiting_def enterActive_def Let_def split: if_splits)+
next
  case (writeUnlock q l c r)
  note laws = log_writeUnlock [OF writeUnlock(2)] record_writeUnlock [OF writeUnlock(2)]
  have "ti_tid (c_info c) = int t + 1" using laws(2) id by simp
  then show ?thesis using writeUnlock(1,3) laws noted_says [where t = t]
    by (cases r) (fastforce simp: call_word_def split: if_splits)+
qed

lemma call_account:
  assumes act: "in_lock_call L t w returned after p s = Done s'"
    and coh: "coherent ty p (phase (lk s) t)"
    and p: "p = W_in_lock \<and> returned = (if ty = READER then Reading else Writing)
              \<and> after = (if ty = READER then W_read else W_locked)
          \<or> p = W_in_unlock \<and> returned = Outside \<and> (after = W_fetch \<or> after = W_top)
          \<or> p = W_in_abort_unlock \<and> returned = Outside \<and> after = W_abort_exit"
    and acc: "worker_account L target t p (phase (lk s) t) (infos (lk s) t) old"
  shows "\<exists>cs. logger (lk s') = log_calls cs (logger (lk s))
    \<and> worker_account L target t (points s' t) (phase (lk s') t) (infos (lk s') t) (old @ cs)"
proof -
  obtain k where k: "advance L t w (lk s) = Done k"
    and s': "s' = goto t (if phase k t = returned then after else p) (s\<lparr>lk := k\<rparr>)"
    using act by (auto simp: in_lock_call_Done)
  let ?i = "infos (lk s) t" and ?x = "phase (lk s) t" and ?x' = "phase k t"
  have id: "ti_tid ?i = int t + 1" and ops: "0 \<le> ti_opsCompleted ?i"
    and life: "life L target p ?x (ti_opsCompleted ?i) (states_logged old)"
    using acc by (simp_all add: worker_account_def)
  note says = advance_says [OF k id]
  let ?p' = "if ?x' = returned then after else p"
  have "life L target ?p' ?x' (ti_opsCompleted ?i) (states_logged old @ call_word L ?x ?x')"
    using p
  proof -
    consider (lock) "p = W_in_lock" "returned = (if ty = READER then Reading else Writing)"
        "after = (if ty = READER then W_read else W_locked)"
      | (unlock) "p = W_in_unlock" "returned = Outside" "after = W_fetch \<or> after = W_top"
      | (abort) "p = W_in_abort_unlock" "returned = Outside" "after = W_abort_exit" using p by blast
    then show ?thesis
    proof cases
      case lock
      have "in_call ?x' \<or> ?x' = returned"
        using coh lock advance_phase(3,5) [OF k] by (auto simp: coherent_at split: if_splits)
      then show ?thesis using life says lock
        by (auto simp: life_def after_rounds_def call_word_def split: if_splits)
    next
      case unlock
      have "(in_call ?x' \<or> ?x' = returned) \<and> \<not> at_entry L ?x"
        using coh unlock advance_phase(4,6) [OF k] by (auto simp: coherent_at split: if_splits)
      then show ?thesis using life says unlock rounds_last
        by (auto simp: life_def after_rounds_def call_word_def split: if_splits)
    next
      case abort
      have "(in_call ?x' \<or> ?x' = returned) \<and> \<not> at_entry L ?x"
        using coh abort advance_phase(6) [OF k] by (auto simp: coherent_at split: if_splits)
      then show ?thesis using life says abort
        by (auto simp: life_def after_rounds_def call_word_def split: if_splits)
    qed
  qed
  moreover have "\<not> worker_done p" "\<not> worker_done ?p'" using p by (auto simp: worker_done_def split: if_splits)
  ultimately show ?thesis
    using account_says [OF conjunct1 [OF says] acc, of ?p' "infos k t" ?x'] says ops by (simp add: s')
qed

end

text \<open>Outside lock calls.\<close>

lemma log_frames [simp]:
  "logger (lk (goto t p s)) = logger (lk s)" "logger (lk (set_info t f s)) = logger (lk s)"
  "logger (lk (enter_call t x s)) = logger (lk s)" "logger (lk (fetch_op t s)) = logger (lk s)"
  "logger (lk (refund_op t s)) = logger (lk s)"
  "logger (lk (worker_log t st w m s)) = log_record (infos (lk s) t) st w m (logger (lk s))"
  "logger (lk (worker_summary t s)) = log_summary (infos (lk s) t) (logger (lk s))"
  by (simp_all add: set_info_def enter_call_def fetch_op_def refund_op_def worker_log_def worker_summary_def Let_def)

text \<open>The last action of a worker: a record and the summary.\<close>

lemma account_ends:
  assumes "says t g sts g'" and "worker_account L target t p x i old"
    and "\<not> worker_done p" "worker_done p'" "ti_tid j = int t + 1" "0 \<le> ti_opsCompleted j"
    and "life L target p' x' (ti_opsCompleted j) (states_logged old @ sts)"
  shows "\<exists>cs. log_summary j g' = log_calls cs g \<and> worker_account L target t p' x' j (old @ cs)"
proof -
  obtain cs where cs: "g' = log_calls cs g" "list_all (own_call t) cs" "states_logged cs = sts" "summaries cs = []"
    using assms(1) by (auto simp: says_def)
  have "log_calls (cs @ [CallSummary j]) g = log_summary j g'" using cs(1) by (simp add: log_calls_def)
  moreover have "worker_account L target t p' x' j (old @ cs @ [CallSummary j])"
    using assms(2-) cs(2-) by (auto simp: worker_account_def summary_of_def same_identity_def)
  ultimately show ?thesis by metis
qed

context logging_lock
begin

lemma reader_account:
  assumes act: "readerThread L t w p s = Done s'" and coh: "coherent READER p (phase (lk s) t)"
    and at: "points s t = p" and acc: "worker_account L False t p (phase (lk s) t) (infos (lk s) t) old"
  shows "\<exists>cs. logger (lk s') = log_calls cs (logger (lk s))
    \<and> worker_account L False t (points s' t) (phase (lk s') t) (infos (lk s') t) (old @ cs)"
proof -
  let ?i = "infos (lk s) t"
  have id: "ti_tid ?i = int t + 1" and ops: "0 \<le> ti_opsCompleted ?i"
    and life: "life L False p (phase (lk s) t) (ti_opsCompleted ?i) (states_logged old)"
    using acc by (simp_all add: worker_account_def)
  consider (lock) "p = W_in_lock" | (unlock) "p = W_in_unlock" | (init) "p = W_init" | (finish) "p = W_finish"
    | (other) "p \<noteq> W_in_lock" "p \<noteq> W_in_unlock" "p \<noteq> W_init" "p \<noteq> W_finish" by blast
  then show ?thesis
  proof cases
    case lock
    then have "in_lock_call L t w Reading W_read p s = Done s'" using act by simp
    then show ?thesis by (rule call_account [OF _ coh _ acc]) (simp add: lock)
  next
    case unlock
    then have "in_lock_call L t w Outside W_fetch p s = Done s'" using act by simp
    then show ?thesis by (rule call_account [OF _ coh _ acc]) (simp add: unlock)
  next
    case init
    have "says t (logger (lk s)) [INIT] (logger (lk s'))" using act id by (auto simp: init)
    from account_says [OF this acc, of "points s' t" "infos (lk s') t" "phase (lk s') t"] show ?thesis
      using act id ops life by (auto simp: init worker_done_def life_def after_rounds_def first_records_def)
  next
    case finish
    from account_ends [OF _ acc, of "logger (lk s)" "[DONE]" _ W_exit "infos (lk s') t" "phase (lk s') t"] show ?thesis
      using act id ops life by (auto simp: finish worker_done_def life_def after_rounds_def first_records_def)
  next
    case other
    have "says t (logger (lk s)) [] (logger (lk s'))" using act other by (cases p) (auto split: if_splits)
    moreover have "\<not> at_entry L (phase (lk s) t)" using coherent_entry [OF coh other(1)] .
    ultimately show ?thesis
      using account_says [OF _ acc, of "logger (lk s)" "[]" "logger (lk s')" "points s' t" "infos (lk s') t" "phase (lk s') t"]
        act id ops life other
      by (cases p) (auto simp: worker_done_def life_def after_rounds_def first_records_def complete_op_def)
  qed
qed

lemma writer_account:
  assumes act: "writerThread L target t w p s = Done s'" and coh: "coherent WRITER p (phase (lk s) t)"
    and at: "points s t = p" and acc: "worker_account L target t p (phase (lk s) t) (infos (lk s) t) old"
  shows "\<exists>cs. logger (lk s') = log_calls cs (logger (lk s))
    \<and> worker_account L target t (points s' t) (phase (lk s') t) (infos (lk s') t) (old @ cs)"
proof -
  let ?i = "infos (lk s) t"
  have id: "ti_tid ?i = int t + 1" and ops: "0 \<le> ti_opsCompleted ?i"
    and life: "life L target p (phase (lk s) t) (ti_opsCompleted ?i) (states_logged old)"
    using acc by (simp_all add: worker_account_def)
  consider (lock) "p = W_in_lock" | (unlock) "p = W_in_unlock" | (abort) "p = W_in_abort_unlock"
    | (init) "p = W_init" | (top) "p = W_top" | (finish) "p = W_finish \<or> p = W_abort_exit"
    | (other) "p \<noteq> W_in_lock" "p \<notin> {W_in_unlock, W_in_abort_unlock, W_init, W_top, W_finish, W_abort_exit}" by blast
  then show ?thesis
  proof cases
    case lock
    then have "in_lock_call L t w Writing W_locked p s = Done s'" using act by simp
    then show ?thesis by (rule call_account [OF _ coh _ acc]) (simp add: lock)
  next
    case unlock
    then have "in_lock_call L t w Outside W_top p s = Done s'" using act by simp
    then show ?thesis by (rule call_account [OF _ coh _ acc]) (simp add: unlock)
  next
    case abort
    then have "in_lock_call L t w Outside W_abort_exit p s = Done s'" using act by simp
    then show ?thesis by (rule call_account [OF _ coh _ acc]) (simp add: abort)
  next
    case init
    have "says t (logger (lk s)) (first_records target) (logger (lk s'))"
      using act id by (auto simp: init first_records_def Let_def)
    from account_says [OF this acc, of "points s' t" "infos (lk s') t" "phase (lk s') t"] show ?thesis
      using act id ops life by (auto simp: init worker_done_def life_def after_rounds_def Let_def)
  next
    case top
    have "says t (logger (lk s)) (if target \<and> abortSignal s then [DONE] else []) (logger (lk s'))"
      using act id by (auto simp: top split: if_splits)
    from account_says [OF this acc, of "points s' t" "infos (lk s') t" "phase (lk s') t"] show ?thesis
      using act id ops life by (auto simp: top worker_done_def life_def after_rounds_def split: if_splits)
  next
    case finish
    then show ?thesis
    proof
      assume p: "p = W_finish"
      from account_ends [OF _ acc, of "logger (lk s)" "[DONE]" _ W_exit "infos (lk s') t" "phase (lk s') t"] show ?thesis
        using act id ops life by (auto simp: p worker_done_def life_def after_rounds_def split: if_splits)
    next
      assume p: "p = W_abort_exit"
      from account_ends [OF _ acc, of "logger (lk s)" "[DONE]" _ W_aborted "infos (lk s') t" "phase (lk s') t"] show ?thesis
        using act id ops life by (auto simp: p worker_done_def life_def after_rounds_def split: if_splits)
    qed
  next
    case other
    have "says t (logger (lk s)) [] (logger (lk s'))" using act other by (cases p) (auto split: if_splits)
    moreover have "\<not> at_entry L (phase (lk s) t)" using coherent_entry [OF coh other(1)] .
    ultimately show ?thesis
      using account_says [OF _ acc, of "logger (lk s)" "[]" "logger (lk s')" "points s' t" "infos (lk s') t" "phase (lk s') t"]
        act id ops life other
      by (cases p) (auto simp: worker_done_def life_def after_rounds_def complete_op_def split: if_splits)
  qed
qed

text \<open>Whatever a created worker does, its log goes on as its life does.\<close>

lemma act_account:
  assumes act: "worker_act L cfg t w s = Done s'" and created: "points s t \<noteq> W_new"
    and coh: "coherent (arg_type (thread_arg cfg t)) (points s t) (phase (lk s) t)"
    and acc: "worker_account L (arg_isAbortTarget (thread_arg cfg t)) t (points s t) (phase (lk s) t) (infos (lk s) t) old"
  obtains cs where "logger (lk s') = log_calls cs (logger (lk s))"
    and "worker_account L (arg_isAbortTarget (thread_arg cfg t)) t (points s' t) (phase (lk s') t) (infos (lk s') t) (old @ cs)"
proof -
  have "arg_type (thread_arg cfg t) = READER \<Longrightarrow> \<not> arg_isAbortTarget (thread_arg cfg t)"
    by (simp add: thread_arg_def split: if_splits)
  then have "\<exists>cs. logger (lk s') = log_calls cs (logger (lk s))
    \<and> worker_account L (arg_isAbortTarget (thread_arg cfg t)) t (points s' t) (phase (lk s') t) (infos (lk s') t) (old @ cs)"
    using act created coh acc reader_account writer_account
    by (cases "arg_type (thread_arg cfg t)") (auto simp: worker_act_def split: if_splits)
  then show thesis using that by blast
qed

end

end
