(* ===== verification/Run_Log.thy ===== *)
theory Run_Log
  imports Run_Benchmark Worker_Log
begin

text \<open>
  What the log of a simulation says: the calls of all threads as one history, begun by the main thread's
  header and ended by its footer, in which each worker's calls are its life, and the watchdog's are one alert
  for each starvation event.
\<close>

section \<open>The account\<close>

text \<open>Workers sign with their index, the main thread with \<open>n\<close>, the watchdog with \<open>n + 1\<close>.\<close>

definition main_calls :: "SimConfig \<Rightarrow> main_point \<Rightarrow> log_call list" where
  "main_calls cfg m = (case m of
       M_header \<Rightarrow> []
     | M_returned r \<Rightarrow> [CallHeader (simulation_header cfg), CallHeader (simulation_footer r)]
     | _ \<Rightarrow> [CallHeader (simulation_header cfg)])"

fun alert_of :: "tid \<Rightarrow> log_call \<Rightarrow> bool" where
  "alert_of t (CallAlert i waitMs) \<longleftrightarrow> ti_tid i = int t + 1"
| "alert_of t _ \<longleftrightarrow> False"

definition alerts :: "tid \<Rightarrow> log_call list \<Rightarrow> int" where
  "alerts t cs = int (length (filter (alert_of t) cs))"

text \<open>An event the record of thread \<open>t\<close> counts and that is still to be logged.\<close>

definition unreported :: "watchdog_point \<Rightarrow> tid \<Rightarrow> int" where
  "unreported p t = (case p of WD_event k waitMs \<Rightarrow> of_bool (k = t) | WD_alert k waitMs \<Rightarrow> of_bool (k = t) | _ \<Rightarrow> 0)"

definition dog_account :: "nat \<Rightarrow> watchdog_point \<Rightarrow> (tid \<Rightarrow> ThreadInfo) \<Rightarrow> log_call list \<Rightarrow> bool" where
  "dog_account n p is cs \<longleftrightarrow> (\<forall>c \<in> set cs. \<exists>t < n. alert_of t c)
     \<and> (\<forall>t < n. alerts t cs + unreported p t = ti_starveCount (is t))"

abbreviation is_target :: "SimConfig \<Rightarrow> tid \<Rightarrow> bool" where
  "is_target cfg t \<equiv> arg_isAbortTarget (thread_arg cfg t)"

definition run_account :: "('l, 'p) RWLockBase \<Rightarrow> SimConfig \<Rightarrow> Logger \<Rightarrow> history \<Rightarrow> ('l, 'p) program \<Rightarrow> bool" where
  "run_account L cfg g h x \<longleftrightarrow> logged g h (logger (lk (sim_of x)))
     \<and> (\<forall>t < num_threads cfg. worker_account L (is_target cfg t) t (points (sim_of x) t) (phase (lk (sim_of x)) t)
          (infos (lk (sim_of x)) t) (calls_of t h))
     \<and> calls_of (num_threads cfg) h = main_calls cfg (main_at x)
     \<and> dog_account (num_threads cfg) (dog_at x) (infos (lk (sim_of x))) (calls_of (num_threads cfg + 1) h)"

text \<open>Before the header there is nothing, after the footer nothing more.\<close>

definition run_framed :: "SimConfig \<Rightarrow> history \<Rightarrow> main_point \<Rightarrow> bool" where
  "run_framed cfg h m \<longleftrightarrow> (m = M_header \<longrightarrow> h = [])
     \<and> (m \<noteq> M_header \<longrightarrow> (\<exists>w h'. h = (num_threads cfg, w, CallHeader (simulation_header cfg)) # h'))
     \<and> (\<forall>r. m = M_returned r \<longrightarrow> (\<exists>w h'. h = h' @ [(num_threads cfg, w, CallHeader (simulation_footer r))]))"

lemma run_framed_append:
  "run_framed cfg h m \<Longrightarrow> m \<noteq> M_header \<Longrightarrow> \<forall>r. m \<noteq> M_returned r \<Longrightarrow> run_framed cfg (h @ h') m"
  by (auto simp: run_framed_def)

section \<open>It is kept\<close>

lemma account_start: "run_account L cfg g [] (program_start l0 cfg g)"
  by (auto simp: run_account_def program_start_def sim_start_def lock_start_def logged_Nil worker_account_def
      worker_done_def life_def initial_info_def default_ThreadInfo_def main_calls_def dog_account_def alerts_def unreported_def)

lemma worker_account_cong:
  assumes "worker_account L target t p x i cs" and "watchdog_may_change i j" and "ti_starveCount i \<le> ti_starveCount j"
  shows "worker_account L target t p x j cs"
proof -
  have "same_identity i j" by (rule may_change_identity [OF assms(2)])
  moreover have "ti_opsCompleted j = ti_opsCompleted i" "ti_totalWaitMs j = ti_totalWaitMs i"
    using assms(2) by (auto simp: watchdog_may_change_def dest: arg_cong [where f = ti_opsCompleted] arg_cong [where f = ti_totalWaitMs])
  ultimately show ?thesis
    using assms(1,3) by (fastforce simp: worker_account_def summary_of_def same_identity_def)
qed

lemma alerts_simps [simp]:
  "alerts t [] = 0" "alerts t (cs @ ds) = alerts t cs + alerts t ds"
  "alerts t (c # cs) = of_bool (alert_of t c) + alerts t cs"
  by (simp_all add: alerts_def)

context logging_lock
begin

lemma worker_run_account:
  assumes cfg: "valid_cfg cfg" and inv: "program_inv L l0 cfg g0 x"
    and created: "points (sim_of x) t \<noteq> W_new" and act: "worker_act L cfg t w (sim_of x) = Done s"
    and acc: "run_account L cfg g h x" and frm: "run_framed cfg h (main_at x)"
    and x': "x' = x\<lparr>sim_of := elapse s, waits := note_wait L (phase (lk (sim_of x)) t) t (waits x)\<rparr>"
  shows "\<exists>h'. run_account L cfg g h' x' \<and> run_framed cfg h' (main_at x')"
proof -
  let ?s = "sim_of x" and ?n = "num_threads cfg"
  have "reachable (sim_start l0 cfg g0) (sim_step L cfg) ?s" using inv by (simp add: program_inv_def)
  note sim = sim_inv_reachable [OF cfg this]
  note pts = act_points [OF act]
  note coh = sim_inv_facts(2) [OF sim]
  note eff = act_effect [OF act coh]
  have others: "u \<noteq> t \<Longrightarrow> points s u = points ?s u \<and> phase (lk s) u = phase (lk ?s) u
      \<and> infos (lk s) u = infos (lk ?s) u" for u
    by (rule worker_act_effect(4) [OF act sim])
  have "worker_account L (is_target cfg t) t (points ?s t) (phase (lk ?s) t) (infos (lk ?s) t) (calls_of t h)"
    using acc pts(1) by (simp add: run_account_def)
  from act_account [OF act created coh this] obtain cs where cs: "logger (lk s) = log_calls cs (logger (lk ?s))"
    "worker_account L (is_target cfg t) t (points s t) (phase (lk s) t) (infos (lk s) t) (calls_of t h @ cs)" .
  let ?h = "h @ at_clock t (lg_wall (logger (lk ?s))) cs"
  have starve: "ti_starveCount (infos (lk s) u) = ti_starveCount (infos (lk ?s) u)" for u
    using eff others [of u] by (cases "u = t") (auto simp: record_effect_def enterWaiting_def split: if_splits)
  have "run_account L cfg g ?h x'"
    unfolding run_account_def
  proof (intro conjI allI impI)
    show "logged g ?h (logger (lk (sim_of x')))" using acc logged_calls cs(1) by (simp add: x' run_account_def)
    show "worker_account L (is_target cfg u) u (points (sim_of x') u) (phase (lk (sim_of x')) u)
        (infos (lk (sim_of x')) u) (calls_of u ?h)" if "u < ?n" for u
      using acc that cs(2) others [of u] by (cases "u = t") (simp_all add: x' run_account_def)
    show "calls_of ?n ?h = main_calls cfg (main_at x')" using acc pts(1) by (simp add: x' run_account_def)
    show "dog_account ?n (dog_at x') (infos (lk (sim_of x'))) (calls_of (?n + 1) ?h)"
      using acc pts(1) starve by (simp add: x' run_account_def dog_account_def)
  qed
  moreover have "main_at x \<noteq> M_header" using inv created by (auto simp: program_inv_def not_started_def dog_refined_def)
  moreover have "main_at x \<noteq> M_returned r" for r
    using inv pts(1,2) by (auto simp: program_inv_def main_inv_def all_returned_def)
  ultimately show ?thesis using run_framed_append [OF frm] by (intro exI [of _ ?h]) (simp add: x')
qed

end

lemma worker_account_init:
  "worker_account L target t W_new x i cs \<Longrightarrow> worker_account L target t W_init x i cs"
  by (simp add: worker_account_def life_def worker_done_def)

text \<open>A step of another thread that logs \<open>cs\<close>, and neither moves a worker, but for its creation, nor writes a record.\<close>

lemma run_account_main:
  assumes acc: "run_account L cfg g h x"
    and log: "logger (lk (sim_of x')) = log_calls cs (logger (lk (sim_of x)))"
    and same: "phase (lk (sim_of x')) = phase (lk (sim_of x))" "infos (lk (sim_of x')) = infos (lk (sim_of x))"
      "\<And>t. points (sim_of x') t = points (sim_of x) t \<or> points (sim_of x') t = W_init \<and> points (sim_of x) t = W_new"
    and calls: "main_calls cfg (main_at x') = main_calls cfg (main_at x) @ cs"
    and dog: "unreported (dog_at x') = unreported (dog_at x)"
  shows "run_account L cfg g (h @ at_clock (num_threads cfg) (lg_wall (logger (lk (sim_of x)))) cs) x'"
  unfolding run_account_def
proof (intro conjI allI impI)
  let ?h = "h @ at_clock (num_threads cfg) (lg_wall (logger (lk (sim_of x)))) cs"
  show "logged g ?h (logger (lk (sim_of x')))" using acc logged_calls log by (simp add: run_account_def)
  show "worker_account L (is_target cfg t) t (points (sim_of x') t) (phase (lk (sim_of x')) t)
      (infos (lk (sim_of x')) t) (calls_of t ?h)" if "t < num_threads cfg" for t
  proof -
    have "worker_account L (is_target cfg t) t (points (sim_of x) t) (phase (lk (sim_of x)) t) (infos (lk (sim_of x)) t)
        (calls_of t h)" using acc that by (simp add: run_account_def)
    then show ?thesis using that same(3) [of t] worker_account_init by (fastforce simp: same(1,2))
  qed
  show "calls_of (num_threads cfg) ?h = main_calls cfg (main_at x')" using acc calls by (simp add: run_account_def)
  show "dog_account (num_threads cfg) (dog_at x') (infos (lk (sim_of x'))) (calls_of (num_threads cfg + 1) ?h)"
    using acc dog by (simp add: run_account_def dog_account_def same)
qed

lemma unreported_simps [simp]:
  "unreported WD_not_started t = 0" "unreported WD_test t = 0" "unreported WD_sleep t = 0" "unreported (WD_load k) t = 0"
  "unreported (WD_wait k) t = 0" "unreported (WD_block k w) t = 0" "unreported (WD_count k w) t = 0"
  "unreported (WD_event k w) t = of_bool (k = t)" "unreported (WD_alert k w) t = of_bool (k = t)"
  "unreported WD_unlock t = 0" "unreported WD_returned t = 0"
  by (simp_all add: unreported_def)

lemma main_run_account:
  assumes act: "main_act cfg rc usage (main_at x) x = Some x'" and main: "main_inv cfg x"
    and dog: "not_started cfg x \<or> dog_refined cfg x"
    and acc: "run_account L cfg g h x" and frm: "run_framed cfg h (main_at x)"
  shows "\<exists>h'. run_account L cfg g h' x' \<and> run_framed cfg h' (main_at x')"
proof -
  note frame = main_act_frame [OF act main]
  have go: "\<exists>h'. run_account L cfg g h' x' \<and> run_framed cfg h' (main_at x')"
    if "logger (lk (sim_of x')) = log_calls cs (logger (lk (sim_of x)))"
      "main_calls cfg (main_at x') = main_calls cfg (main_at x) @ cs" "unreported (dog_at x') = unreported (dog_at x)"
      "run_framed cfg (h @ at_clock (num_threads cfg) (lg_wall (logger (lk (sim_of x)))) cs) (main_at x')" for cs
    using run_account_main [OF acc that(1) _ _ _ that(2,3)] frame that(4) by blast
  from act show ?thesis
  proof (cases rule: main_act_cases)
    case header
    show ?thesis
      by (rule go [of "[CallHeader (simulation_header cfg)]"])
         (use header frm in \<open>simp_all add: main_log_def Let_def main_calls_def run_framed_def del: split_paired_Ex\<close>)
  next
    case (report r)
    show ?thesis
      by (rule go [of "[CallHeader (simulation_footer r)]"])
         (use report frm in \<open>auto simp: main_log_def Let_def main_calls_def run_framed_def simp del: split_paired_Ex\<close>)
  next
    case (start d)
    have "dog_at x = WD_not_started" using start(1) dog by (auto simp: not_started_def dog_refined_def)
    then show ?thesis
      by (intro go [of "[]"]) (use start frm in \<open>auto simp: main_calls_def run_framed_def fun_eq_iff\<close>)
  qed (rule go [of "[]"]; use frm in \<open>auto simp: main_calls_def run_framed_def\<close>)+
qed

text \<open>An action of the watchdog: what it logs, it has counted.\<close>

lemma entry_simps [simp]:
  "unreported (wd_point (wd_entry k d)) t = 0" "wd_logger (wd_entry k d) = wd_logger d"
  "wd_registry (wd_entry k d) = wd_registry d"
  by (simp_all add: wd_entry_def)

lemma Watchdog_run_log:
  assumes run: "Watchdog_run n p d = Some d'"
    and idx: "\<And>k. scan_index p = Some k \<Longrightarrow> k < length (wd_registry d)"
    and id: "\<And>k. k < length (wd_registry d) \<Longrightarrow> ti_tid (wd_registry d ! k) = int k + 1"
  shows "\<exists>cs. wd_logger d' = log_calls cs (wd_logger d)
     \<and> (\<forall>c \<in> set cs. \<exists>t < length (wd_registry d). alert_of t c)
     \<and> (\<forall>t < length (wd_registry d).
          alerts t cs + unreported (wd_point d') t + ti_starveCount (wd_registry d ! t)
            = unreported p t + ti_starveCount (wd_registry d' ! t)
        \<and> ti_starveCount (wd_registry d ! t) \<le> ti_starveCount (wd_registry d' ! t))"
proof (cases "\<exists>k waited. p = WD_alert k waited")
  case True
  then obtain k waited where p: "p = WD_alert k waited" by blast
  then have "k < length (wd_registry d)" using idx by (simp add: scan_index_def)
  with run id [OF this] show ?thesis
    by (intro exI [of _ "[CallAlert (wd_registry d ! k) waited]"]) (auto simp: p)
next
  case False
  with run idx show ?thesis
    by (intro exI [of _ "[]"]) (cases p; auto simp: Let_def scan_index_def nth_list_update split: if_splits)
qed

lemma dog_run_account:
  assumes run: "Watchdog_run n (dog_at x) (dog_view cfg x) = Some d"
    and dog: "not_started cfg x \<or> dog_refined cfg x" and main: "main_inv cfg x" and status: "status_inv L cfg (sim_of x)"
    and acc: "run_account L cfg g h x" and frm: "run_framed cfg h (main_at x)"
  shows "\<exists>h'. run_account L cfg g h' (put_dog d x) \<and> run_framed cfg h' (main_at (put_dog d x))"
proof -
  let ?n = "num_threads cfg" and ?is = "infos (lk (sim_of x))" and ?js = "write_records (wd_registry d) (infos (lk (sim_of x)))"
  have idx: "\<And>k. scan_index (dog_at x) = Some k \<Longrightarrow> k < length (wd_registry (dog_view cfg x))"
    using dog_index [OF dog] by simp
  note frame = Watchdog_run_frame [OF run _ idx, simplified]
  have id: "ti_tid (?is t) = int t + 1" for t
    using status by (simp add: status_inv_def same_identity_def initial_info_def)
  from Watchdog_run_log [OF run idx] id obtain cs where
    cs: "wd_logger d = log_calls cs (logger (lk (sim_of x)))" "\<forall>c \<in> set cs. \<exists>t < ?n. alert_of t c"
    and count: "\<And>t. t < ?n \<Longrightarrow> alerts t cs + unreported (wd_point d) t + ti_starveCount (?is t)
        = unreported (dog_at x) t + ti_starveCount (?js t)"
    and more: "\<And>t. t < ?n \<Longrightarrow> ti_starveCount (?is t) \<le> ti_starveCount (?js t)"
    by (auto simp: write_records_def frame(1))
  let ?h = "h @ at_clock (?n + 1) (lg_wall (logger (lk (sim_of x)))) cs"
  have "run_account L cfg g ?h (put_dog d x)"
    unfolding run_account_def
  proof (intro conjI allI impI)
    show "logged g ?h (logger (lk (sim_of (put_dog d x))))"
      using acc logged_calls [of g h] cs(1) by (simp add: run_account_def)
    show "worker_account L (is_target cfg t) t (points (sim_of (put_dog d x)) t) (phase (lk (sim_of (put_dog d x))) t)
        (infos (lk (sim_of (put_dog d x))) t) (calls_of t ?h)" if t: "t < ?n" for t
    proof -
      have "watchdog_may_change (?is t) (?js t)" using frame(1) frame(7) [of t] t by (simp add: write_records_def)
      then show ?thesis using acc t more [OF t] worker_account_cong by (fastforce simp: run_account_def)
    qed
    show "calls_of ?n ?h = main_calls cfg (main_at (put_dog d x))" using acc by (simp add: run_account_def)
    have "alerts t (calls_of (?n + 1) h) + unreported (dog_at x) t = ti_starveCount (?is t)" if "t < ?n" for t
      using acc that by (simp add: run_account_def dog_account_def)
    then have "alerts t (calls_of (?n + 1) h @ cs) + unreported (wd_point d) t = ti_starveCount (?js t)" if "t < ?n" for t
      using that count [OF that] by fastforce
    then show "dog_account ?n (dog_at (put_dog d x)) (infos (lk (sim_of (put_dog d x)))) (calls_of (?n + 1) ?h)"
      using acc cs(2) by (auto simp: run_account_def dog_account_def)
  qed
  moreover have "main_at x \<noteq> M_header" using dog frame(5) by (auto simp: not_started_def dog_refined_def)
  moreover have "main_at x \<noteq> M_returned r" for r
    using main run by (auto simp: main_inv_def)
  ultimately show ?thesis using run_framed_append [OF frm] by (intro exI [of _ ?h]) simp
qed

context logging_lock
begin

lemma step_run_account:
  assumes cfg: "valid_cfg cfg" and inv: "program_inv L l0 cfg g0 x" and step: "program_step L cfg x x'"
    and acc: "run_account L cfg g h x" and frm: "run_framed cfg h (main_at x)"
  shows "\<exists>h'. run_account L cfg g h' x' \<and> run_framed cfg h' (main_at x')"
  using step
proof (cases rule: program_step.cases)
  case (worker t w s)
  show ?thesis by (rule worker_run_account [OF cfg inv worker(2,3) acc frm worker(1)])
next
  case (main rc usage)
  then show ?thesis using inv acc frm by (intro main_run_account [OF main(1)]) (simp_all add: program_inv_def)
next
  case (dog d)
  then show ?thesis
    using inv acc frm unfolding dog(1) by (intro dog_run_account [OF dog(2)]) (simp_all add: program_inv_def)
next
  case sigusr1
  then show ?thesis using acc frm by (intro exI [of _ h]) (simp add: run_account_def)
next
  case (tick n n' c)
  then show ?thesis
    using acc frm logged_wall [of g h] by (intro exI [of _ h]) (simp add: run_account_def)
qed

lemma run_account_reachable:
  assumes cfg: "valid_cfg cfg" and "reachable (program_start l0 cfg g) (program_step L cfg) x"
  shows "\<exists>h. run_account L cfg g h x \<and> run_framed cfg h (main_at x)"
  using assms(2)
proof (induction rule: reachable.induct)
  case reachable_init
  show ?case using account_start [of L cfg g l0] by (intro exI [of _ "[]"]) (simp add: program_start_def run_framed_def)
next
  case (reachable_step s s')
  then show ?case using step_run_account [OF cfg program_inv_reachable [OF cfg reachable_step(1)]] by blast
qed

end

section \<open>The log of a finished run\<close>

lemma alerts_sum:
  assumes "\<forall>c \<in> set cs. \<exists>t < n. alert_of t c"
  shows "(\<Sum>t<n. alerts t cs) = int (length cs)"
  using assms
proof (induction cs)
  case (Cons c cs)
  then obtain u where u: "u < n" "alert_of u c" by auto
  then have "of_bool (alert_of t c) = (if t = u then 1 else 0 :: int)" for t by (cases c) auto
  then have "(\<Sum>t<n. of_bool (alert_of t c)) = (1 :: int)" using u(1) by simp
  then show ?case using Cons by (simp add: sum.distrib)
qed simp

lemma calls_of_Cons [simp]: "calls_of a ((b, w, c) # h) = (if b = a then [c] else []) @ calls_of a h"
  by (simp add: calls_of_def)

text \<open>What a worker has logged when it has ended after \<open>ops\<close> operations.\<close>

definition whole_life :: "bool \<Rightarrow> int \<Rightarrow> ThreadState list \<Rightarrow> bool" where
  "whole_life target ops ss \<longleftrightarrow>
     (\<exists>e \<in> (if target then {[DONE], [DONE, DONE], [WAITING, ACTIVE, RELEASING, DONE]} else {[DONE]}).
        ss = first_records target @ rounds ops @ e)"

lemma life_done: "life L target p x ops ss \<Longrightarrow> worker_done p \<Longrightarrow> whole_life target ops ss"
  by (auto simp: life_def whole_life_def worker_done_def after_rounds_def split: if_splits)

text \<open>
  What the logger has got from a run that ended with the records \<open>is\<close> and the result \<open>r\<close>: \<open>mid\<close> are the calls
  between header and footer.
\<close>

definition run_log ::
    "SimConfig \<Rightarrow> (tid \<Rightarrow> ThreadInfo) \<Rightarrow> MetricsResult \<Rightarrow> history \<Rightarrow> history \<Rightarrow> bool" where
  "run_log cfg is r h mid \<longleftrightarrow> (let n = num_threads cfg in
       (\<exists>w w'. h = (n, w, CallHeader (simulation_header cfg)) # mid @ [(n, w', CallHeader (simulation_footer r))])
     \<and> calls_of n mid = []
     \<and> (\<forall>t < n. list_all (own_call t) (calls_of t mid)
          \<and> whole_life (is_target cfg t) (ti_opsCompleted (is t)) (states_logged (calls_of t mid))
          \<and> (\<exists>cs j. calls_of t mid = cs @ [CallSummary j] \<and> summaries cs = [] \<and> summary_of j (is t)))
     \<and> (\<forall>t < n. alerts t (calls_of (n + 1) mid) = ti_starveCount (is t))
     \<and> int (length (calls_of (n + 1) mid)) = mr_starvationCount r)"

definition log_accounts :: "('l, 'p) RWLockBase \<Rightarrow> 'l \<Rightarrow> SimConfig \<Rightarrow> bool" where
  "log_accounts L l0 cfg \<longleftrightarrow> (\<forall>g x r. reachable (program_start l0 cfg g) (program_step L cfg) x \<longrightarrow>
     main_at x = M_returned r \<longrightarrow>
     (\<exists>h mid. run_log cfg (infos (lk (sim_of x))) r h mid
        \<and> lg_stdout (logger (lk (sim_of x))) = lg_stdout g @ lines_of (lg_level g) h
        \<and> lg_file (logger (lk (sim_of x))) = map_option (\<lambda>f. f @ lines_of (lg_level g) h) (lg_file g)
        \<and> lg_level (logger (lk (sim_of x))) = lg_level g))"

context logging_lock
begin

lemma accounts_for:
  assumes cfg: "valid_cfg cfg"
  shows "log_accounts L l0 cfg"
  unfolding log_accounts_def
proof (intro allI impI)
  fix g x r assume reach: "reachable (program_start l0 cfg g) (program_step L cfg) x" and m: "main_at x = M_returned r"
  let ?n = "num_threads cfg" and ?is = "infos (lk (sim_of x))"
  obtain h where acc: "run_account L cfg g h x" and frm: "run_framed cfg h (main_at x)"
    using run_account_reachable [OF cfg reach] by blast
  note inv = program_inv_reachable [OF cfg reach]
  have fin: "dog_at x = WD_returned" "all_returned cfg (sim_of x)"
    and r: "r = simulation_result cfg (sim_of x) (real_of_int (wall_end x - wall_start x) / 1000000)
        (usage_before x) (usage_after x)"
    using inv m by (simp_all add: program_inv_def main_inv_def)
  have ends: "\<exists>w rest. h = (?n, w, CallHeader (simulation_header cfg)) # rest"
    "\<exists>w' h0. h = h0 @ [(?n, w', CallHeader (simulation_footer r))]"
    using frm by (simp_all add: run_framed_def m del: split_paired_Ex)
  obtain w rest where rest: "h = (?n, w, CallHeader (simulation_header cfg)) # rest" using ends(1) by blast
  obtain w' h0 where h0: "h = h0 @ [(?n, w', CallHeader (simulation_footer r))]" using ends(2) by blast
  have two: "calls_of ?n h = [CallHeader (simulation_header cfg), CallHeader (simulation_footer r)]"
    using acc m by (simp add: run_account_def main_calls_def)
  have "h0 \<noteq> []" using two h0 by auto
  then obtain mid where h: "h = (?n, w, CallHeader (simulation_header cfg)) # mid @ [(?n, w', CallHeader (simulation_footer r))]"
    using rest h0 by (cases h0) auto
  have mid: "calls_of ?n mid = []" "a \<noteq> ?n \<Longrightarrow> calls_of a h = calls_of a mid" for a using two by (simp_all add: h)
  have dog: "\<forall>c \<in> set (calls_of (?n + 1) mid). \<exists>t < ?n. alert_of t c"
      "\<forall>t < ?n. alerts t (calls_of (?n + 1) mid) = ti_starveCount (?is t)"
    using acc mid(2) [of "?n + 1"] by (simp_all add: run_account_def dog_account_def fin(1))
  have total: "int (length (calls_of (?n + 1) mid)) = mr_starvationCount r"
    using alerts_sum [OF dog(1)] dog(2) by (simp add: r simulation_result_figures)
  have each: "list_all (own_call t) (calls_of t mid)
      \<and> whole_life (is_target cfg t) (ti_opsCompleted (?is t)) (states_logged (calls_of t mid))
      \<and> (\<exists>cs j. calls_of t mid = cs @ [CallSummary j] \<and> summaries cs = [] \<and> summary_of j (?is t))" if t: "t < ?n" for t
  proof -
    have ended: "worker_done (points (sim_of x) t)" using fin(2) t by (simp add: all_returned_def)
    moreover have "worker_account L (is_target cfg t) t (points (sim_of x) t) (phase (lk (sim_of x)) t) (?is t) (calls_of t h)"
      using acc t by (simp add: run_account_def)
    then have "worker_account L (is_target cfg t) t (points (sim_of x) t) (phase (lk (sim_of x)) t) (?is t) (calls_of t mid)"
      using mid(2) [of t] t by simp
    ultimately show ?thesis using life_done by (auto simp: worker_account_def)
  qed
  have "logged g h (logger (lk (sim_of x)))" using acc by (simp add: run_account_def)
  moreover have "run_log cfg ?is r h mid"
    unfolding run_log_def Let_def using h mid(1) each dog(2) total by blast
  ultimately show "\<exists>h mid. run_log cfg ?is r h mid
      \<and> lg_stdout (logger (lk (sim_of x))) = lg_stdout g @ lines_of (lg_level g) h
      \<and> lg_file (logger (lk (sim_of x))) = map_option (\<lambda>f. f @ lines_of (lg_level g) h) (lg_file g)
      \<and> lg_level (logger (lk (sim_of x))) = lg_level g"
    using logged_lines by blast
qed

end

section \<open>Properties\<close>

text \<open>
  C12: The log is an exact account of the simulation, with any of the three algorithms and under every schedule.
  What \<open>runSimulation\<close> adds to the console, and to the log file if one is open, are the lines that pass the
  level among those of one history of calls.  The history begins with the header and ends with the footer,
  which shows the result.  In between each worker logs, under its own id, \<open>INIT\<close>, then exactly \<open>WAITING\<close>,
  \<open>ACTIVE\<close>, \<open>RELEASING\<close> for each operation its record counts, then \<open>DONE\<close>, then one summary with its final
  operations and waits (the writer of the abort test has a second \<open>INIT\<close> and the variants of its three exits).
  The watchdog logs exactly one alert for each starvation event of each record, as many as the result reports;
  only the starvation count in a summary can be behind.
\<close>

theorem run_log_exact:
  assumes "valid_cfg cfg"
  shows "log_accounts rp_class ReaderPriorityLock cfg \<and> log_accounts wp_class WriterPriorityLock cfg
       \<and> log_accounts fa_class FairMorrisLock cfg"
  using rp_log.accounts_for wp_log.accounts_for fa_log.accounts_for assms by blast

lemma run_log_exact_witness:
  "\<exists>x r h mid. reachable (program_start WriterPriorityLock small_cfg default_Logger) (program_step wp_class small_cfg) x
     \<and> main_at x = M_returned r \<and> run_log small_cfg (infos (lk (sim_of x))) r h mid
     \<and> lg_stdout (logger (lk (sim_of x))) = lines_of VERBOSE h"
proof -
  obtain k m x r where run: "program_run wp_class small_cfg k m (program_start WriterPriorityLock small_cfg default_Logger) x"
    and m: "main_at x = M_returned r" by (rule wp_run.returning_run [OF small_cfg_valid])
  have reach: "reachable (program_start WriterPriorityLock small_cfg default_Logger) (program_step wp_class small_cfg) x"
    by (rule program_run_reachable [OF run reachable_init])
  from run_log_exact [OF small_cfg_valid] reach m show ?thesis
    unfolding log_accounts_def by (fastforce simp: default_Logger_def)
qed

end
