(* ===== verification/Run_Main.thy ===== *)
theory Run_Main
  imports Run_Log Command_Line
begin

text \<open>
  The whole program: \<open>main\<close> over the simulations it really starts, one after the other on the same logger,
  each with the lock class its configuration names.
\<close>

section \<open>Simulations in a row\<close>

text \<open>One call of \<open>runSimulation\<close>, from the logger it finds to the result it returns and the logger it leaves.\<close>

definition runs_to ::
    "('l, 'p) RWLockBase \<Rightarrow> 'l \<Rightarrow> SimConfig \<Rightarrow> Logger \<Rightarrow> MetricsResult \<Rightarrow> Logger \<Rightarrow> bool" where
  "runs_to L l0 cfg g r g' \<longleftrightarrow>
     (\<exists>x. reachable (program_start l0 cfg g) (program_step L cfg) x \<and> main_at x = M_returned r
        \<and> logger (lk (sim_of x)) = g')"

definition simulation :: "SimConfig \<Rightarrow> Logger \<Rightarrow> MetricsResult \<Rightarrow> Logger \<Rightarrow> bool" where
  "simulation cfg g r g' =
     (case cfg_algo cfg of
        READER_PRIORITY \<Rightarrow> runs_to rp_class ReaderPriorityLock cfg g r g'
      | WRITER_PRIORITY \<Rightarrow> runs_to wp_class WriterPriorityLock cfg g r g'
      | FAIR_MORRIS \<Rightarrow> runs_to fa_class FairMorrisLock cfg g r g')"

fun simulation_series :: "SimConfig list \<Rightarrow> Logger \<Rightarrow> MetricsResult list \<Rightarrow> Logger \<Rightarrow> bool" where
  "simulation_series [] g rs g' \<longleftrightarrow> rs = [] \<and> g' = g"
| "simulation_series (c # cs) g rs g' \<longleftrightarrow>
     (\<exists>r rs1 g1. rs = r # rs1 \<and> simulation c g r g1 \<and> simulation_series cs g1 rs1 g')"

text \<open>The configurations \<open>main\<close> runs, in order: one, or five of each profile and algorithm.\<close>

definition started_cfgs :: "SimConfig \<Rightarrow> SimConfig list" where
  "started_cfgs cfg =
     (if cfg_benchmarkMode cfg
      then map (\<lambda>k. case cells ! (k div BENCHMARK_RUNS) of (p, a) \<Rightarrow> run_cfg cfg p a) [0..<BENCHMARK_RUNS * length cells]
      else [cfg])"

text \<open>
  A run of the program that ends: \<open>rs\<close> are the results of its simulations, \<open>g'\<close> is the logger after the last,
  and \<open>p\<close> is what the process leaves behind.
\<close>

definition main_run ::
    "bool \<Rightarrow> string \<Rightarrow> bool \<Rightarrow> string \<Rightarrow> string list \<Rightarrow> string option \<Rightarrow> MetricsResult list \<Rightarrow> Logger \<Rightarrow> process \<Rightarrow> bool" where
  "main_run can_log reason can_open prog args file rs g' p \<longleftrightarrow>
     (case parseCLI prog args of
        Inl _ \<Rightarrow> rs = [] \<and> g' = default_Logger
      | Inr cfg \<Rightarrow> simulation_series (started_cfgs cfg)
          (Logger_init can_log reason (cfg_logLevel cfg) (cfg_logFile cfg) default_Logger) rs g')
   \<and> p = main_program (\<lambda>k _. rs ! k) (\<lambda>_. g') can_log reason can_open prog args file"

section \<open>What a series leaves behind\<close>

definition run_lines :: "SimConfig \<Rightarrow> MetricsResult \<Rightarrow> LogLevel \<Rightarrow> string list \<Rightarrow> bool" where
  "run_lines cfg r lv ls \<longleftrightarrow> (\<exists>is h mid. run_log cfg is r h mid \<and> ls = lines_of lv h)"

lemma runs_to_can_return: "runs_to L l0 cfg g r g' \<Longrightarrow> can_return L l0 cfg r"
  by (auto simp: runs_to_def can_return_def)

lemma simulation_returns_result: "simulation cfg g r g' \<Longrightarrow> simulation_returns cfg r"
  by (auto simp: simulation_def simulation_returns_def runs_to_can_return split: AlgoType.splits)

definition log_grows :: "SimConfig \<Rightarrow> MetricsResult \<Rightarrow> Logger \<Rightarrow> string list \<Rightarrow> Logger \<Rightarrow> bool" where
  "log_grows cfg r g ls g' \<longleftrightarrow> run_lines cfg r (lg_level g) ls \<and> lg_level g' = lg_level g
     \<and> lg_stdout g' = lg_stdout g @ ls \<and> lg_file g' = map_option (\<lambda>f. f @ ls) (lg_file g)"

lemma log_accounts_grows:
  assumes "log_accounts L l0 cfg" and "runs_to L l0 cfg g r g'"
  shows "\<exists>ls. log_grows cfg r g ls g'"
proof -
  obtain x where x: "reachable (program_start l0 cfg g) (program_step L cfg) x" "main_at x = M_returned r"
    "g' = logger (lk (sim_of x))" using assms(2) by (auto simp: runs_to_def)
  then obtain h mid where "run_log cfg (infos (lk (sim_of x))) r h mid" "lg_stdout g' = lg_stdout g @ lines_of (lg_level g) h"
    "lg_file g' = map_option (\<lambda>f. f @ lines_of (lg_level g) h) (lg_file g)" "lg_level g' = lg_level g"
    using assms(1) unfolding log_accounts_def by blast
  then show ?thesis unfolding log_grows_def run_lines_def by blast
qed

lemma simulation_log:
  assumes "valid_cfg cfg" and "simulation cfg g r g'"
  shows "\<exists>ls. log_grows cfg r g ls g'"
  using assms(2) log_accounts_grows [OF rp_log.accounts_for [OF assms(1)]]
    log_accounts_grows [OF wp_log.accounts_for [OF assms(1)]] log_accounts_grows [OF fa_log.accounts_for [OF assms(1)]]
  by (cases "cfg_algo cfg") (simp_all add: simulation_def)

lemma series_length: "simulation_series cs g rs g' \<Longrightarrow> length rs = length cs"
  by (induction cs g rs g' rule: simulation_series.induct) auto

lemma series_nth:
  "simulation_series cs g rs g' \<Longrightarrow> k < length cs \<Longrightarrow> simulation_returns (cs ! k) (rs ! k)"
proof (induction cs arbitrary: g rs k)
  case (Cons c cs)
  then show ?case using simulation_returns_result by (cases k) auto
qed simp

lemma series_log:
  assumes "simulation_series cs g rs g'" and "\<forall>c \<in> set cs. valid_cfg c"
  shows "\<exists>lss. list_all2 (\<lambda>(c, r). run_lines c r (lg_level g)) (zip cs rs) lss
     \<and> lg_stdout g' = lg_stdout g @ concat lss \<and> lg_file g' = map_option (\<lambda>f. f @ concat lss) (lg_file g)"
  using assms
proof (induction cs arbitrary: g rs)
  case Nil
  then show ?case by (auto simp: option.map_ident intro: exI [of _ "[]"])
next
  case (Cons c cs)
  then obtain r rs1 g1 where rs: "rs = r # rs1" and one: "simulation c g r g1" and rest: "simulation_series cs g1 rs1 g'"
    by auto
  obtain ls where ls: "log_grows c r g ls g1" using simulation_log [OF _ one] Cons.prems(2) by auto
  obtain lss where lss: "list_all2 (\<lambda>(c, r). run_lines c r (lg_level g1)) (zip cs rs1) lss"
    "lg_stdout g' = lg_stdout g1 @ concat lss" "lg_file g' = map_option (\<lambda>f. f @ concat lss) (lg_file g1)"
    using Cons.IH [OF rest] Cons.prems(2) by auto
  show ?case
    by (rule exI [of _ "ls # lss"])
       (use ls lss in \<open>simp add: rs log_grows_def option.map_comp comp_def\<close>)
qed

text \<open>Any series of valid simulations can end.\<close>

lemma simulation_possible:
  assumes "valid_cfg cfg"
  shows "\<exists>r g'. simulation cfg g r g'"
proof (cases "cfg_algo cfg")
  case READER_PRIORITY
  obtain k m x r where "program_run rp_class cfg k m (program_start ReaderPriorityLock cfg g) x" "main_at x = M_returned r"
    by (rule rp_run.returning_run [OF assms])
  then show ?thesis
    using program_run_reachable [OF _ reachable_init] unfolding simulation_def runs_to_def READER_PRIORITY AlgoType.case by blast
next
  case WRITER_PRIORITY
  obtain k m x r where "program_run wp_class cfg k m (program_start WriterPriorityLock cfg g) x" "main_at x = M_returned r"
    by (rule wp_run.returning_run [OF assms])
  then show ?thesis
    using program_run_reachable [OF _ reachable_init] unfolding simulation_def runs_to_def WRITER_PRIORITY AlgoType.case by blast
next
  case FAIR_MORRIS
  obtain k m x r where "program_run fa_class cfg k m (program_start FairMorrisLock cfg g) x" "main_at x = M_returned r"
    by (rule fair_morris_may_return [OF assms])
  then show ?thesis
    using program_run_reachable [OF _ reachable_init] unfolding simulation_def runs_to_def FAIR_MORRIS AlgoType.case by blast
qed

lemma series_possible: "\<forall>c \<in> set cs. valid_cfg c \<Longrightarrow> \<exists>rs g'. simulation_series cs g rs g'"
proof (induction cs arbitrary: g)
  case (Cons c cs)
  obtain r g1 where "simulation c g r g1" using simulation_possible Cons.prems by fastforce
  moreover obtain rs g' where "simulation_series cs g1 rs g'" using Cons by fastforce
  ultimately show ?case by auto
next
  case Nil
  have "simulation_series [] g [] g" by simp
  then show ?case by blast
qed


section \<open>What main leaves behind\<close>

text \<open>The configurations whose results \<open>main\<close> shows: its own, or one for each profile and algorithm.\<close>

definition reported_cfgs :: "SimConfig \<Rightarrow> SimConfig list" where
  "reported_cfgs cfg = (if cfg_benchmarkMode cfg then map (\<lambda>(p, a). run_cfg cfg p a) cells else [cfg])"

definition runnable :: "SimConfig \<Rightarrow> bool" where
  "runnable cfg \<longleftrightarrow> cfg_benchmarkMode cfg \<or> valid_cfg cfg \<and> 0 < num_threads cfg"

lemma cells_index: "k < BENCHMARK_RUNS * length cells \<Longrightarrow> cells ! (k div BENCHMARK_RUNS) \<in> set cells"
  by (intro nth_mem) (simp add: BENCHMARK_RUNS_def length_cells)

lemma started_valid:
  assumes "runnable cfg" and "c \<in> set (started_cfgs cfg)"
  shows "valid_cfg c"
proof (cases "cfg_benchmarkMode cfg")
  case True
  then obtain k where k: "k < BENCHMARK_RUNS * length cells"
    "c = (case cells ! (k div BENCHMARK_RUNS) of (p, a) \<Rightarrow> run_cfg cfg p a)"
    using assms(2) by (auto simp: started_cfgs_def)
  then show ?thesis
    using cells_index [OF k(1)] run_cfg_valid(1) by (cases "cells ! (k div BENCHMARK_RUNS)") simp
qed (use assms in \<open>simp add: started_cfgs_def runnable_def\<close>)

lemma reported_plausible:
  assumes "runnable cfg" and series: "simulation_series (started_cfgs cfg) g rs g'"
  shows "\<exists>rows. list_all2 plausible (reported_cfgs cfg) rows
     \<and> rows = (if cfg_benchmarkMode cfg then cell_results (\<lambda>k _. rs ! k) cfg 0 cells else [rs ! 0])"
proof (cases "cfg_benchmarkMode cfg")
  case True
  have "list_all2 (\<lambda>(p, a) r. plausible (run_cfg cfg p a) r) cells (cell_results (\<lambda>k _. rs ! k) cfg 0 cells)"
  proof (rule benchmark_rows_plausible)
    fix k p a assume k: "k < 45" "cells ! (k div 5) = (p, a)"
    then have "started_cfgs cfg ! k = run_cfg cfg p a" "k < length (started_cfgs cfg)"
      using True by (simp_all add: started_cfgs_def BENCHMARK_RUNS_def length_cells)
    then show "simulation_returns (run_cfg cfg p a) (rs ! k)" using series_nth [OF series] by metis
  qed
  then show ?thesis using True by (simp add: reported_cfgs_def list.rel_map case_prod_unfold)
next
  case False
  have "simulation_returns cfg (rs ! 0)" using series_nth [OF series, of 0] False by (simp add: started_cfgs_def)
  then show ?thesis using simulation_plausible assms(1) False by (simp add: runnable_def reported_cfgs_def)
qed

lemma main_csv:
  assumes "parseCLI prog args = Inr cfg"
  shows "pr_status (main_program sims lg can_log reason can_open prog args file) = 0"
    and "pr_logger (main_program sims lg can_log reason can_open prog args file)
      = Logger_shutdown (lg (Logger_init can_log reason (cfg_logLevel cfg) (cfg_logFile cfg) default_Logger))"
    and "pr_csv (main_program sims lg can_log reason can_open prog args file)
      = (if cfg_csvOutput cfg \<noteq> '''' \<and> can_open
         then export_all (if cfg_benchmarkMode cfg then cell_results sims cfg 0 cells else [sims 0 cfg]) file else file)"
  by (auto simp: assms main_program_def Let_def runBenchmark_results runBenchmark_no_csv export_all_def exportCSV_def
      split: option.splits)

section \<open>Properties\<close>

text \<open>
  C11: The whole program, end to end.  When the command line asks for an exit, the process ends with that status
  and output and has touched neither the CSV file nor the logger.  Otherwise, if \<open>main\<close> gets through the one or 45
  simulations it starts (for a single one: with non-negative counts and at least one thread), it exits with
  status 0; the CSV file, if one was named and could be opened, has gained exactly the rows of results that are
  plausible for the configuration, or for each profile and algorithm; the logger has written one block of lines
  for each simulation, in order, each of them the exact account \<open>run_log\<close> of that simulation and its result; the
  log file, if one was named and could be opened, held the same lines when \<open>shutdown\<close> closed it.
\<close>

theorem main_run_exact:
  assumes "main_run can_log reason can_open prog args file rs g' p"
  shows "case parseCLI prog args of
      Inl (status, out, err) \<Rightarrow> pr_status p = status \<and> pr_out p = out \<and> pr_csv p = file \<and> pr_logger p = default_Logger
    | Inr cfg \<Rightarrow> runnable cfg \<longrightarrow> pr_status p = 0
        \<and> (\<exists>rows. list_all2 plausible (reported_cfgs cfg) rows
             \<and> pr_csv p = (if cfg_csvOutput cfg \<noteq> '''' \<and> can_open then export_all rows file else file))
        \<and> (\<exists>lss. list_all2 (\<lambda>(c, r). run_lines c r (cfg_logLevel cfg)) (zip (started_cfgs cfg) rs) lss
             \<and> length rs = length (started_cfgs cfg) \<and> lg_stdout (pr_logger p) = concat lss
             \<and> lg_file g' = (if cfg_logFile cfg \<noteq> '''' \<and> can_log then Some (concat lss) else None)
             \<and> lg_file (pr_logger p) = None)"
proof (cases "parseCLI prog args")
  case (Inl e)
  then show ?thesis using assms by (cases e) (simp add: main_run_def main_program_def)
next
  case (Inr cfg)
  let ?g = "Logger_init can_log reason (cfg_logLevel cfg) (cfg_logFile cfg) default_Logger"
  have series: "simulation_series (started_cfgs cfg) ?g rs g'"
    and p: "p = main_program (\<lambda>k _. rs ! k) (\<lambda>_. g') can_log reason can_open prog args file"
    using assms Inr by (simp_all add: main_run_def)
  have init: "lg_level ?g = cfg_logLevel cfg" "lg_stdout ?g = []"
    "lg_file ?g = (if cfg_logFile cfg \<noteq> '''' \<and> can_log then Some [] else None)"
    by (simp_all add: Logger_init_def default_Logger_def Let_def)
  have closed: "lg_stdout (Logger_shutdown g') = lg_stdout g'" "lg_file (Logger_shutdown g') = None"
    by (simp_all add: Logger_shutdown_def split: option.split)
  have csv: "pr_status p = 0" "pr_logger p = Logger_shutdown g'"
    "pr_csv p = (if cfg_csvOutput cfg \<noteq> '''' \<and> can_open
       then export_all (if cfg_benchmarkMode cfg then cell_results (\<lambda>k _. rs ! k) cfg 0 cells else [rs ! 0]) file
       else file)"
    unfolding p by (simp_all only: main_csv [OF Inr])
  show ?thesis
    unfolding Inr sum.case
  proof (intro impI conjI)
    assume ok: "runnable cfg"
    show "pr_status p = 0" by (rule csv)
    show "\<exists>rows. list_all2 plausible (reported_cfgs cfg) rows
        \<and> pr_csv p = (if cfg_csvOutput cfg \<noteq> '''' \<and> can_open then export_all rows file else file)"
      unfolding csv(3) using reported_plausible [OF ok series] by auto
    obtain lss where "list_all2 (\<lambda>(c, r). run_lines c r (lg_level ?g)) (zip (started_cfgs cfg) rs) lss"
      "lg_stdout g' = lg_stdout ?g @ concat lss" "lg_file g' = map_option (\<lambda>f. f @ concat lss) (lg_file ?g)"
      using series_log [OF series] started_valid [OF ok] by blast
    then show "\<exists>lss. list_all2 (\<lambda>(c, r). run_lines c r (cfg_logLevel cfg)) (zip (started_cfgs cfg) rs) lss
        \<and> length rs = length (started_cfgs cfg) \<and> lg_stdout (pr_logger p) = concat lss
        \<and> lg_file g' = (if cfg_logFile cfg \<noteq> '''' \<and> can_log then Some (concat lss) else None)
        \<and> lg_file (pr_logger p) = None"
      unfolding init csv(2) closed using series_length [OF series] by auto
  qed
qed

lemma main_run_exact_witness:
  "\<exists>rs g' p lss. main_run True '''' True ''rw'' [''--logfile'', ''run.log'', ''--output'', ''a.csv''] None rs g' p
     \<and> pr_status p = 0 \<and> length rs = 1 \<and> lg_file g' = Some (concat lss) \<and> lg_stdout (pr_logger p) = concat lss"
proof -
  let ?args = "[''--logfile'', ''run.log'', ''--output'', ''a.csv'']"
  let ?cfg = "default_SimConfig\<lparr>cfg_logFile := ''run.log'', cfg_csvOutput := ''a.csv''\<rparr>"
  have parse: "parseCLI ''rw'' ?args = Inr ?cfg" by code_simp
  have cfg: "valid_cfg ?cfg" "0 < num_threads ?cfg" "\<not> cfg_benchmarkMode ?cfg"
    by (simp_all add: valid_cfg_def num_threads_def default_SimConfig_def)
  then have ok: "runnable ?cfg" "\<forall>c \<in> set (started_cfgs ?cfg). valid_cfg c" "length (started_cfgs ?cfg) = 1"
    by (simp_all add: runnable_def started_cfgs_def)
  obtain rs g' where "simulation_series (started_cfgs ?cfg)
      (Logger_init True '''' (cfg_logLevel ?cfg) (cfg_logFile ?cfg) default_Logger) rs g'"
    using series_possible [OF ok(2)] by blast
  then have run: "main_run True '''' True ''rw'' ?args None rs g'
      (main_program (\<lambda>k _. rs ! k) (\<lambda>_. g') True '''' True ''rw'' ?args None)"
    unfolding main_run_def parse sum.case by blast
  from main_run_exact [OF run, unfolded parse sum.case] ok(1,3) run show ?thesis by auto
qed

end
