(* ===== verification/Teardown.thy ===== *)
theory Teardown
  imports Run_Results
begin

text \<open>
  The end of \<open>runSimulation\<close>: its local objects are destroyed, among them the watchdog and then the lock.  POSIX leaves it
  undefined to destroy a semaphore or a condition variable on which a thread is blocked, or a locked mutex;
  the comment on \<open>Semaphore::~Semaphore\<close> promises that all threads are joined before.
\<close>

section \<open>Destructors\<close>

text \<open>\<open>None\<close> where POSIX leaves the call undefined.\<close>

definition pthread_cond_destroy :: "pthread_cond \<Rightarrow> unit option" where
  "pthread_cond_destroy W = (if W = {} then Some () else None)"

definition pthread_mutex_destroy :: "pthread_mutex \<Rightarrow> unit option" where
  "pthread_mutex_destroy m = (if m = None then Some () else None)"

definition FairMorrisLock_dtor :: "fa_lock \<Rightarrow> unit option" where
  "FairMorrisLock_dtor l =
     Option.bind (pthread_cond_destroy (fa_writeCond l)) (\<lambda>_.
     Option.bind (pthread_cond_destroy (fa_readCond l)) (\<lambda>_.
     pthread_mutex_destroy (fa_mtx l)))"

text \<open>
  The defaulted destructors destroy the semaphores, last member first; a thread can be blocked on one of them
  only while it is in a call.
\<close>

definition ReaderPriorityLock_dtor :: "(tid \<Rightarrow> rp_point phase) \<Rightarrow> rp_lock \<Rightarrow> rp_lock option" where
  "ReaderPriorityLock_dtor ph l =
     (if \<exists>t. in_call (ph t) then None
      else Some (l\<lparr>rp_wrt := Semaphore_dtor (rp_wrt l), rp_mutex := Semaphore_dtor (rp_mutex l)\<rparr>))"

definition WriterPriorityLock_dtor :: "(tid \<Rightarrow> wp_point phase) \<Rightarrow> wp_lock \<Rightarrow> wp_lock option" where
  "WriterPriorityLock_dtor ph l =
     (if \<exists>t. in_call (ph t) then None
      else Some (l\<lparr>wp_readTry := Semaphore_dtor (wp_readTry l), wp_wrt := Semaphore_dtor (wp_wrt l),
                   wp_rsem := Semaphore_dtor (wp_rsem l), wp_mutex2 := Semaphore_dtor (wp_mutex2 l),
                   wp_mutex1 := Semaphore_dtor (wp_mutex1 l)\<rparr>))"

section \<open>The state at the end\<close>

definition ends_with :: "('l, 'p) RWLockBase \<Rightarrow> 'l \<Rightarrow> SimConfig \<Rightarrow> ('l \<Rightarrow> (tid \<Rightarrow> 'p phase) \<Rightarrow> bool) \<Rightarrow> bool" where
  "ends_with L l0 cfg Q \<longleftrightarrow> (\<forall>g x r. reachable (program_start l0 cfg g) (program_step L cfg) x \<longrightarrow>
     main_at x = M_returned r \<longrightarrow>
     Q (shared (lk (sim_of x))) (phase (lk (sim_of x))) \<and> Watchdog_dtor (dog_view cfg x) = (False, dog_view cfg x))"

definition binary_free :: "Semaphore \<Rightarrow> bool" where
  "binary_free s \<longleftrightarrow> sem_live s \<and> sem_count s = 1"

definition rp_idle :: "rp_lock \<Rightarrow> bool" where
  "rp_idle l \<longleftrightarrow> rp_readCount l = 0 \<and> \<not> rp_writerActive l \<and> binary_free (rp_mutex l) \<and> binary_free (rp_wrt l)"

definition wp_idle :: "wp_lock \<Rightarrow> bool" where
  "wp_idle l \<longleftrightarrow> wp_readCount l = 0 \<and> wp_writeCount l = 0 \<and> \<not> wp_writerActive l
     \<and> list_all binary_free [wp_mutex1 l, wp_mutex2 l, wp_rsem l, wp_wrt l, wp_readTry l]"

definition fa_idle :: "fa_lock \<Rightarrow> bool" where
  "fa_idle l \<longleftrightarrow> fa_activeReaders l = 0 \<and> \<not> fa_activeWriter l \<and> fa_waitingReaders l = 0 \<and> fa_waitingWriters l = 0"

text \<open>With all threads outside, the invariants leave no other state.\<close>

lemma rp_inv_idle:
  assumes "rp_inv l ph" and out: "\<And>t. ph t = Outside"
  shows "rp_idle l \<and> (\<exists>l'. ReaderPriorityLock_dtor ph l = Some l')"
proof -
  have "ph = (\<lambda>_. Outside)" using out by blast
  then show ?thesis using assms(1) by (auto simp: rp_inv_def rp_idle_def binary_free_def ReaderPriorityLock_dtor_def)
qed

lemma wp_inv_idle:
  assumes "wp_inv l ph" and out: "\<And>t. ph t = Outside"
  shows "wp_idle l \<and> (\<exists>l'. WriterPriorityLock_dtor ph l = Some l')"
proof -
  have ph: "ph = (\<lambda>_. Outside)" using out by blast
  show ?thesis
    using wp_inv_facts [OF assms(1)] unfolding ph
    by (simp add: wp_preds wp_idle_def binary_free_def WriterPriorityLock_dtor_def)
qed

lemma fa_inv_idle:
  assumes "fa_inv l ph" and out: "\<And>t. ph t = Outside"
  shows "fa_idle l \<and> FairMorrisLock_dtor l = Some ()"
proof -
  have ph: "ph = (\<lambda>_. Outside)" using out by blast
  have "fa_readCond l = {}" "fa_writeCond l = {}" "fa_mtx l = None"
    using fa_inv_counts(6,7) [OF assms(1)] fa_inv_facts(2) [OF assms(1)]
    by (auto simp: ph fa_holds_def)
  then show ?thesis
    using fa_inv_counts(1-4) [OF assms(1)] unfolding ph
    by (simp add: fa_preds fa_idle_def FairMorrisLock_dtor_def pthread_cond_destroy_def pthread_mutex_destroy_def)
qed

text \<open>A watchdog that has returned has been asked to.\<close>

lemma watchdog_stopped:
  assumes "reachable (watchdog_started is cfg g) watchdog_step d"
  shows "wd_point d = WD_returned \<longrightarrow> \<not> wd_running d"
  using assms
proof (induction rule: reachable.induct)
  case reachable_init
  show ?case by (simp add: watchdog_started_def)
next
  case (reachable_step d d')
  from reachable_step(2,3) show ?case
  proof (cases rule: watchdog_step.cases)
    case (scan now)
    then show ?thesis using reachable_step(3) by (cases "wd_point d") (auto simp: Let_def split: if_splits)
  qed (auto simp: Watchdog_stop_def)
qed

context recording_lock
begin

lemma all_outside:
  assumes cfg: "valid_cfg cfg" and reach: "reachable (program_start l0 cfg g) (program_step L cfg) x"
    and m: "main_at x = M_returned r"
  shows "phase (lk (sim_of x)) t = Outside" and "inv (shared (lk (sim_of x))) (phase (lk (sim_of x)))"
    and "Watchdog_dtor (dog_view cfg x) = (False, dog_view cfg x)"
proof -
  note pinv = program_inv_reachable [OF cfg reach]
  have "reachable (sim_start l0 cfg g) (sim_step L cfg) (sim_of x)" using pinv by (simp add: program_inv_def)
  note facts = sim_inv_facts [OF sim_inv_reachable [OF cfg this]]
  show "inv (shared (lk (sim_of x))) (phase (lk (sim_of x)))" by (rule inv_reachable [OF facts(1)])
  have fin: "dog_at x = WD_returned" "all_returned cfg (sim_of x)"
    using pinv m by (simp_all add: program_inv_def main_inv_def)
  show "phase (lk (sim_of x)) t = Outside"
  proof (cases "t < num_threads cfg")
    case True
    then show ?thesis using fin(2) facts(2) [of t] by (auto simp: all_returned_def worker_done_def coherent_def)
  next
    case False
    then show ?thesis using facts(2,3) [of t] by (simp add: coherent_def)
  qed
  obtain g' where "reachable (watchdog_started (initial_registry cfg) cfg g') watchdog_step (dog_view cfg x)"
    using pinv fin(1) by (auto simp: program_inv_def not_started_def dog_refined_def)
  from watchdog_stopped [OF this] show "Watchdog_dtor (dog_view cfg x) = (False, dog_view cfg x)"
    using fin(1) by (simp add: Watchdog_dtor_def)
qed

lemma ends_idle:
  assumes "valid_cfg cfg" and "\<And>l ph. inv l ph \<Longrightarrow> (\<And>t. ph t = Outside) \<Longrightarrow> Q l ph"
  shows "ends_with L l0 cfg Q"
  unfolding ends_with_def using all_outside [OF assms(1)] assms(2) by blast

end

section \<open>Properties\<close>

text \<open>
  C21: Destruction is safe.  When \<open>runSimulation\<close> returns, with any of the three algorithms and under every schedule, no
  thread is left in a call of the lock, so destroying the semaphores, and in \<open>~FairMorrisLock\<close> the condition
  variables and the mutex, is defined; the lock has been given back completely: each semaphore counts 1 again, no reader or writer is
  counted, waiting or flagged; and the destructor of the watchdog has nothing to stop or join.
\<close>

theorem run_teardown:
  assumes "valid_cfg cfg"
  shows "ends_with rp_class ReaderPriorityLock cfg (\<lambda>l ph. rp_idle l \<and> (\<exists>l'. ReaderPriorityLock_dtor ph l = Some l'))
       \<and> ends_with wp_class WriterPriorityLock cfg (\<lambda>l ph. wp_idle l \<and> (\<exists>l'. WriterPriorityLock_dtor ph l = Some l'))
       \<and> ends_with fa_class FairMorrisLock cfg (\<lambda>l ph. fa_idle l \<and> FairMorrisLock_dtor l = Some ())"
  by (intro conjI rp_rec.ends_idle [OF assms] wp_rec.ends_idle [OF assms] fa_rec.ends_idle [OF assms])
     (use rp_inv_idle wp_inv_idle fa_inv_idle in blast)+

lemma run_teardown_witness:
  "\<exists>x r. reachable (program_start FairMorrisLock small_cfg default_Logger) (program_step fa_class small_cfg) x
     \<and> main_at x = M_returned r \<and> FairMorrisLock_dtor (shared (lk (sim_of x))) = Some ()"
proof -
  obtain k m x r where run: "program_run fa_class small_cfg k m (program_start FairMorrisLock small_cfg default_Logger) x"
    and m: "main_at x = M_returned r" by (rule fair_morris_may_return [OF small_cfg_valid])
  have reach: "reachable (program_start FairMorrisLock small_cfg default_Logger) (program_step fa_class small_cfg) x"
    by (rule program_run_reachable [OF run reachable_init])
  from run_teardown [OF small_cfg_valid] reach m show ?thesis unfolding ends_with_def by blast
qed

end
