(* ===== verification/Spec2Isabelle.thy ===== *)
theory Spec2Isabelle
  imports Config Text_Format Thread_State Semaphores Logging Log_Threads Lock_Base Reader_Priority
    Writer_Priority Fair_Morris Shared_Resource Worker Progress Simulation Simulation_Report
    Watchdog Record_Grain Metrics Benchmark Command_Line Lock_Spec Lock_Histories
    Read_Counter Recording Single_Writer Fair_Work Timing
    Run_Simulation Late_Alert Run_Times Run_Length Fair_Return Run_Results Run_Benchmark
    Worker_Log Run_Log Run_Main Teardown
begin

text \<open>
  Verification of the readers-writers toolkit, a C++ program that simulates readers and writers on a shared
  resource under three locking algorithms, watches for starvation and reports metrics.

  \<^bold>\<open>The program.\<close>  \<open>main\<close> (\<open>src/main.cpp\<close>) parses the command line into a \<open>SimConfig\<close>, initialises the
  logger and runs one simulation, or the benchmark, which is 45 of them.  \<open>runSimulation\<close> creates the lock
  that \<open>cfg.algo\<close> names, a \<open>ThreadInfo\<close> per worker, the watchdog, and one thread per reader and writer; the
  workers share an atomic counter of operations and a \<open>SharedResource\<close>.  Every lock method reports the
  transitions of its caller through \<open>RWLockBase\<close> to the record and to the logger; the watchdog polls the
  records and marks the ones that wait too long.  When all workers are joined, \<open>Metrics\<close> turns the records
  into figures.

  \<^bold>\<open>Theories\<close>, each after the ones it uses:

  \<^item> \<open>RW_Prelude\<close>: outcomes of an atomic step (blocked, exception, result), counting of threads, reachability
    with its invariant rule.  Models no code.
  \<^item> \<open>Config\<close>, \<open>Text_Format\<close>, \<open>Thread_State\<close>: \<open>include/config.hpp\<close>, the C library's number formats, and
    \<open>include/thread_state.hpp\<close>.
  \<^item> \<open>Semaphores\<close>: \<open>semaphore.hpp/.cpp\<close> over POSIX semaphores as documented; signal delivery is a list of
    interruptions, the clock an argument.  Conservation (units counted by what the callers are told), the timed
    wait against a signal-free specification, exactness of the deadline, its error.
  \<^item> \<open>Logging\<close>: \<open>logger.hpp/.cpp\<close>; each public operation is one step.
  \<^item> \<open>Log_Threads\<close>: the logger called from several threads at the grain of its actions; such a run is one
    in which every call is a single step, though a line is formatted before the mutex is taken, so the log need
    not be in the order of its time stamps.
  \<^item> \<open>Lock_Base\<close>: \<open>rw_lock_base.hpp/.cpp\<close>; the abstract class is a record of methods, a method is run one
    atomic action at a time, and the most general client calls them from any number of threads.  Locale
    \<open>rw_lock\<close> is the contract (an inductive invariant that implies mutual exclusion), \<open>live_rw_lock\<close> adds a
    rank by which every call finishes.
  \<^item> \<open>Reader_Priority\<close>, \<open>Writer_Priority\<close>, \<open>Fair_Morris\<close>: the three locks, action by action, interpreted as
    \<open>live_rw_lock\<close> (the first two) and \<open>rw_lock\<close> (the third, which is not live).  Mutual exclusion, who may
    overtake whom, starvation traces, absence of exceptions, and the deadlock of \<open>FairMorrisLock\<close>, with its
    absence for a single writer.
  \<^item> \<open>Shared_Resource\<close>: \<open>shared_resource.hpp\<close>; the plain increments also as separate load and store.
  \<^item> \<open>Worker\<close>: \<open>readerThread\<close>, \<open>writerThread\<close>, the signal handler and the wiring of \<open>runSimulation\<close>; the
    operation counter is a \<open>32 word\<close>.  Locale \<open>sim_lock\<close> is what a simulation needs of its lock.
  \<^item> \<open>Progress\<close>: a measure of the work left to the workers, for any ranking of the points of a call; locale
    \<open>live_sim_lock\<close> is the case where every action lowers it.
  \<^item> \<open>Simulation\<close>: the interpretations for the three classes, and the guarantees of the workers together:
    exclusive writers, exact accounting of operations and writes.
  \<^item> \<open>Metrics\<close>: \<open>metrics.hpp/.cpp\<close>; closed form of the calculation, Jain's index, the CSV file read back.
  \<^item> \<open>Simulation_Report\<close>: creation of the workers and the result of \<open>runSimulation\<close>: exact figures for
    finished runs, and a run with \<open>FairMorrisLock\<close> that never finishes.
  \<^item> \<open>Single_Writer\<close>: with at most one writer such a run does not exist.
  \<^item> \<open>Fair_Work\<close>: the measure for \<open>FairMorrisLock\<close>; who wakes sleepers pays for their next round, a spurious
    wakeup costs five.
  \<^item> \<open>Watchdog\<close>: \<open>watchdog.hpp/.cpp\<close>, its loop action by action among the workers.
  \<^item> \<open>Record_Grain\<close>: the transitions as sequences of single stores and \<open>currentWaitMs\<close> as three loads; each
    store is a step the watchdog's model already allows.
  \<^item> \<open>Benchmark\<close>, \<open>Command_Line\<close>: \<open>runBenchmark\<close>, \<open>parseCLI\<close> and \<open>main\<close>.
  \<^item> \<open>Lock_Spec\<close>: an abstract readers-writers object with four atomic operations, whose state \<open>readerCount()\<close>
    and \<open>writerActive()\<close> report (locale \<open>inspected_lock\<close>).  What holds of several locks alike: no exception, calls
    return once no new request starts, starvation.
  \<^item> \<open>Lock_Histories\<close>: the histories of each class (who enters and leaves, in which order) are exactly those of
    that object.  Mutual exclusion gives one inclusion; for the other, locale \<open>serving_lock\<close>, interpreted for the
    three classes, states how many actions of its own a call needs when no other call is in progress.
  \<^item> \<open>Read_Counter\<close>: \<open>readCount_\<close> in the system of the workers (locale \<open>counting_lock\<close>): never more than the reads,
    and a run with any number of readers inside the lock together that loses all increments but one.
  \<^item> \<open>Recording\<close>: what the methods do to the caller's record (locale \<open>recording_lock\<close>), and from it the state
    a record shows at each point of a worker.
  \<^item> \<open>Timing\<close>: what each action does to the times a record keeps, and that it leaves the clock alone.
  \<^item> \<open>Run_Simulation\<close>: \<open>runSimulation\<close> as one transition system, \<open>program_step\<close>: the main thread
    (\<open>main_act\<close>, from the header line to the \<open>return\<close>), the workers of \<open>Worker\<close>, the loop of \<open>Watchdog\<close>, the
    signal and the clocks, over the same records and the same log.  Its invariant: the state is one of the
    workers' system, the watchdog's view is one of the watchdog's system, the main thread's position tells
    which threads exist, and each record shows what its thread does.  The steady clock never goes back, and
    an action that can read it twice ends at its later reading.
  \<^item> \<open>Late_Alert\<close>: schedules of the whole program as lists, executable, and one in which the watchdog reports a
    thread that has finished.
  \<^item> \<open>Run_Times\<close>: the waits a record accumulates fit into the time since \<open>runSimulation\<close> started its clock.
  \<^item> \<open>Run_Length\<close>: how long the whole takes (locale \<open>ending_lock\<close>: a measure of the workers gives one of the
    program; \<open>live_recording_lock\<close> for the semaphore locks).  \<open>Fair_Return\<close>: its interpretation for
    \<open>FairMorrisLock\<close>, which never gets stuck with one writer and can return with any number of them.
  \<^item> \<open>Run_Results\<close>: what follows for the whole: it terminates, the result it returns is exact, starvation
    events are bounded by operations, average waits by the duration, the records keep their types and their
    meaning.
  \<^item> \<open>Run_Benchmark\<close>: what \<open>runSimulation\<close> can return for a configuration, and the benchmark over such results.
  \<^item> \<open>Worker_Log\<close>: which actions of a lock call log (locale \<open>logging_lock\<close>), and from it the exact sequence of
    states a worker has logged at each of its points.  \<open>Run_Log\<close>: the log of a whole simulation as one history
    of the calls of all threads, an exact account of operations and starvation events.
  \<^item> \<open>Run_Main\<close>: \<open>main\<close> over the simulations it really starts, in a row on one logger: exit status, CSV rows and
    log of the whole program.
  \<^item> \<open>Teardown\<close>: the destructors at the end of \<open>runSimulation\<close>, and that what they destroy is not in use.

  \<^bold>\<open>Correspondence.\<close>  Structs and classes are records, enumerations datatypes, exceptions a branch of
  \<open>outcome\<close>.  A function that other threads can interrupt is a function from its program point to the next;
  one program point is one access to shared state (an atomic operation, a system call) or one transition
  report: a thread's update of its own record together with the log line that goes with it.  The other
  thread that uses a record is the watchdog, whose loads and stores are points of their own, but for
  \<open>currentWaitMs\<close>, which reads state, clock and \<open>waitStart\<close> in one.  \<open>Record_Grain\<close> has the records load by
  load and store by store, and the accounts of the watchdog hold there too; the logger at its own grain is \<open>Log_Threads\<close>.  Every interleaving at that grain is a sequence of steps.  Accesses are sequentially
  consistent; the orderings the code weakens are on variables read under the lock or the mutex.  The clock,
  the scheduler, signals, spurious wakeups and the answers of the operating system are arguments or
  nondeterministic steps.

  \<^bold>\<open>Bounds.\<close>  No fuel is used: loops run over explicit steps, and where they end this is proved by a measure
  (calls of a semaphore lock: 12 and 16 actions; workers: 42, 66 or, up to spurious wakeups, \<open>10 n + 26\<close> actions
  per operation and 6 per thread; the main thread: \<open>2 n + 8\<close>; the watchdog after \<open>stop\<close>: \<open>6 n + 3\<close>).
  \<open>valid_cfg\<close> asks for non-negative counts below \<open>2 ^ 31\<close>; the
  manifest's findings say what happens otherwise.  Integers are unbounded except for the operation counter
  and \<open>atoi\<close> (32 bits); the deadline arithmetic is shown to stay within 64 bits, the counters of a record
  between 0 and \<open>totalOps\<close>.

  \<^bold>\<open>Not modelled.\<close>  What the destructors do when a failing \<open>pthread_create\<close> throws out of \<open>runSimulation\<close>
  (nothing catches the exception, so the process ends; the main thread stops there and the other threads
  may go on); memory management (records, lock and resource outlive the threads that use them); the rounding of floating-point arithmetic (a
  \<open>double\<close> is a real, rounded when printed); buffering of output files and the interleaving of the
  logger's lines with those of \<open>main\<close> on standard output; weak memory; the build files and the tests.
  A failing \<open>stat\<close> in \<open>exportCSV\<close> means that the file does not exist, and all its calls in one benchmark find it
  equally accessible.  \<open>watchdog_step\<close> lets a worker rewrite its record more freely than the thread functions do:
  it carries results about all runs only.
\<close>

end
